(* ===== verification/Goscon_Prelude.thy ===== *)
theory Goscon_Prelude
  imports Main "HOL-Library.Word"
begin

text \<open>
  The vocabulary every component shares.

  \<^item> Machine types: \<open>byte\<close>, \<open>u16\<close>, \<open>u32\<close>, \<open>u64\<close> are words of their width. Go's
    \<open>int\<close> (64 bits on the platforms the program is built for) is the type \<open>int\<close>; where a
    value of that type comes from outside (\<open>strconv.Atoi\<close>, a configured time) or is
    converted to a narrower type, the range check or the reduction is written out. Counts and the
    sum of the weights of the configured hosts are taken to stay below \<open>2^63\<close>.
  \<^item> Errors and panics: \<open>goerr\<close> lists the error values the sources return or compare,
    \<open>res\<close> is the outcome of a call (a result, a returned error, a panic, or no return at all).
  \<^item> Calls with effects are functions from a state to an outcome and a state, sequenced by
    \<open>bindM\<close>: a Go statement \<open>if err := f(); err != nil { return err }\<close> followed by \<open>g\<close> is
    \<open>bindM f (\<lambda>_. g)\<close>. The state survives an error and a panic, as it does in Go.
  \<^item> Slices: \<open>go_copy\<close> is the built-in \<open>copy\<close> into \<open>dst[off:]\<close>, \<open>last_n\<close> the last bytes of a
    stream.
\<close>

section \<open>Types\<close>

type_synonym byte = "8 word"
type_synonym u16 = "16 word"
type_synonym u32 = "32 word"
type_synonym u64 = "64 word"

text \<open>The error values of the program. \<open>ScpErr\<close> is \<open>*scp.Error\<close> of \<open>scp/common.go\<close>; the
  others are values of the standard library the sources return unchanged.\<close>

datatype goerr =
    ScpErr int string
  | FmtErr string
  | ErrEOF
  | ErrUnexpectedEOF
  | ErrShortBuffer
  | ErrShortWrite
  | ErrClosedPipe
  | ErrNet string
  | ErrSyntax
  | ErrRange
  | ErrCorruptInput
  | ErrConnClosed
  | ErrNoHost
  | ErrNoPort
  | ErrInvalidConfig

datatype 'a res = Ok 'a | Fail goerr | Panic string | Hang

type_synonym ('s, 'a) M = "'s \<Rightarrow> 'a res \<times> 's"

section \<open>Named collections\<close>

named_theorems slice_simps \<open>rewriting of copies, prefixes and suffixes of byte lists\<close>
named_theorems monad_simps \<open>unfolding of the sequencing operators\<close>

section \<open>Sequencing\<close>

definition retM :: "'a \<Rightarrow> ('s, 'a) M" where
  "retM x = (\<lambda>s. (Ok x, s))"

definition failM :: "goerr \<Rightarrow> ('s, 'a) M" where
  "failM e = (\<lambda>s. (Fail e, s))"

definition panicM :: "string \<Rightarrow> ('s, 'a) M" where
  "panicM m = (\<lambda>s. (Panic m, s))"

definition bindM :: "('s, 'a) M \<Rightarrow> ('a \<Rightarrow> ('s, 'b) M) \<Rightarrow> ('s, 'b) M" where
  "bindM m k = (\<lambda>s. case m s of
     (Ok x, s') \<Rightarrow> k x s'
   | (Fail e, s') \<Rightarrow> (Fail e, s')
   | (Panic p, s') \<Rightarrow> (Panic p, s')
   | (Hang, s') \<Rightarrow> (Hang, s'))"

text \<open>Running a call and looking at the error it returns (a panic goes on unwinding).\<close>

definition tryM :: "('s, 'a) M \<Rightarrow> ('s, goerr + 'a) M" where
  "tryM m = (\<lambda>s. case m s of
     (Ok x, s') \<Rightarrow> (Ok (Inr x), s')
   | (Fail e, s') \<Rightarrow> (Ok (Inl e), s')
   | (Panic p, s') \<Rightarrow> (Panic p, s')
   | (Hang, s') \<Rightarrow> (Hang, s'))"

definition getM :: "('s \<Rightarrow> 'a) \<Rightarrow> ('s, 'a) M" where
  "getM f = (\<lambda>s. (Ok (f s), s))"

definition modM :: "('s \<Rightarrow> 's) \<Rightarrow> ('s, unit) M" where
  "modM f = (\<lambda>s. (Ok (), f s))"

text \<open>Lifting a pure call that may fail or panic.\<close>

definition liftM :: "'a res \<Rightarrow> ('s, 'a) M" where
  "liftM r = (\<lambda>s. (r, s))"

text \<open>Lifting a pure call that may also not return (\<open>None\<close>).\<close>

definition returns :: "'a res option \<Rightarrow> 'a res" where
  "returns r = (case r of None \<Rightarrow> Hang | Some x \<Rightarrow> x)"

section \<open>Slices\<close>

text \<open>\<open>copy(dst[off:], src)\<close>: as many bytes as fit, the rest of \<open>dst\<close> is kept.\<close>

definition go_copy :: "'a list \<Rightarrow> nat \<Rightarrow> 'a list \<Rightarrow> 'a list" where
  "go_copy dst off src =
     (let n = min (length dst - off) (length src)
      in take off dst @ take n src @ drop (off + n) dst)"

text \<open>The last \<open>n\<close> elements (all of them when there are fewer).\<close>

definition last_n :: "nat \<Rightarrow> 'a list \<Rightarrow> 'a list" where
  "last_n n xs = drop (length xs - n) xs"

section \<open>Shared lemmas\<close>

lemma unat_bound: "unat (w :: 'a::len word) < 2 ^ LENGTH('a)"
  by (rule unsigned_less)

lemma bindM_app [monad_simps]:
  "bindM m k s = (case m s of
     (Ok x, s') \<Rightarrow> k x s' | (Fail e, s') \<Rightarrow> (Fail e, s') | (Panic p, s') \<Rightarrow> (Panic p, s') | (Hang, s') \<Rightarrow> (Hang, s'))"
  by (simp add: bindM_def)

lemma tryM_app [monad_simps]:
  "tryM m s = (case m s of
     (Ok x, s') \<Rightarrow> (Ok (Inr x), s') | (Fail e, s') \<Rightarrow> (Ok (Inl e), s') | (Panic p, s') \<Rightarrow> (Panic p, s')
   | (Hang, s') \<Rightarrow> (Hang, s'))"
  by (simp add: tryM_def)

lemma returns_simps [simp]: "returns (Some r) = r" "returns None = Hang"
  by (simp_all add: returns_def)

lemma prim_simps [monad_simps]:
  "retM x s = (Ok x, s)" "failM e s = (Fail e, s)" "panicM p s = (Panic p, s)"
  "getM f s = (Ok (f s), s)" "modM g s = (Ok (), g s)" "liftM r s = (r, s)"
  by (simp_all add: retM_def failM_def panicM_def getM_def modM_def liftM_def)

lemma bindM_assoc: "bindM (bindM m k) h = bindM m (\<lambda>x. bindM (k x) h)"
  by (rule ext) (simp add: bindM_def split: prod.split res.split)

lemma bindM_eq_Ok:
  "bindM m k s = (Ok y, t) \<longleftrightarrow> (\<exists>x s'. m s = (Ok x, s') \<and> k x s' = (Ok y, t))"
  by (auto simp: bindM_def split: prod.splits res.splits)

lemma length_go_copy [simp]: "off \<le> length dst \<Longrightarrow> length (go_copy dst off src) = length dst"
  by (simp add: go_copy_def Let_def min_def)

lemma go_copy_Nil [simp]: "go_copy [] off src = []"
  by (simp add: go_copy_def)

lemma go_copy_fits [slice_simps]:
  "off + length src \<le> length dst \<Longrightarrow>
   go_copy dst off src = take off dst @ src @ drop (off + length src) dst"
  by (auto simp: go_copy_def Let_def min_def)

lemma go_copy_all [slice_simps]: "length src = length dst \<Longrightarrow> go_copy dst 0 src = src"
  by (simp add: go_copy_def Let_def)

lemma go_copy_trunc [slice_simps]:
  "length dst \<le> length src \<Longrightarrow> go_copy dst 0 src = take (length dst) src"
  by (simp add: go_copy_def Let_def min_def)

lemma length_last_n [simp]: "length (last_n n xs) = min n (length xs)"
  by (simp add: last_n_def)

lemma last_n_all [slice_simps]: "length xs \<le> n \<Longrightarrow> last_n n xs = xs"
  by (simp add: last_n_def)

lemma last_n_0 [simp]: "last_n 0 xs = []"
  by (simp add: last_n_def)

lemma last_n_Nil [simp]: "last_n n [] = []"
  by (simp add: last_n_def)

lemma last_n_append [slice_simps]: "last_n n (xs @ ys) = last_n (n - length ys) xs @ last_n n ys"
  by (cases "n \<le> length ys") (simp_all add: last_n_def)

lemma last_n_last_n [slice_simps]: "last_n m (last_n n xs) = last_n (min m n) xs"
proof (cases "n \<le> length xs")
  case True
  then have "length xs - n + (n - m) = length xs - min m n" by (simp add: min_def)
  with True show ?thesis by (simp add: last_n_def add.commute)
next
  case False
  then show ?thesis by (simp add: last_n_def min_def)
qed

lemma last_n_suffix: "n \<le> length xs \<Longrightarrow> take (length xs - n) xs @ last_n n xs = xs"
  by (simp add: last_n_def)

lemma remove_nth_distinct:
  assumes "k < length xs" "distinct xs"
  shows "distinct (take k xs @ drop (Suc k) xs)" "set (take k xs @ drop (Suc k) xs) = set xs - {xs ! k}"
proof -
  obtain us y vs where xs: "xs = us @ y # vs" and us: "length us = k"
    using assms(1) id_take_nth_drop [of k xs] by (metis length_take min.absorb4)
  show "distinct (take k xs @ drop (Suc k) xs)" "set (take k xs @ drop (Suc k) xs) = set xs - {xs ! k}"
    using assms(2) by (auto simp: xs us [symmetric])
qed

end
