(* ===== verification/Go_Net.thy ===== *)
theory Go_Net
  imports Goscon_Prelude
begin

text \<open>
  What the sources use of Go's packages \<open>net\<close> and \<open>math/rand\<close>: \<open>JoinHostPort\<close> and \<open>SplitHostPort\<close> (with all
  its errors), \<open>rand.Intn\<close> and \<open>rand.Shuffle\<close>. A random number generator is the sequence of numbers it will
  yield and a position in it; \<open>Intn(n)\<close> is the next of them modulo \<open>n\<close>, so that every value of the range is the
  result for some sequence, and a theorem for all sequences is a theorem for all outcomes.
\<close>

section \<open>Host and port\<close>

fun index_byte :: "char \<Rightarrow> string \<Rightarrow> nat option" where
  "index_byte c [] = None"
| "index_byte c (x # xs) = (if x = c then Some 0 else map_option Suc (index_byte c xs))"

definition last_byte :: "char \<Rightarrow> string \<Rightarrow> nat option" where
  "last_byte c s = map_option (\<lambda>i. length s - 1 - i) (index_byte c (rev s))"

definition JoinHostPort :: "string \<Rightarrow> string \<Rightarrow> string" where
  "JoinHostPort host port =
     (if index_byte CHR '':'' host \<noteq> None then ''['' @ host @ '']:'' @ port else host @ '':'' @ port)"

definition missingPort :: goerr where
  "missingPort = ErrNet ''missing port in address''"

definition tooManyColons :: goerr where
  "tooManyColons = ErrNet ''too many colons in address''"

definition unexpected :: "char \<Rightarrow> goerr" where
  "unexpected c = ErrNet (''unexpected '' @ [CHR 0x27, c, CHR 0x27] @ '' in address'')"

definition SplitHostPort :: "string \<Rightarrow> (string \<times> string) res" where
  "SplitHostPort hostport =
     (case last_byte CHR '':'' hostport of
        None \<Rightarrow> Fail missingPort
      | Some i \<Rightarrow>
          let finish = (\<lambda>host j k.
                if index_byte CHR ''['' (drop j hostport) \<noteq> None then Fail (unexpected CHR ''['')
                else if index_byte CHR '']'' (drop k hostport) \<noteq> None then Fail (unexpected CHR '']'')
                else Ok (host, drop (i + 1) hostport)) in
          if hostport ! 0 = CHR ''['' then
            (case index_byte CHR '']'' hostport of
               None \<Rightarrow> Fail (ErrNet (''missing '' @ [CHR 0x27, CHR '']'', CHR 0x27] @ '' in address''))
             | Some e \<Rightarrow>
                 if e + 1 = length hostport then Fail missingPort
                 else if e + 1 = i then finish (take (e - 1) (drop 1 hostport)) 1 (e + 1)
                 else if hostport ! (e + 1) = CHR '':'' then Fail tooManyColons
                 else Fail missingPort)
          else
            let host = take i hostport in
            if index_byte CHR '':'' host \<noteq> None then Fail tooManyColons else finish host 0 0)"

section \<open>Random numbers\<close>

record rng =
  rng_seq :: "nat \<Rightarrow> nat"
  rng_pos :: nat

definition Intn :: "int \<Rightarrow> rng \<Rightarrow> int res \<times> rng" where
  "Intn n r =
     (if n \<le> 0 then (Panic ''invalid argument to Intn'', r)
      else (Ok (int (rng_seq r (rng_pos r)) mod n), r\<lparr>rng_pos := Suc (rng_pos r)\<rparr>))"

definition swap_at :: "'a list \<Rightarrow> nat \<Rightarrow> nat \<Rightarrow> 'a list" where
  "swap_at xs i j = xs[i := xs ! j, j := xs ! i]"

text \<open>The loop of \<open>Shuffle\<close>, from position \<open>i\<close> down to 1.\<close>

fun shuffle_from :: "nat \<Rightarrow> 'a list \<Rightarrow> rng \<Rightarrow> 'a list \<times> rng" where
  "shuffle_from 0 xs r = (xs, r)"
| "shuffle_from (Suc i) xs r =
     shuffle_from i (swap_at xs (Suc i) (rng_seq r (rng_pos r) mod Suc (Suc i))) (r\<lparr>rng_pos := Suc (rng_pos r)\<rparr>)"

definition Shuffle :: "'a list \<Rightarrow> rng \<Rightarrow> 'a list \<times> rng" where
  "Shuffle xs r = shuffle_from (length xs - 1) xs r"

section \<open>Lemmas\<close>

lemma index_byte_None [simp]: "index_byte c s = None \<longleftrightarrow> c \<notin> set s"
  by (induction s) auto

lemma index_byte_append: "c \<notin> set s \<Longrightarrow> index_byte c (s @ c # t) = Some (length s)"
  by (induction s) auto

lemma last_byte_append: "c \<notin> set t \<Longrightarrow> last_byte c (s @ c # t) = Some (length s)"
  using index_byte_append [of c "rev t" "rev s"] by (simp add: last_byte_def)

text \<open>Splitting undoes joining.\<close>

lemma Split_Join:
  assumes "CHR ''['' \<notin> set host" "CHR '']'' \<notin> set host"
    and "CHR '':'' \<notin> set port" "CHR ''['' \<notin> set port" "CHR '']'' \<notin> set port"
  shows "SplitHostPort (JoinHostPort host port) = Ok (host, port)"
proof (cases "CHR '':'' \<in> set host")
  case False
  then have j: "JoinHostPort host port = host @ CHR '':'' # port" by (simp add: JoinHostPort_def)
  have l: "last_byte CHR '':'' (host @ CHR '':'' # port) = Some (length host)" using assms by (simp add: last_byte_append)
  have h: "(host @ CHR '':'' # port) ! 0 \<noteq> CHR ''[''" using assms by (cases host) auto
  show ?thesis using assms False h by (simp add: j SplitHostPort_def l Let_def)
next
  case True
  let ?s = "CHR ''['' # host @ CHR '']'' # CHR '':'' # port"
  have j: "JoinHostPort host port = ?s" using True by (simp add: JoinHostPort_def)
  have l: "last_byte CHR '':'' ?s = Some (length host + 2)"
    using last_byte_append [of "CHR '':''" port "CHR ''['' # host @ [CHR '']'']"] assms by simp
  have e: "index_byte CHR '']'' (host @ CHR '']'' # CHR '':'' # port) = Some (length host)"
    using assms by (simp add: index_byte_append)
  show ?thesis using assms by (simp add: j SplitHostPort_def l e Let_def)
qed

lemma Intn_range:
  assumes "0 < n"
  obtains v r' where "Intn n r = (Ok v, r')" "0 \<le> v" "v < n"
  using assms by (simp add: Intn_def)

lemma length_swap_at [simp]: "length (swap_at xs i j) = length xs"
  by (simp add: swap_at_def)

lemma mset_swap_at: "i < length xs \<Longrightarrow> j < length xs \<Longrightarrow> set (swap_at xs i j) = set xs"
  by (auto simp: swap_at_def set_swap)

lemma shuffle_from_set: "i < length xs \<or> i = 0 \<Longrightarrow>
  set (fst (shuffle_from i xs r)) = set xs \<and> length (fst (shuffle_from i xs r)) = length xs"
proof (induction i xs r rule: shuffle_from.induct)
  case (2 i xs r)
  let ?j = "rng_seq r (rng_pos r) mod Suc (Suc i)"
  have "?j < length xs" using 2(2) mod_less_divisor [of "Suc (Suc i)" "rng_seq r (rng_pos r)"] by linarith
  then show ?case using 2 by (simp add: mset_swap_at)
qed simp

text \<open>A shuffled list has the same elements.\<close>

lemma Shuffle_set [simp]: "set (fst (Shuffle xs r)) = set xs" "length (fst (Shuffle xs r)) = length xs"
  using shuffle_from_set [of "length xs - 1" xs r] by (cases xs; simp add: Shuffle_def)+

end
