(* ===== verification/Dh64.thy ===== *)
theory Dh64
  imports Goscon_Prelude
begin

text \<open>
  \<open>dh64/dh64.go\<close>: Diffie-Hellman key exchange modulo the 64-bit prime \<open>dh64_p = 2^64 - 59\<close> with
  generator 5, computed on unsigned 64-bit words that wrap around.

  \<open>mulModP\<close> is the shift-and-add loop, \<open>powModP\<close> the recursive square-and-multiply (which does
  not return for exponent 0, so its result is an option), \<open>powmodp\<close> the checked entry point
  with its two panics. The lemmas show that no intermediate value of the loop overflows in a
  way that matters, that the results are the mathematical product and power modulo \<open>dh64_p\<close>, and
  that both ends of an exchange compute the same secret.
\<close>

unbundle bit_operations_syntax

section \<open>Definitions\<close>

definition dh64_p :: u64 where
  "dh64_p = 0xffffffffffffffc5"

definition dh64_g :: u64 where
  "dh64_g = 5"

text \<open>One iteration of the loop of \<open>mulModP\<close>: the accumulator \<open>m\<close> and the doubled factor \<open>a\<close>.\<close>

definition mulModP_acc :: "u64 \<Rightarrow> u64 \<Rightarrow> u64 \<Rightarrow> u64" where
  "mulModP_acc a b m =
     (if 0 < b AND 1 then (let t = dh64_p - a in if t \<le> m then m - t else m + a) else m)"

definition mulModP_double :: "u64 \<Rightarrow> u64" where
  "mulModP_double a = (if dh64_p - a \<le> a then a * 2 - dh64_p else a * 2)"

lemma unat_shift_right [simp]: "unat (drop_bit (Suc 0) (b :: u64)) = unat b div 2"
  by (simp add: unat_div_distrib drop_bit_Suc)

function mulModP_loop :: "u64 \<Rightarrow> u64 \<Rightarrow> u64 \<Rightarrow> u64" where
  "mulModP_loop a b m =
     (if 0 < b then mulModP_loop (mulModP_double a) (drop_bit 1 b) (mulModP_acc a b m) else m)"
  by pat_completeness auto
termination
proof (relation "measure (\<lambda>(a, b, m). unat b)")
  fix a b m :: u64
  assume "0 < b"
  then have "0 < unat b" by (simp add: unat_gt_0 word_neq_0_conv)
  then show "((mulModP_double a, drop_bit 1 b, mulModP_acc a b m), a, b, m)
      \<in> measure (\<lambda>(a, b, m). unat b)"
    by simp
qed simp

definition mulModP :: "u64 \<Rightarrow> u64 \<Rightarrow> u64" where
  "mulModP a b = mulModP_loop a b 0"

partial_function (option) powModP :: "u64 \<Rightarrow> u64 \<Rightarrow> u64 option" where
  "powModP a b =
     (if b = 1 then Some a
      else Option.bind (powModP a (drop_bit 1 b))
        (\<lambda>t. let t = mulModP t t in Some (if 0 < b mod 2 then mulModP t a else t)))"

text \<open>\<open>None\<close> is a call that does not return; the two guards of \<open>powmodp\<close> panic.\<close>

definition powmodp :: "u64 \<Rightarrow> u64 \<Rightarrow> u64 res option" where
  "powmodp a b =
     (if a = 0 then Some (Panic ''DH64 zero public key'')
      else if b = 0 then Some (Panic ''DH64 zero private key'')
      else map_option Ok (powModP (if dh64_p < a then a mod dh64_p else a) b))"

text \<open>\<open>rand.Uint64\<close> is the sequence of values the generator will return; the loop draws until
  one is not zero and returns it with the position reached.\<close>

partial_function (option) PrivateKey :: "(nat \<Rightarrow> u64) \<Rightarrow> nat \<Rightarrow> (u64 \<times> nat) option" where
  "PrivateKey rand i = (if rand i \<noteq> 0 then Some (rand i, Suc i) else PrivateKey rand (Suc i))"

definition PublicKey :: "u64 \<Rightarrow> u64 res option" where
  "PublicKey privateKey = powmodp dh64_g privateKey"

definition Secret :: "u64 \<Rightarrow> u64 \<Rightarrow> u64 res option" where
  "Secret privateKey anotherPublicKey = powmodp anotherPublicKey privateKey"

section \<open>Specification\<close>

text \<open>The modulus as a number.\<close>

definition dh64_P :: nat where
  "dh64_P = 2 ^ 64 - 59"

declare mulModP_loop.simps [simp del]

lemma unat_p: "unat dh64_p = dh64_P"
  by (simp add: dh64_p_def dh64_P_def)

lemma P_pos: "1 < dh64_P"
  by (simp add: dh64_P_def)

subsection \<open>The loop of mulModP\<close>

lemma unat_p_minus: "unat a \<le> dh64_P \<Longrightarrow> unat (dh64_p - a) = dh64_P - unat a"
  by (simp add: unat_sub word_le_nat_alt unat_p)

lemma mulModP_double_nat:
  assumes "unat a \<le> dh64_P"
  shows "unat (mulModP_double a) \<le> dh64_P" and "unat (mulModP_double a) mod dh64_P = (2 * unat a) mod dh64_P"
proof -
  have d: "unat (mulModP_double a) = (if dh64_P \<le> 2 * unat a then 2 * unat a - dh64_P else 2 * unat a)"
  proof (cases "dh64_P \<le> 2 * unat a")
    case True
    then have "dh64_p - a \<le> a" using assms by (simp add: word_le_nat_alt unat_p_minus)
    then have "mulModP_double a = a - (dh64_p - a)" by (simp add: mulModP_double_def algebra_simps)
    moreover have "unat (a - (dh64_p - a)) = unat a - (dh64_P - unat a)"
      using \<open>dh64_p - a \<le> a\<close> assms by (simp only: unat_sub unat_p_minus)
    ultimately show ?thesis using True assms by simp
  next
    case False
    then have "\<not> dh64_p - a \<le> a" using assms by (simp add: word_le_nat_alt unat_p_minus)
    moreover have "unat (a * 2) = unat a * 2"
      using False by (simp add: unat_word_ariths dh64_P_def)
    ultimately show ?thesis using False by (simp add: mulModP_double_def)
  qed
  show "unat (mulModP_double a) \<le> dh64_P" using assms by (auto simp: d)
  show "unat (mulModP_double a) mod dh64_P = (2 * unat a) mod dh64_P" by (simp add: d le_mod_geq)
qed

lemma mulModP_acc_nat:
  assumes "unat a \<le> dh64_P" and "unat m < dh64_P"
  shows "unat (mulModP_acc a b m) < dh64_P"
    and "unat (mulModP_acc a b m) mod dh64_P = (unat m + unat a * (unat b mod 2)) mod dh64_P"
proof -
  have odd_b: "(0 < b AND 1) \<longleftrightarrow> unat b mod 2 = 1"
    by (simp add: word_less_nat_alt and_one_eq unat_word_ariths odd_iff_mod_2_eq_one)
  have d: "unat (mulModP_acc a b m) =
      (if unat b mod 2 = 0 then unat m
       else if dh64_P \<le> unat m + unat a then unat m + unat a - dh64_P else unat m + unat a)"
  proof (cases "unat b mod 2 = 0")
    case True
    then show ?thesis by (simp add: mulModP_acc_def odd_b)
  next
    case False
    then have o: "0 < b AND 1" by (simp add: odd_b)
    show ?thesis
    proof (cases "dh64_P \<le> unat m + unat a")
      case True
      then have "dh64_p - a \<le> m" using assms by (simp add: word_le_nat_alt unat_p_minus)
      with o False True assms show ?thesis
        by (simp add: mulModP_acc_def Let_def unat_sub unat_p_minus)
    next
      case no_wrap: False
      then have "\<not> dh64_p - a \<le> m" using assms by (simp add: word_le_nat_alt unat_p_minus)
      moreover have "unat (m + a) = unat m + unat a"
        using no_wrap by (simp add: unat_word_ariths dh64_P_def)
      ultimately show ?thesis using o False no_wrap by (simp add: mulModP_acc_def Let_def)
    qed
  qed
  show "unat (mulModP_acc a b m) < dh64_P" using assms by (auto simp: d)
  show "unat (mulModP_acc a b m) mod dh64_P = (unat m + unat a * (unat b mod 2)) mod dh64_P"
    by (simp add: d le_mod_geq mod2_eq_if)
qed

lemma mulModP_loop_nat:
  "unat a \<le> dh64_P \<Longrightarrow> unat m < dh64_P \<Longrightarrow>
   unat (mulModP_loop a b m) = (unat m + unat a * unat b) mod dh64_P"
proof (induction a b m rule: mulModP_loop.induct)
  case (1 a b m)
  show ?case
  proof (cases "0 < b")
    case False
    then have "b = 0" by (simp add: word_neq_0_conv [symmetric])
    then show ?thesis using "1.prems" by (simp add: mulModP_loop.simps [of a 0 m])
  next
    case True
    let ?a = "unat a" and ?b = "unat b" and ?m = "unat m"
    note da = mulModP_double_nat [OF "1.prems"(1)]
    note ac = mulModP_acc_nat [OF "1.prems", of b]
    have half: "unat (drop_bit 1 b) = ?b div 2" by simp
    have "unat (mulModP_loop a b m)
        = (unat (mulModP_acc a b m) + unat (mulModP_double a) * (?b div 2)) mod dh64_P"
      using "1.IH" [OF True da(1) ac(1)] True
      by (simp add: mulModP_loop.simps [of a b m] half)
    also have "\<dots> = ((?m + ?a * (?b mod 2)) + (2 * ?a) * (?b div 2)) mod dh64_P"
      by (intro mod_add_cong ac(2) mod_mult_cong da(2) refl)
    also have "(?m + ?a * (?b mod 2)) + (2 * ?a) * (?b div 2) = ?m + ?a * (2 * (?b div 2) + ?b mod 2)"
      by (simp only: distrib_left ac_simps)
    finally show ?thesis by (simp only: mult_div_mod_eq)
  qed
qed

lemma unat_mulModP: "unat a \<le> dh64_P \<Longrightarrow> unat (mulModP a b) = (unat a * unat b) mod dh64_P"
  using mulModP_loop_nat [of a 0 b] P_pos by (simp add: mulModP_def)

lemma mulModP_less: "unat a \<le> dh64_P \<Longrightarrow> unat (mulModP a b) < dh64_P"
  using P_pos by (simp add: unat_mulModP)

subsection \<open>powModP returns the power\<close>

lemma powModP_nat:
  assumes "unat a < dh64_P" and "b \<noteq> 0"
  shows "\<exists>t. powModP a b = Some t \<and> unat t = unat a ^ unat b mod dh64_P"
  using assms(2)
proof (induction "unat b" arbitrary: b rule: less_induct)
  case less
  show ?case
  proof (cases "b = 1")
    case True
    then show ?thesis using assms(1) by (simp add: powModP.simps)
  next
    case False
    let ?h = "drop_bit 1 b" and ?n = "unat a"
    have "unat b \<noteq> 0" "unat b \<noteq> 1"
      using less.prems False word_unat_eq_iff [of b 0] word_unat_eq_iff [of b 1] by simp_all
    then have half: "unat ?h = unat b div 2" "unat ?h < unat b" "?h \<noteq> 0"
      using word_unat_eq_iff [of ?h 0] by auto
    then obtain t where t: "powModP a ?h = Some t" "unat t = ?n ^ (unat b div 2) mod dh64_P"
      using less.hyps [of ?h] by auto
    have "unat t < dh64_P" using t(2) P_pos by simp
    then have sq: "unat (mulModP t t) = ?n ^ (unat b div 2 * 2) mod dh64_P"
      using t(2) by (simp add: unat_mulModP mod_mult_eq mult_2_right flip: power_add)
    have odd_b: "(0 < b mod 2) \<longleftrightarrow> unat b mod 2 = 1"
      by (simp add: word_less_nat_alt unat_mod_distrib)
    show ?thesis
    proof (cases "unat b mod 2 = 1")
      case True
      have "unat (mulModP (mulModP t t) a) = (?n ^ (unat b div 2 * 2) * ?n) mod dh64_P"
        using \<open>unat t < dh64_P\<close> by (simp add: unat_mulModP mulModP_less less_imp_le sq mod_mult_left_eq)
      also have "?n ^ (unat b div 2 * 2) * ?n = ?n ^ unat b"
        using True by (metis div_mult_mod_eq power_add power_one_right)
      finally show ?thesis using False True t(1) by (simp add: powModP.simps [of a b] odd_b Let_def)
    next
      case even: False
      then have "unat b div 2 * 2 = unat b" by presburger
      then show ?thesis using False even t(1) sq by (simp add: powModP.simps [of a b] odd_b Let_def)
    qed
  qed
qed

lemma powmodp_nat:
  assumes "a \<noteq> 0" "a \<noteq> dh64_p" "b \<noteq> 0"
  shows "\<exists>t. powmodp a b = Some (Ok t) \<and> unat t = unat a ^ unat b mod dh64_P"
proof -
  let ?a = "if dh64_p < a then a mod dh64_p else a"
  have "unat ?a = unat a mod dh64_P"
    using assms(2) word_unat_eq_iff [of a dh64_p]
    by (simp add: word_less_nat_alt unat_mod_distrib unat_p)
  then have "unat ?a < dh64_P" and "unat ?a ^ unat b mod dh64_P = unat a ^ unat b mod dh64_P"
    using P_pos by (simp_all add: power_mod)
  then show ?thesis
    using powModP_nat [of ?a b] assms by (auto simp: powmodp_def)
qed

lemma powmodp_zero_key [simp]: "powmodp 0 b = Some (Panic ''DH64 zero public key'')"
  by (simp add: powmodp_def)

text \<open>\<open>powmodp\<close> reduces its base with \<open>>\<close>, not \<open>>=\<close>, so the base \<open>dh64_p\<close> itself is kept. The loop of
  \<open>mulModP\<close> is right for it too, and the power is 0 from exponent 2 on.\<close>

lemma g_coprime_P: "coprime (unat dh64_g) dh64_P"
  by (simp add: dh64_g_def dh64_P_def coprime_iff_gcd_eq_1 gcd_non_0_nat)

lemma PublicKey_nat:
  assumes "x \<noteq> 0"
  obtains k where "PublicKey x = Some (Ok k)" "unat k = unat dh64_g ^ unat x mod dh64_P" "k \<noteq> 0" "k \<noteq> dh64_p"
proof -
  have "dh64_g \<noteq> 0" "dh64_g \<noteq> dh64_p" by (simp_all add: dh64_g_def dh64_p_def)
  then obtain k where k: "PublicKey x = Some (Ok k)" "unat k = unat dh64_g ^ unat x mod dh64_P"
    using powmodp_nat [of dh64_g x] assms by (auto simp: PublicKey_def)
  have "coprime (unat dh64_g ^ unat x) dh64_P" using g_coprime_P by simp
  then have "\<not> dh64_P dvd unat dh64_g ^ unat x"
    using P_pos coprime_absorb_right [of dh64_P "unat dh64_g ^ unat x"] by fastforce
  then have "unat k \<noteq> 0" by (simp add: k(2) dvd_eq_mod_eq_0)
  moreover have "unat k < dh64_P" using k(2) P_pos by simp
  ultimately have "k \<noteq> 0" "k \<noteq> dh64_p" by (auto simp: unat_p)
  with k that show thesis by blast
qed

lemma Secret_nat:
  assumes "x \<noteq> 0" "k \<noteq> 0" "k \<noteq> dh64_p"
  shows "\<exists>t. Secret x k = Some (Ok t) \<and> unat t = unat k ^ unat x mod dh64_P"
  using powmodp_nat assms by (simp add: Secret_def)

lemma Secret_of_PublicKey:
  assumes "x \<noteq> 0" "PublicKey y = Some (Ok k)" "y \<noteq> 0"
  shows "\<exists>t. Secret x k = Some (Ok t) \<and> unat t = unat dh64_g ^ (unat y * unat x) mod dh64_P"
proof -
  obtain k' where k': "PublicKey y = Some (Ok k')" "unat k' = unat dh64_g ^ unat y mod dh64_P" "k' \<noteq> 0" "k' \<noteq> dh64_p"
    using PublicKey_nat [OF assms(3)] by blast
  with assms(2) have "k' = k" by simp
  with k'(3,4) obtain t where t: "Secret x k = Some (Ok t)" "unat t = unat k ^ unat x mod dh64_P"
    using Secret_nat [OF assms(1), of k] by blast
  moreover have "unat k ^ unat x mod dh64_P = unat dh64_g ^ (unat y * unat x) mod dh64_P"
    using k'(2) \<open>k' = k\<close> by (simp only: power_mod power_mult)
  ultimately show ?thesis by simp
qed

text \<open>Both ends get a secret and it is the same: the form the handshake of \<open>scp/conn.go\<close> uses.\<close>

lemma Secret_commutes:
  assumes "x \<noteq> 0" "y \<noteq> 0"
  obtains kx ky t where "PublicKey x = Some (Ok kx)" "PublicKey y = Some (Ok ky)"
    "kx \<noteq> 0" "ky \<noteq> 0"
    "Secret x ky = Some (Ok t)" "Secret y kx = Some (Ok t)"
    "unat t = unat dh64_g ^ (unat x * unat y) mod dh64_P"
proof -
  obtain kx where kx: "PublicKey x = Some (Ok kx)" "kx \<noteq> 0" using PublicKey_nat [OF assms(1)] by blast
  obtain ky where ky: "PublicKey y = Some (Ok ky)" "ky \<noteq> 0" using PublicKey_nat [OF assms(2)] by blast
  obtain t where t: "Secret x ky = Some (Ok t)" "unat t = unat dh64_g ^ (unat y * unat x) mod dh64_P"
    using Secret_of_PublicKey [OF assms(1) ky(1) assms(2)] by blast
  obtain t' where t': "Secret y kx = Some (Ok t')" "unat t' = unat dh64_g ^ (unat x * unat y) mod dh64_P"
    using Secret_of_PublicKey [OF assms(2) kx(1) assms(1)] by blast
  have "t' = t" using t(2) t'(2) by (simp add: word_unat_eq_iff mult.commute)
  with kx ky t t' that show thesis by (simp add: mult.commute)
qed

lemma PrivateKey_from:
  assumes "rand (i + n) \<noteq> 0" and "\<forall>j < n. rand (i + j) = 0"
  shows "PrivateKey rand i = Some (rand (i + n), Suc (i + n))"
  using assms
proof (induction n arbitrary: i)
  case 0
  then show ?case by (simp add: PrivateKey.simps)
next
  case (Suc n)
  have "rand i = 0" using Suc.prems(2) by force
  moreover have "\<forall>j<n. rand (Suc i + j) = 0" using Suc.prems(2) by (auto dest: spec [where x = "Suc _"])
  ultimately show ?case using Suc.IH [of "Suc i"] Suc.prems(1) by (simp add: PrivateKey.simps [of rand i])
qed

section \<open>Properties\<close>

text \<open>C27. The key exchange of \<open>dh64.go\<close> agrees: for non-zero private keys both ends' calls of
  \<open>PublicKey\<close> and \<open>Secret\<close> return without panic, the two secrets are the same word, and it is
  \<open>5^(x*y) mod (2^64 - 59)\<close> although every step is computed on words that wrap around.\<close>

theorem dh64_secret_agreement:
  assumes "x \<noteq> 0" and "y \<noteq> 0"
  shows "\<exists>kx ky t. PublicKey x = Some (Ok kx) \<and> PublicKey y = Some (Ok ky) \<and>
           Secret x ky = Some (Ok t) \<and> Secret y kx = Some (Ok t) \<and>
           unat t = 5 ^ (unat x * unat y) mod (2 ^ 64 - 59)"
proof -
  have "unat dh64_g = 5" by (simp add: dh64_g_def)
  with Secret_commutes [OF assms] show ?thesis by (metis dh64_P_def)
qed

theorem dh64_secret_agreement_witness:
  "\<exists>kx ky t. PublicKey 2 = Some (Ok kx) \<and> PublicKey 3 = Some (Ok ky) \<and>
     Secret 2 ky = Some (Ok t) \<and> Secret 3 kx = Some (Ok t) \<and> unat t = 15625"
  using dh64_secret_agreement [of 2 3] by simp

text \<open>\<open>mulModP\<close> computes the product modulo \<open>dh64_p\<close> for every reduced first factor (the bound
  \<open>a = dh64_p\<close> included) and every 64-bit second factor: no addition or doubling of the loop loses
  a carry.\<close>

theorem mulModP_correct:
  assumes "a \<le> dh64_p"
  shows "unat (mulModP a b) = (unat a * unat b) mod (2 ^ 64 - 59)"
  using assms unat_mulModP [of a b] by (simp add: word_le_nat_alt unat_p dh64_P_def)

theorem mulModP_correct_witness:
  "unat (mulModP (dh64_p - 1) (dh64_p - 1)) = 1"
  using mulModP_correct [of "dh64_p - 1" "dh64_p - 1"] by (simp add: dh64_p_def)

text \<open>\<open>powmodp\<close> is total on the keys it accepts and panics on the others: a zero base or a zero
  exponent panics, every other call returns (the recursion of \<open>powModP\<close> ends), and for a base
  other than \<open>dh64_p\<close> the result is the power modulo \<open>dh64_p\<close>.\<close>

theorem powmodp_total:
  "(a = 0 \<or> b = 0 \<longleftrightarrow> (\<exists>m. powmodp a b = Some (Panic m))) \<and>
   (a \<noteq> 0 \<and> b \<noteq> 0 \<and> a \<noteq> dh64_p \<longrightarrow>
     (\<exists>t. powmodp a b = Some (Ok t) \<and> unat t = unat a ^ unat b mod (2 ^ 64 - 59)))"
proof -
  have "a \<noteq> 0 \<Longrightarrow> b \<noteq> 0 \<Longrightarrow> \<not> (\<exists>m. powmodp a b = Some (Panic m))"
    by (auto simp: powmodp_def)
  then show ?thesis using powmodp_nat [of a b] by (auto simp: dh64_P_def powmodp_def)
qed

theorem powmodp_total_witness:
  "(\<exists>m. powmodp 0 7 = Some (Panic m)) \<and>
   (\<exists>t. powmodp 3 4 = Some (Ok t) \<and> unat t = 81)"
  using powmodp_total [of 0 7] powmodp_total [of 3 4] by (simp add: dh64_p_def)

end
