(* ===== verification/Go_Std.thy ===== *)
theory Go_Std
  imports Goscon_Prelude
begin

text \<open>
  The parts of Go's standard library the sources call and whose results they depend on:
  decimal printing and parsing (\<open>fmt.Sprintf("%d")\<close>, \<open>strconv.Atoi\<close>, \<open>strconv.ParseUint\<close>),
  \<open>strings.Split\<close> at newlines, \<open>encoding/base64\<close> (\<open>StdEncoding\<close>) and the fixed-width encodings
  of \<open>encoding/binary\<close>. A Go string is a sequence of bytes; it is a HOL \<open>string\<close> here, with
  \<open>str_bytes\<close> and \<open>bytes_str\<close> for the conversions \<open>[]byte(s)\<close> and \<open>string(b)\<close>.

  The lemmas are the round trips the message formats rest on.
\<close>

unbundle bit_operations_syntax

section \<open>Definitions\<close>

definition str_bytes :: "string \<Rightarrow> byte list" where
  "str_bytes s = map (\<lambda>c. word_of_nat (of_char c)) s"

definition bytes_str :: "byte list \<Rightarrow> string" where
  "bytes_str bs = map (\<lambda>b. char_of (unat b)) bs"

definition map_res :: "('a \<Rightarrow> 'b) \<Rightarrow> 'a res \<Rightarrow> 'b res" where
  "map_res f r = (case r of Ok x \<Rightarrow> Ok (f x) | Fail e \<Rightarrow> Fail e | Panic m \<Rightarrow> Panic m | Hang \<Rightarrow> Hang)"

definition bind_res :: "'a res \<Rightarrow> ('a \<Rightarrow> 'b res) \<Rightarrow> 'b res" where
  "bind_res r k = (case r of Ok x \<Rightarrow> k x | Fail e \<Rightarrow> Fail e | Panic m \<Rightarrow> Panic m | Hang \<Rightarrow> Hang)"

subsection \<open>Decimal numbers\<close>

definition digit_char :: "nat \<Rightarrow> char" where
  "digit_char d = char_of (48 + d)"

fun dec_digits :: "nat \<Rightarrow> string" where
  "dec_digits n = (if n < 10 then [digit_char n] else dec_digits (n div 10) @ [digit_char (n mod 10)])"

definition itoa :: "int \<Rightarrow> string" where
  "itoa i = (if i < 0 then CHR ''-'' # dec_digits (nat (- i)) else dec_digits (nat i))"

text \<open>The digit loop of \<open>strconv.ParseUint\<close> in base 10: a byte that is no digit is a syntax error,
  a value over \<open>maxVal\<close> a range error, whichever comes first.\<close>

fun parse_digits :: "nat \<Rightarrow> nat \<Rightarrow> string \<Rightarrow> nat res" where
  "parse_digits maxVal n [] = Ok n"
| "parse_digits maxVal n (c # cs) =
     (let d = of_char c :: nat in
      if d < 48 \<or> 57 < d then Fail ErrSyntax
      else let n1 = n * 10 + (d - 48) in
        if maxVal < n1 then Fail ErrRange else parse_digits maxVal n1 cs)"

definition ParseUint :: "string \<Rightarrow> nat \<Rightarrow> nat res" where
  "ParseUint s bitSize = (if s = [] then Fail ErrSyntax else parse_digits (2 ^ bitSize - 1) 0 s)"

text \<open>\<open>strconv.Atoi\<close>: an optional sign, then the digits, within 64 signed bits. (The fast path
  for fewer than 19 bytes of the library computes the same.)\<close>

definition Atoi :: "string \<Rightarrow> int res" where
  "Atoi s = (if s = [] then Fail ErrSyntax else
     let neg = hd s = CHR ''-'';
         ds = (if hd s = CHR ''-'' \<or> hd s = CHR ''+'' then tl s else s)
     in bind_res (ParseUint ds 64) (\<lambda>n.
          if \<not> neg \<and> 2 ^ 63 \<le> n \<or> neg \<and> 2 ^ 63 < n then Fail ErrRange
          else Ok (if neg then - int n else int n)))"

subsection \<open>Splitting at newlines\<close>

fun split_nl :: "string \<Rightarrow> string list" where
  "split_nl [] = [[]]"
| "split_nl (c # cs) =
     (if c = CHR 0x0A then [] # split_nl cs
      else case split_nl cs of [] \<Rightarrow> [[c]] | l # ls \<Rightarrow> (c # l) # ls)"

subsection \<open>Base64 (StdEncoding)\<close>

definition b64_alphabet :: string where
  "b64_alphabet = ''ABCDEFGHIJKLMNOPQRSTUVWXYZabcdefghijklmnopqrstuvwxyz0123456789+/''"

definition b64_char :: "nat \<Rightarrow> char" where
  "b64_char n = b64_alphabet ! n"

definition b64_val :: "char \<Rightarrow> nat option" where
  "b64_val c = map_of (zip b64_alphabet [0..<64]) c"

fun b64_encode :: "byte list \<Rightarrow> string" where
  "b64_encode [] = []"
| "b64_encode [a] =
     (let v = unat a * 65536
      in [b64_char (v div 262144), b64_char (v div 4096 mod 64), CHR ''='', CHR ''=''])"
| "b64_encode [a, b] =
     (let v = unat a * 65536 + unat b * 256
      in [b64_char (v div 262144), b64_char (v div 4096 mod 64), b64_char (v div 64 mod 64), CHR ''=''])"
| "b64_encode (a # b # c # bs) =
     (let v = unat a * 65536 + unat b * 256 + unat c
      in b64_char (v div 262144) # b64_char (v div 4096 mod 64) # b64_char (v div 64 mod 64)
           # b64_char (v mod 64) # b64_encode bs)"

text \<open>\<open>decodeQuantum\<close>: up to four 6-bit values are collected, newlines and carriage returns are
  skipped; padding is accepted in the third or fourth place and must end the input. The bits a
  padded quantum leaves over are not checked (\<open>StdEncoding\<close> is not strict).\<close>

definition is_newline :: "char \<Rightarrow> bool" where
  "is_newline c \<longleftrightarrow> c = CHR 0x0A \<or> c = CHR 0x0D"

definition b64_quantum :: "nat list \<Rightarrow> byte list" where
  "b64_quantum vs =
     (let ws = vs @ replicate (4 - length vs) 0;
          v = ws ! 0 * 262144 + ws ! 1 * 4096 + ws ! 2 * 64 + ws ! 3
      in take (length vs - 1)
           [word_of_nat (v div 65536), word_of_nat (v div 256 mod 256), word_of_nat (v mod 256)])"

definition b64_finish :: "nat list \<Rightarrow> string \<Rightarrow> byte list res" where
  "b64_finish vs rest =
     (if dropWhile is_newline rest \<noteq> [] then Fail ErrCorruptInput else Ok (b64_quantum vs))"

fun b64_decode_from :: "nat list \<Rightarrow> string \<Rightarrow> byte list res" where
  "b64_decode_from vs [] = (if vs = [] then Ok [] else Fail ErrCorruptInput)"
| "b64_decode_from vs (c # cs) =
     (case b64_val c of
        Some v \<Rightarrow>
          if length vs = 3 then map_res (\<lambda>bs. b64_quantum (vs @ [v]) @ bs) (b64_decode_from [] cs)
          else b64_decode_from (vs @ [v]) cs
      | None \<Rightarrow>
          if is_newline c then b64_decode_from vs cs
          else if c \<noteq> CHR ''='' \<or> length vs < 2 then Fail ErrCorruptInput
          else if length vs = 2 then
            (case dropWhile is_newline cs of
               [] \<Rightarrow> Fail ErrCorruptInput
             | d # ds \<Rightarrow> if d \<noteq> CHR ''='' then Fail ErrCorruptInput else b64_finish vs ds)
          else b64_finish vs cs)"

definition b64_decode :: "string \<Rightarrow> byte list res" where
  "b64_decode s = b64_decode_from [] s"

definition DecodedLen :: "nat \<Rightarrow> nat" where
  "DecodedLen n = n div 4 * 3"

subsection \<open>Fixed-width integers\<close>

definition le_put :: "nat \<Rightarrow> 'a::len word \<Rightarrow> byte list" where
  "le_put n v = map (\<lambda>i. ucast (drop_bit (8 * i) v)) [0..<n]"

definition le_get :: "byte list \<Rightarrow> 'a::len word" where
  "le_get bs = foldr (\<lambda>b v. ucast b OR push_bit 8 v) bs 0"

definition be_put16 :: "u16 \<Rightarrow> byte list" where
  "be_put16 v = [ucast (drop_bit 8 v), ucast v]"

definition be_get16 :: "byte list \<Rightarrow> u16" where
  "be_get16 bs = push_bit 8 (ucast (bs ! 0)) OR ucast (bs ! 1)"

section \<open>Lemmas\<close>

declare dec_digits.simps [simp del]

lemma length_str_bytes [simp]: "length (str_bytes s) = length s"
  by (simp add: str_bytes_def)

lemma unat_char_byte [simp]: "unat (word_of_nat (of_char c) :: byte) = of_char c"
  by (simp add: unsigned_of_nat take_bit_nat_eq_self)

lemma bytes_str_str_bytes [simp]: "bytes_str (str_bytes s) = s"
  by (simp add: bytes_str_def str_bytes_def o_def)

lemma str_bytes_append [simp]: "str_bytes (s @ t) = str_bytes s @ str_bytes t"
  by (simp add: str_bytes_def)

lemma map_res_Ok [simp]: "map_res f (Ok x) = Ok (f x)"
  by (simp add: map_res_def)

lemma bind_res_simps [simp]:
  "bind_res (Ok x) k = k x" "bind_res (Fail e) k = Fail e" "bind_res (Panic m) k = Panic m"
  "bind_res Hang k = Hang"
  by (simp_all add: bind_res_def)

subsection \<open>Printing and parsing numbers\<close>

lemma of_char_digit [simp]: "d < 10 \<Longrightarrow> of_char (digit_char d) = 48 + d"
  by (simp add: digit_char_def)

lemma parse_digits_append:
  "parse_digits m n (xs @ ys) = bind_res (parse_digits m n xs) (\<lambda>k. parse_digits m k ys)"
  by (induction m n xs rule: parse_digits.induct) (auto simp: Let_def)

lemma parse_dec_digits: "n \<le> m \<Longrightarrow> parse_digits m 0 (dec_digits n) = Ok n"
proof (induction n rule: dec_digits.induct)
  case (1 n)
  show ?case
  proof (cases "n < 10")
    case True
    with "1.prems" show ?thesis by (simp add: dec_digits.simps [of n])
  next
    case False
    with "1" have "parse_digits m 0 (dec_digits (n div 10)) = Ok (n div 10)" by simp
    with False "1.prems" show ?thesis
      by (simp add: dec_digits.simps [of n] parse_digits_append)
  qed
qed

lemma dec_digits_not_Nil [simp]: "dec_digits n \<noteq> []"
  by (subst dec_digits.simps) simp

lemma set_dec_digits: "set (dec_digits n) \<subseteq> digit_char ` {..<10}"
proof (induction n rule: dec_digits.induct)
  case (1 n)
  then show ?case by (cases "n < 10") (simp_all add: dec_digits.simps [of n])
qed

lemma digit_char_neq [simp]:
  assumes "d < 10"
  shows "digit_char d \<noteq> CHR ''-''" "digit_char d \<noteq> CHR ''+''" "digit_char d \<noteq> CHR 0x0A"
  using of_char_digit [OF assms] by (auto simp del: of_char_digit)

lemmas digit_char_neq_sym [simp] = digit_char_neq [symmetric]

lemma hd_dec_digits [simp]: "hd (dec_digits n) \<noteq> CHR ''-''" "hd (dec_digits n) \<noteq> CHR ''+''"
proof -
  have "hd (dec_digits n) \<in> digit_char ` {..<10}"
    using set_dec_digits [of n] hd_in_set [OF dec_digits_not_Nil [of n]] by blast
  then show "hd (dec_digits n) \<noteq> CHR ''-''" "hd (dec_digits n) \<noteq> CHR ''+''" by auto
qed

lemma nl_not_in_dec_digits [simp]: "CHR 0x0A \<notin> set (dec_digits n)"
  using set_dec_digits [of n] by auto

lemma nl_not_in_itoa [simp]: "CHR 0x0A \<notin> set (itoa i)"
  by (simp add: itoa_def)

lemma ParseUint_itoa: "n < 2 ^ b \<Longrightarrow> ParseUint (itoa (int n)) b = Ok n"
  by (simp add: ParseUint_def itoa_def parse_dec_digits)

lemma Atoi_itoa: "- (2 ^ 63) \<le> i \<Longrightarrow> i < 2 ^ 63 \<Longrightarrow> Atoi (itoa i) = Ok i"
proof -
  assume "- (2 ^ 63) \<le> i" "i < 2 ^ 63"
  then show ?thesis
    by (auto simp: Atoi_def itoa_def ParseUint_def parse_dec_digits Let_def nat_less_iff nat_le_iff)
qed

lemma Atoi_range: "Atoi s = Ok i \<Longrightarrow> - (2 ^ 63) \<le> i \<and> i < 2 ^ 63"
  by (auto simp: Atoi_def Let_def bind_res_def split: if_splits res.splits)

subsection \<open>Lines\<close>

lemma split_nl_no_nl: "CHR 0x0A \<notin> set s \<Longrightarrow> split_nl s = [s]"
  by (induction s) auto

lemma split_nl_line: "CHR 0x0A \<notin> set s \<Longrightarrow> split_nl (s @ CHR 0x0A # t) = s # split_nl t"
  by (induction s) auto

lemma split_nl_not_Nil [simp]: "split_nl s \<noteq> []"
  by (induction s) (auto split: list.split)

subsection \<open>Base64\<close>

lemma length_b64_alphabet [simp]: "length b64_alphabet = 64"
  by (simp add: b64_alphabet_def)

lemma distinct_b64_alphabet: "distinct b64_alphabet"
  by (simp add: b64_alphabet_def)

lemma b64_val_char [simp]: "n < 64 \<Longrightarrow> b64_val (b64_char n) = Some n"
  by (simp add: b64_val_def b64_char_def map_of_zip_nth distinct_b64_alphabet)

lemma b64_val_pad [simp]: "b64_val (CHR ''='') = None"
  by (simp add: b64_val_def map_of_zip_is_None b64_alphabet_def)

lemma b64_char_in [simp]: "n < 64 \<Longrightarrow> b64_char n \<in> set b64_alphabet"
  by (simp add: b64_char_def)

lemma nl_not_in_b64_alphabet: "CHR 0x0A \<notin> set b64_alphabet"
  by (simp add: b64_alphabet_def)

lemma unat_byte_bound: "unat (b :: byte) < 256"
  using unat_bound [of b] by simp

lemma quantum_bounds:
  fixes a b c :: byte
  defines "v \<equiv> unat a * 65536 + unat b * 256 + unat c"
  shows "v div 262144 < 64" "v div 4096 mod 64 < 64" "v div 64 mod 64 < 64" "v mod 64 < 64"
  using unat_byte_bound [of a] unat_byte_bound [of b] unat_byte_bound [of c]
  by (simp_all add: v_def div_less_iff_less_mult)

lemma quantum_sum:
  fixes v :: nat
  shows "v div 262144 * 262144 + v div 4096 mod 64 * 4096 + v div 64 mod 64 * 64 + v mod 64 = v"
proof -
  define w where "w = v div 64"
  define u where "u = w div 64"
  have e: "v div 4096 = u" "v div 262144 = u div 64"
    by (simp_all add: u_def w_def div_mult2_eq [symmetric])
  have "u div 64 * 64 + u mod 64 = u" "u * 64 + w mod 64 = w" "w * 64 + v mod 64 = v"
    by (simp_all add: u_def w_def)
  then show ?thesis unfolding e w_def [symmetric] by linarith
qed

lemma b64_quantum_4:
  fixes a b c :: byte
  defines "v \<equiv> unat a * 65536 + unat b * 256 + unat c"
  shows "b64_quantum [v div 262144, v div 4096 mod 64, v div 64 mod 64, v mod 64] = [a, b, c]"
proof -
  have v: "v = unat c + 256 * (unat b + 256 * unat a)" by (simp add: v_def)
  have low: "v div 256 = unat b + 256 * unat a" "v mod 256 = unat c"
    using unat_byte_bound [of c] by (simp_all only: v div_mult_self2 mod_mult_self2) simp_all
  have "v div 65536 = v div 256 div 256" by (simp add: div_mult2_eq [symmetric])
  with low have "v div 65536 = unat a" "v div 256 mod 256 = unat b" "v mod 256 = unat c"
    using unat_byte_bound [of b] by simp_all
  then show ?thesis by (simp add: b64_quantum_def Let_def quantum_sum)
qed

lemma b64_quantum_3:
  fixes a b :: byte
  defines "v \<equiv> unat a * 65536 + unat b * 256"
  shows "b64_quantum [v div 262144, v div 4096 mod 64, v div 64 mod 64] = [a, b]"
proof -
  have "v mod 64 = 0"
    using mod_mult_self1 [of 0 "unat a * 1024 + unat b * 4" 64] by (simp add: v_def algebra_simps)
  then show ?thesis
    using b64_quantum_4 [of a b 0]
    by (simp add: b64_quantum_def Let_def v_def [symmetric] numeral_2_eq_2 numeral_3_eq_3)
qed

lemma b64_quantum_2:
  fixes a :: byte
  defines "v \<equiv> unat a * 65536"
  shows "b64_quantum [v div 262144, v div 4096 mod 64] = [a]"
proof -
  have "v mod 64 = 0" "v div 64 mod 64 = 0"
    using mod_mult_self1 [of 0 "unat a * 1024" 64] mod_mult_self1 [of 0 "unat a * 16" 64]
    by (simp_all add: v_def algebra_simps div_mult_swap)
  then show ?thesis
    using b64_quantum_4 [of a 0 0]
    by (simp add: b64_quantum_def Let_def v_def [symmetric] numeral_2_eq_2 numeral_3_eq_3)
qed

lemma b64_decode_encode_from: "b64_decode_from [] (b64_encode bs) = Ok bs"
proof (induction bs rule: b64_encode.induct)
  case (2 a)
  show ?case
    using quantum_bounds [of a 0 0] b64_quantum_2 [of a]
    by (simp add: Let_def b64_finish_def is_newline_def)
next
  case (3 a b)
  show ?case
    using quantum_bounds [of a b 0] b64_quantum_3 [of a b]
    by (simp add: Let_def b64_finish_def is_newline_def)
next
  case (4 a b c bs)
  then show ?case
    using quantum_bounds [of a b c] b64_quantum_4 [of a b c]
    by (simp add: Let_def)
qed simp

lemma b64_decode_encode: "b64_decode (b64_encode bs) = Ok bs"
  by (simp add: b64_decode_def b64_decode_encode_from)

lemma set_b64_encode: "set (b64_encode bs) \<subseteq> insert (CHR ''='') (set b64_alphabet)"
proof (induction bs rule: b64_encode.induct)
  case (2 a)
  show ?case using quantum_bounds [of a 0 0] by (simp add: Let_def)
next
  case (3 a b)
  show ?case using quantum_bounds [of a b 0] by (simp add: Let_def)
next
  case (4 a b c bs)
  then show ?case using quantum_bounds [of a b c] by (simp add: Let_def)
qed simp

lemma nl_not_in_b64_encode [simp]: "CHR 0x0A \<notin> set (b64_encode bs)"
  using set_b64_encode [of bs] nl_not_in_b64_alphabet by auto

lemma length_b64_encode: "length (b64_encode bs) = (length bs + 2) div 3 * 4"
  by (induction bs rule: b64_encode.induct) (simp_all add: Let_def, presburger)

subsection \<open>Fixed-width integers\<close>

lemma length_le_put [simp]: "length (le_put n v) = n"
  by (simp add: le_put_def)

lemma bit_le_get:
  "bit (le_get bs :: 'a::len word) k \<longleftrightarrow>
     k < LENGTH('a) \<and> k div 8 < length bs \<and> bit (bs ! (k div 8)) (k mod 8)"
proof (induction bs arbitrary: k)
  case Nil
  then show ?case by (simp add: le_get_def)
next
  case (Cons b bs)
  have "le_get (b # bs) = (ucast b OR push_bit 8 (le_get bs) :: 'a word)" by (simp add: le_get_def)
  then show ?case
    using Cons.IH [of "k - 8"]
    by (cases "k < 8") (auto simp: bit_simps le_div_geq le_mod_geq dest: bit_imp_le_length)
qed

lemma le_get_put:
  fixes v :: "'a::len word"
  assumes "LENGTH('a) \<le> 8 * n"
  shows "le_get (le_put n v) = v"
proof (rule bit_word_eqI)
  fix k assume k: "k < LENGTH('a)"
  then have "k div 8 < n" using assms by (simp add: div_less_iff_less_mult mult.commute)
  moreover have "8 * (k div 8) + k mod 8 = k" by simp
  ultimately show "bit (le_get (le_put n v) :: 'a word) k \<longleftrightarrow> bit v k"
    using k by (simp add: bit_le_get le_put_def bit_simps)
qed

lemma le_put_get:
  assumes "8 * length bs \<le> LENGTH('a)"
  shows "le_put (length bs) (le_get bs :: 'a::len word) = bs"
proof (rule nth_equalityI)
  fix i assume i: "i < length (le_put (length bs) (le_get bs :: 'a word))"
  show "le_put (length bs) (le_get bs :: 'a word) ! i = bs ! i"
  proof (rule bit_word_eqI)
    fix k assume "k < LENGTH(8)"
    then have k: "k < 8" by simp
    then have "8 * i + k < LENGTH('a)" using i assms by simp
    with k i show "bit (le_put (length bs) (le_get bs :: 'a word) ! i) k \<longleftrightarrow> bit (bs ! i) k"
      by (simp add: le_put_def bit_simps bit_le_get)
  qed
qed simp

lemma be_get_put16: "be_get16 (be_put16 v) = v"
  by (rule bit_word_eqI) (auto simp: be_get16_def be_put16_def bit_simps)

lemma length_be_put16 [simp]: "length (be_put16 v) = 2"
  by (simp add: be_put16_def)

end
