(* ===== verification/Go_Crypto.thy ===== *)
theory Go_Crypto
  imports Go_Std
begin

text \<open>
  The two algorithms of Go's \<open>crypto\<close> packages the protocol uses: \<open>md5.Sum\<close> (the core of the
  checksum of \<open>scp/hash.go\<close>) and the RC4 stream cipher of \<open>scp/conn.go\<close>. Both are modelled as the
  library computes them, on words of their width.

  The rest of the development uses RC4 only through the interface \<open>stream_cipher\<close>: a key stream
  that is applied byte by byte, does not depend on the data, and cancels itself. Its lemma
  \<open>run_inverse\<close> is what an encrypted connection needs: however the sender cuts the stream into
  writes and the receiver into reads, the receiver gets back the bytes that were sent.
\<close>

unbundle bit_operations_syntax

section \<open>MD5\<close>

definition md5_shift :: "nat list" where
  "md5_shift = [
      7, 12, 17, 22, 7, 12, 17, 22, 7, 12, 17, 22, 7, 12, 17, 22,
      5, 9, 14, 20, 5, 9, 14, 20, 5, 9, 14, 20, 5, 9, 14, 20,
      4, 11, 16, 23, 4, 11, 16, 23, 4, 11, 16, 23, 4, 11, 16, 23,
      6, 10, 15, 21, 6, 10, 15, 21, 6, 10, 15, 21, 6, 10, 15, 21]"

definition md5_table :: "u32 list" where
  "md5_table = [
      0xd76aa478, 0xe8c7b756, 0x242070db, 0xc1bdceee, 0xf57c0faf, 0x4787c62a, 0xa8304613, 0xfd469501,
      0x698098d8, 0x8b44f7af, 0xffff5bb1, 0x895cd7be, 0x6b901122, 0xfd987193, 0xa679438e, 0x49b40821,
      0xf61e2562, 0xc040b340, 0x265e5a51, 0xe9b6c7aa, 0xd62f105d, 0x02441453, 0xd8a1e681, 0xe7d3fbc8,
      0x21e1cde6, 0xc33707d6, 0xf4d50d87, 0x455a14ed, 0xa9e3e905, 0xfcefa3f8, 0x676f02d9, 0x8d2a4c8a,
      0xfffa3942, 0x8771f681, 0x6d9d6122, 0xfde5380c, 0xa4beea44, 0x4bdecfa9, 0xf6bb4b60, 0xbebfbc70,
      0x289b7ec6, 0xeaa127fa, 0xd4ef3085, 0x04881d05, 0xd9d4d039, 0xe6db99e5, 0x1fa27cf8, 0xc4ac5665,
      0xf4292244, 0x432aff97, 0xab9423a7, 0xfc93a039, 0x655b59c3, 0x8f0ccc92, 0xffeff47d, 0x85845dd1,
      0x6fa87e4f, 0xfe2ce6e0, 0xa3014314, 0x4e0811a1, 0xf7537e82, 0xbd3af235, 0x2ad7d2bb, 0xeb86d391]"

type_synonym md5_state = "u32 \<times> u32 \<times> u32 \<times> u32"

definition md5_f :: "nat \<Rightarrow> u32 \<Rightarrow> u32 \<Rightarrow> u32 \<Rightarrow> u32" where
  "md5_f j x y z =
     (if j < 16 then (x AND y) OR (NOT x AND z)
      else if j < 32 then (x AND z) OR (y AND NOT z)
      else if j < 48 then x XOR y XOR z
      else y XOR (x OR NOT z))"

definition md5_index :: "nat \<Rightarrow> nat" where
  "md5_index j =
     (if j < 16 then j
      else if j < 32 then (5 * j + 1) mod 16
      else if j < 48 then (3 * j + 5) mod 16
      else 7 * j mod 16)"

definition md5_round :: "u32 list \<Rightarrow> md5_state \<Rightarrow> nat \<Rightarrow> md5_state" where
  "md5_round x s j =
     (case s of (a, b, c, d) \<Rightarrow>
        (d, b + word_rotl (md5_shift ! j) (a + md5_f j b c d + x ! md5_index j + md5_table ! j), b, c))"

definition md5_block :: "md5_state \<Rightarrow> byte list \<Rightarrow> md5_state" where
  "md5_block s blk =
     (let x = map (\<lambda>i. le_get (take 4 (drop (4 * i) blk))) [0..<16];
          (a, b, c, d) = s; (a', b', c', d') = foldl (md5_round x) s [0..<64]
      in (a + a', b + b', c + c', d + d'))"

definition md5_pad :: "byte list \<Rightarrow> byte list" where
  "md5_pad m = m @ [0x80] @ replicate ((119 - length m mod 64) mod 64) 0
                 @ le_put 8 (word_of_nat (8 * length m) :: u64)"

definition md5_Sum :: "byte list \<Rightarrow> byte list" where
  "md5_Sum m =
     (let q = md5_pad m;
          (a, b, c, d) = foldl (\<lambda>s i. md5_block s (take 64 (drop (64 * i) q)))
            (0x67452301, 0xEFCDAB89, 0x98BADCFE, 0x10325476) [0..<length q div 64]
      in le_put 4 a @ le_put 4 b @ le_put 4 c @ le_put 4 d)"

lemma length_md5_Sum [simp]: "length (md5_Sum m) = 16"
  by (simp add: md5_Sum_def Let_def split: prod.split)

section \<open>RC4\<close>

record rc4 =
  rc4_s :: "byte list"
  rc4_i :: byte
  rc4_j :: byte

definition swap_s :: "byte list \<Rightarrow> byte \<Rightarrow> byte \<Rightarrow> byte list" where
  "swap_s s i j = s[unat i := s ! unat j, unat j := s ! unat i]"

text \<open>\<open>rc4.NewCipher\<close>: the key schedule. The callers pass a key of 32 bytes.\<close>

definition rc4_schedule :: "byte list \<Rightarrow> byte list \<times> byte \<Rightarrow> nat \<Rightarrow> byte list \<times> byte" where
  "rc4_schedule key sj i =
     (let (s, j) = sj; j' = j + s ! i + key ! (i mod length key)
      in (swap_s s (word_of_nat i) j', j'))"

definition rc4_NewCipher :: "byte list \<Rightarrow> rc4" where
  "rc4_NewCipher key =
     \<lparr>rc4_s = fst (foldl (rc4_schedule key) (map word_of_nat [0..<256], 0) [0..<256]),
      rc4_i = 0, rc4_j = 0\<rparr>"

text \<open>One byte of key stream.\<close>

definition rc4_next :: "rc4 \<Rightarrow> byte \<times> rc4" where
  "rc4_next c =
     (let i = rc4_i c + 1; x = rc4_s c ! unat i; j = rc4_j c + x; y = rc4_s c ! unat j;
          s = swap_s (rc4_s c) i j
      in (s ! unat (x + y), \<lparr>rc4_s = s, rc4_i = i, rc4_j = j\<rparr>))"

fun XORKeyStream :: "rc4 \<Rightarrow> byte list \<Rightarrow> byte list \<times> rc4" where
  "XORKeyStream c [] = ([], c)"
| "XORKeyStream c (v # src) =
     (let (k, c1) = rc4_next c; (dst, c2) = XORKeyStream c1 src in ((v XOR k) # dst, c2))"

section \<open>The interface of a stream cipher\<close>

locale stream_cipher =
  fixes crypt :: "'c \<Rightarrow> byte list \<Rightarrow> byte list \<times> 'c"
  assumes crypt_Nil: "crypt c [] = ([], c)"
    and crypt_length: "length (fst (crypt c src)) = length src"
    and crypt_append: "crypt c (xs @ ys) =
      (fst (crypt c xs) @ fst (crypt (snd (crypt c xs)) ys), snd (crypt (snd (crypt c xs)) ys))"
    and crypt_inverse: "fst (crypt c (fst (crypt c src))) = src"
    and crypt_state: "length xs = length ys \<Longrightarrow> snd (crypt c xs) = snd (crypt c ys)"
begin

text \<open>A stream cut into pieces, each passed through the cipher in turn.\<close>

fun run :: "'c \<Rightarrow> byte list list \<Rightarrow> byte list \<times> 'c" where
  "run c [] = ([], c)"
| "run c (x # xs) = (fst (crypt c x) @ fst (run (snd (crypt c x)) xs), snd (run (snd (crypt c x)) xs))"

lemma run_concat: "run c xs = crypt c (concat xs)"
  by (induction xs arbitrary: c) (simp_all add: crypt_Nil crypt_append)

lemma crypt_crypt: "crypt c (fst (crypt c src)) = (src, snd (crypt c src))"
  by (intro prod_eqI) (simp_all add: crypt_inverse crypt_state [OF crypt_length])

lemma run_inverse:
  assumes "concat rs = fst (run c ws)"
  shows "run c rs = (concat ws, snd (run c ws))"
  using assms by (simp add: run_concat crypt_crypt)

text \<open>A prefix of the ciphertext decrypts to the prefix of the plaintext, and the reader is then
  where the writer was after that prefix.\<close>

lemma crypt_prefix:
  assumes "n \<le> length src"
  shows "crypt c (take n (fst (crypt c src))) = (take n src, snd (crypt c (take n src)))"
proof -
  have "fst (crypt c src) = fst (crypt c (take n src)) @ fst (crypt (snd (crypt c (take n src))) (drop n src))"
    using crypt_append [of c "take n src" "drop n src"] by simp
  then have "take n (fst (crypt c src)) = fst (crypt c (take n src))"
    using assms by (simp add: crypt_length)
  then show ?thesis by (simp add: crypt_crypt)
qed

lemma crypt_resume:
  assumes "n \<le> length src"
  shows "crypt (snd (crypt c (take n src))) (drop n (fst (crypt c src))) = (drop n src, snd (crypt c src))"
proof -
  let ?c = "snd (crypt c (take n src))"
  have "crypt c src = (fst (crypt c (take n src)) @ fst (crypt ?c (drop n src)), snd (crypt ?c (drop n src)))"
    using crypt_append [of c "take n src" "drop n src"] by simp
  then show ?thesis using assms by (simp add: crypt_length crypt_crypt)
qed

text \<open>The same for a piece in the middle.\<close>

lemma crypt_segment:
  assumes "n + l \<le> length src"
  shows "crypt (snd (crypt c (take n src))) (take l (drop n (fst (crypt c src)))) =
    (take l (drop n src), snd (crypt c (take (n + l) src)))"
proof -
  let ?c = "snd (crypt c (take n src))"
  have "drop n (fst (crypt c src)) = fst (crypt ?c (drop n src))"
    using crypt_append [of c "take n src" "drop n src"] assms by (simp add: crypt_length)
  then have "crypt ?c (take l (drop n (fst (crypt c src)))) = (take l (drop n src), snd (crypt ?c (take l (drop n src))))"
    using crypt_prefix [of l "drop n src" ?c] assms by simp
  moreover have "snd (crypt c (take (n + l) src)) = snd (crypt ?c (take l (drop n src)))"
    by (simp add: take_add crypt_append)
  ultimately show ?thesis by simp
qed

end

subsection \<open>RC4 is one\<close>

lemma XORKeyStream_Cons [simp]:
  "XORKeyStream c (v # src) =
     ((v XOR fst (rc4_next c)) # fst (XORKeyStream (snd (rc4_next c)) src),
      snd (XORKeyStream (snd (rc4_next c)) src))"
  by (simp add: Let_def split: prod.split)

declare XORKeyStream.simps(2) [simp del]

lemma length_XORKeyStream [simp]: "length (fst (XORKeyStream c src)) = length src"
  by (induction src arbitrary: c) simp_all

lemma XORKeyStream_append:
  "XORKeyStream c (xs @ ys) =
     (fst (XORKeyStream c xs) @ fst (XORKeyStream (snd (XORKeyStream c xs)) ys),
      snd (XORKeyStream (snd (XORKeyStream c xs)) ys))"
  by (induction xs arbitrary: c) simp_all

lemma XORKeyStream_inverse: "fst (XORKeyStream c (fst (XORKeyStream c src))) = src"
  by (induction src arbitrary: c) (simp_all add: xor.assoc)

lemma XORKeyStream_state:
  "length xs = length ys \<Longrightarrow> snd (XORKeyStream c xs) = snd (XORKeyStream c ys)"
  by (induction xs ys arbitrary: c rule: list_induct2) simp_all

interpretation rc4: stream_cipher XORKeyStream
proof unfold_locales
  show "XORKeyStream c [] = ([], c)" for c by simp
  show "length (fst (XORKeyStream c src)) = length src" for c src by simp
qed (rule XORKeyStream_append XORKeyStream_inverse XORKeyStream_state; assumption?)+

end
