(* ===== verification/Scp_Hash.thy ===== *)
theory Scp_Hash
  imports Go_Crypto
begin

text \<open>
  \<open>scp/hash.go\<close>: the 8-byte little-endian integers \<open>leu64\<close>, the string hash (a djb hash in the
  low half, a js hash in the high half) and the checksum \<open>hmac\<close> over two such integers.
  A \<open>leu64\<close> is a list of 8 bytes (\<open>wf_leu64\<close>); arrays are values in Go, so methods with a pointer
  receiver return the new array.
\<close>

unbundle bit_operations_syntax

section \<open>Definitions\<close>

type_synonym leu64 = "byte list"

definition wf_leu64 :: "leu64 \<Rightarrow> bool" where
  "wf_leu64 l \<longleftrightarrow> length l = 8"

definition zero_leu64 :: leu64 where
  "zero_leu64 = replicate 8 0"

definition PutUint64 :: "leu64 \<Rightarrow> u64 \<Rightarrow> leu64" where
  "PutUint64 l v = go_copy l 0 (le_put 8 v)"

definition toLeu64 :: "u64 \<Rightarrow> leu64" where
  "toLeu64 v = PutUint64 zero_leu64 v"

definition Uint64 :: "leu64 \<Rightarrow> u64" where
  "Uint64 l = le_get l"

definition PutLowUint32 :: "leu64 \<Rightarrow> u32 \<Rightarrow> leu64" where
  "PutLowUint32 l v = go_copy l 0 (le_put 4 v)"

definition PutHighUint32 :: "leu64 \<Rightarrow> u32 \<Rightarrow> leu64" where
  "PutHighUint32 l v = go_copy l 4 (le_put 4 v)"

text \<open>\<open>Read\<close> fills the caller's slice, \<open>Write\<close> the receiver.\<close>

definition leu64_Read :: "leu64 \<Rightarrow> byte list \<Rightarrow> byte list \<times> nat res" where
  "leu64_Read l p =
     (if length p < 8 then (p, Fail ErrShortBuffer) else (go_copy p 0 l, Ok (length l)))"

definition leu64_Write :: "leu64 \<Rightarrow> byte list \<Rightarrow> leu64" where
  "leu64_Write l p = go_copy l 0 p"

definition hash_step :: "u32 \<times> u32 \<Rightarrow> byte \<Rightarrow> u32 \<times> u32" where
  "hash_step h c =
     (let (djb_hash, js_hash) = h
      in (djb_hash + (push_bit 5 djb_hash + ucast c),
          js_hash XOR (push_bit 5 js_hash + ucast c + drop_bit 2 js_hash)))"

definition hash :: "byte list \<Rightarrow> leu64" where
  "hash s =
     (let (djb_hash, js_hash) = foldl hash_step (5381, 1315423911) s
      in PutHighUint32 (PutLowUint32 zero_leu64 djb_hash) js_hash)"

definition hmac :: "leu64 \<Rightarrow> leu64 \<Rightarrow> leu64" where
  "hmac x y =
     (let w = replicate 48 0;
          w = fst (leu64_Read x (take 8 w)) @ drop 8 w;
          w = take 8 w @ fst (leu64_Read y (drop 8 w));
          w = take 16 w @ go_copy (take 16 (drop 16 w)) 0 (take 16 w) @ drop 32 w;
          w = take 32 w @ go_copy (drop 32 w) 0 (take 16 w);
          sum = md5_Sum w;
          a = leu64_Write zero_leu64 (take 8 sum);
          b = leu64_Write zero_leu64 (drop 8 sum)
      in toLeu64 (Uint64 a XOR Uint64 b))"

section \<open>Lemmas\<close>

lemma toLeu64_put: "toLeu64 v = le_put 8 v"
  by (simp add: toLeu64_def PutUint64_def zero_leu64_def go_copy_all)

lemma wf_toLeu64 [simp]: "wf_leu64 (toLeu64 v)" "length (toLeu64 v) = 8"
  by (simp_all add: wf_leu64_def toLeu64_put)

lemma Uint64_toLeu64 [simp]: "Uint64 (toLeu64 v) = v"
  by (simp add: Uint64_def toLeu64_put le_get_put)

lemma toLeu64_Uint64 [simp]: "wf_leu64 l \<Longrightarrow> toLeu64 (Uint64 l) = l"
  using le_put_get [of l, where 'a = 64] by (simp add: Uint64_def toLeu64_put wf_leu64_def)

lemma toLeu64_inject: "toLeu64 v = toLeu64 w \<longleftrightarrow> v = w"
  by (metis Uint64_toLeu64)

lemma hash_halves:
  "hash s = le_put 4 (fst (foldl hash_step (5381, 1315423911) s))
            @ le_put 4 (snd (foldl hash_step (5381, 1315423911) s))"
  by (simp add: hash_def Let_def PutLowUint32_def PutHighUint32_def zero_leu64_def go_copy_fits
      split: prod.split)

lemma wf_hash [simp]: "wf_leu64 (hash s)" "length (hash s) = 8"
  by (simp_all add: wf_leu64_def hash_halves)

lemma wf_hmac [simp]: "wf_leu64 (hmac x y)" "length (hmac x y) = 8"
  by (simp_all add: hmac_def Let_def)

lemma xor_bytes:
  assumes "wf_leu64 a" "wf_leu64 b"
  shows "toLeu64 (Uint64 a XOR Uint64 b) = map2 (XOR) a b"
proof (rule nth_equalityI)
  fix i assume "i < length (toLeu64 (Uint64 a XOR Uint64 b))"
  then have i: "i < 8" by simp
  have "(toLeu64 (Uint64 a XOR Uint64 b)) ! i = ucast (drop_bit (8 * i) (le_get a XOR le_get b :: u64))"
    using i by (simp add: toLeu64_put le_put_def Uint64_def)
  also have "\<dots> = a ! i XOR b ! i"
  proof (rule bit_word_eqI)
    fix k assume "k < LENGTH(8)"
    then have k: "k < 8" by simp
    then have "8 * i + k < 64" using i by simp
    with k i assms show "bit (ucast (drop_bit (8 * i) (le_get a XOR le_get b :: u64)) :: byte) k
        \<longleftrightarrow> bit (a ! i XOR b ! i) k"
      by (simp add: bit_simps bit_le_get wf_leu64_def)
  qed
  finally show "(toLeu64 (Uint64 a XOR Uint64 b)) ! i = map2 (XOR) a b ! i"
    using i assms by (simp add: wf_leu64_def)
qed (use assms in \<open>simp add: wf_leu64_def\<close>)

lemma hmac_eq:
  assumes "wf_leu64 x" "wf_leu64 y"
  shows "hmac x y = map2 (XOR) (take 8 (md5_Sum (concat (replicate 3 (x @ y)))))
                               (drop 8 (md5_Sum (concat (replicate 3 (x @ y)))))"
proof -
  obtain z :: "byte list" where z: "replicate 48 0 = z" "length z = 48" by (metis length_replicate)
  have "hmac x y = toLeu64 (Uint64 (leu64_Write zero_leu64 (take 8 (md5_Sum (concat (replicate 3 (x @ y))))))
      XOR Uint64 (leu64_Write zero_leu64 (drop 8 (md5_Sum (concat (replicate 3 (x @ y)))))))"
    using assms unfolding hmac_def z(1) Let_def
    by (simp add: z(2) wf_leu64_def leu64_Read_def go_copy_fits go_copy_all numeral_3_eq_3)
  also have "\<dots> = map2 (XOR) (take 8 (md5_Sum (concat (replicate 3 (x @ y)))))
                             (drop 8 (md5_Sum (concat (replicate 3 (x @ y)))))"
    by (subst xor_bytes) (simp_all add: leu64_Write_def zero_leu64_def go_copy_all wf_leu64_def)
  finally show ?thesis .
qed

text \<open>The djb half is the polynomial hash with base 33, modulo \<open>2^32\<close>.\<close>

fun poly33 :: "byte list \<Rightarrow> nat" where
  "poly33 [] = 0"
| "poly33 (c # cs) = unat c * 33 ^ length cs + poly33 cs"

lemma djb_fold:
  "unat (fst (foldl hash_step (h, j) s)) = (unat h * 33 ^ length s + poly33 s) mod 2 ^ 32"
proof (induction s arbitrary: h j)
  case Nil
  show ?case using unat_bound [of h] by simp
next
  case (Cons c s)
  let ?h = "h + (push_bit 5 h + ucast c)"
  have "?h = 33 * h + ucast c" by (simp add: push_bit_eq_mult)
  then have h: "unat ?h = (33 * unat h + unat c) mod 2 ^ 32"
    using unat_bound [of c] by (simp add: unat_word_ariths mod_simps unsigned_ucast_eq take_bit_nat_eq_self)
  have "unat (fst (foldl hash_step (h, j) (c # s))) = (unat ?h * 33 ^ length s + poly33 s) mod 2 ^ 32"
    by (simp add: hash_step_def Let_def Cons.IH)
  also have "\<dots> = ((33 * unat h + unat c) * 33 ^ length s + poly33 s) mod 2 ^ 32"
    unfolding h by (metis mod_add_left_eq mod_mult_left_eq)
  finally show ?case by (simp add: algebra_simps)
qed

section \<open>Properties\<close>

text \<open>The checksum is computed over the 48 bytes \<open>x y x y x y\<close>: \<open>hmac\<close> is the MD5 sum of that
  block with its two halves combined by exclusive or, for all 8-byte arguments (the slice
  arithmetic on the work array loses nothing).\<close>

theorem hmac_block:
  assumes "wf_leu64 x" and "wf_leu64 y"
  shows "hmac x y = map2 (XOR) (take 8 (md5_Sum (x @ y @ x @ y @ x @ y)))
                               (drop 8 (md5_Sum (x @ y @ x @ y @ x @ y)))"
  using hmac_eq [OF assms] by (simp add: numeral_3_eq_3)

theorem hmac_block_witness:
  "hmac (toLeu64 7) (hash []) =
     map2 (XOR) (take 8 (md5_Sum (toLeu64 7 @ hash [] @ toLeu64 7 @ hash [] @ toLeu64 7 @ hash [])))
                (drop 8 (md5_Sum (toLeu64 7 @ hash [] @ toLeu64 7 @ hash [] @ toLeu64 7 @ hash [])))"
  by (rule hmac_block) simp_all

text \<open>The low half of \<open>hash\<close> is the polynomial hash \<open>5381 * 33^n + c_0 * 33^(n-1) + ... + c_(n-1)\<close>
  modulo \<open>2^32\<close>, for input of any length: the shift-and-add loop with 32-bit wrap-around
  computes it exactly.\<close>

theorem hash_low_half:
  "unat (le_get (take 4 (hash s)) :: u32) = (5381 * 33 ^ length s + poly33 s) mod 2 ^ 32"
proof -
  have "le_get (take 4 (hash s)) = fst (foldl hash_step (5381, 1315423911) s)"
    by (simp add: hash_halves le_get_put)
  then show ?thesis using djb_fold [of 5381 1315423911 s] by simp
qed

end
