(* ===== verification/Scp_Messages.thy ===== *)
theory Scp_Messages
  imports Scp_Hash
begin

text \<open>
  \<open>scp/common.go\<close> (status codes and error values) and \<open>scp/messages.go\<close> (the four handshake
  messages, their text format and the checksum of a reuse request).

  A message type is a record with the fields of the Go struct; \<open>marshal\<close> and \<open>unmarshal\<close> are
  functions between the record and the bytes on the wire. \<open>unmarshal\<close> starts from the zero value,
  as all callers do. The lemmas are the round trips, the dispatch of \<open>serverReq\<close> and the
  properties of the checksum.
\<close>

section \<open>Status codes and errors (common.go)\<close>

definition SCPStatusOK :: int where "SCPStatusOK = 200"
definition SCPStatusBadRequest :: int where "SCPStatusBadRequest = 400"
definition SCPStatusUnauthorized :: int where "SCPStatusUnauthorized = 401"
definition SCPStatusExpired :: int where "SCPStatusExpired = 403"
definition SCPStatusIDNotFound :: int where "SCPStatusIDNotFound = 404"
definition SCPStatusNotAcceptable :: int where "SCPStatusNotAcceptable = 406"
definition SCPStatusNetworkError :: int where "SCPStatusNetworkError = 501"

lemmas SCPStatus_defs = SCPStatusOK_def SCPStatusBadRequest_def SCPStatusUnauthorized_def
  SCPStatusExpired_def SCPStatusIDNotFound_def SCPStatusNotAcceptable_def SCPStatusNetworkError_def

definition ErrIllegalMsg :: goerr where "ErrIllegalMsg = ScpErr 400 ''illegal message''"
definition ErrUnauthorized :: goerr where "ErrUnauthorized = ScpErr 401 ''Unauthorized''"
definition ErrIndexExpired :: goerr where "ErrIndexExpired = ScpErr 403 ''Index Expired''"
definition ErrIDNotFound :: goerr where "ErrIDNotFound = ScpErr 404 ''ID Not Found''"
definition ErrNotAcceptable :: goerr where "ErrNotAcceptable = ScpErr 406 ''Not Acceptable''"

lemmas Err_defs = ErrIllegalMsg_def ErrUnauthorized_def ErrIndexExpired_def ErrIDNotFound_def
  ErrNotAcceptable_def

text \<open>\<open>Error()\<close> of \<open>*scp.Error\<close>.\<close>

definition scp_Error_string :: "int \<Rightarrow> string \<Rightarrow> string" where
  "scp_Error_string code desc = itoa code @ '' '' @ desc"

text \<open>\<open>None\<close> is the \<open>nil\<close> error.\<close>

definition newError :: "int \<Rightarrow> goerr option" where
  "newError code =
     (if code = SCPStatusOK then None
      else if code = SCPStatusUnauthorized then Some ErrUnauthorized
      else if code = SCPStatusExpired then Some ErrIndexExpired
      else if code = SCPStatusIDNotFound then Some ErrIDNotFound
      else if code = SCPStatusNotAcceptable then Some ErrNotAcceptable
      else Some (FmtErr (itoa code @ '' Unknown'')))"

section \<open>Messages (messages.go)\<close>

definition SCPFlagForbidForwardIP :: int where "SCPFlagForbidForwardIP = 1"

definition b64decodeLeu64 :: "string \<Rightarrow> leu64 res" where
  "b64decodeLeu64 src =
     (let n = DecodedLen (length src) in
      if n < 8 then Fail ErrIllegalMsg
      else bind_res (b64_decode src) (\<lambda>out.
        Ok (leu64_Write zero_leu64 (go_copy (replicate n 0) 0 out))))"

definition b64encodeLeu64 :: "leu64 \<Rightarrow> string" where
  "b64encodeLeu64 v = b64_encode v"

abbreviation nl :: string where
  "nl \<equiv> [CHR 0x0A]"

record newConnReq =
  nq_id :: int
  nq_key :: leu64
  nq_targetServer :: string
  nq_flag :: int

definition newConnReq_marshal :: "newConnReq \<Rightarrow> byte list" where
  "newConnReq_marshal r =
     str_bytes (itoa (nq_id r) @ nl @ b64encodeLeu64 (nq_key r) @ nl @ nq_targetServer r @ nl @ itoa (nq_flag r))"

definition newConnReq_unmarshal :: "byte list \<Rightarrow> newConnReq res" where
  "newConnReq_unmarshal s =
     (let lines = split_nl (bytes_str s) in
      if length lines < 2 then Fail ErrIllegalMsg
      else bind_res (Atoi (lines ! 0)) (\<lambda>i.
           bind_res (b64decodeLeu64 (lines ! 1)) (\<lambda>k.
           let r = \<lparr>nq_id = i, nq_key = k,
                    nq_targetServer = (if 3 \<le> length lines then lines ! 2 else []), nq_flag = 0\<rparr>
           in if 4 \<le> length lines
              then bind_res (Atoi (lines ! 3)) (\<lambda>f. Ok (r\<lparr>nq_flag := f\<rparr>)) else Ok r)))"

record newConnResp =
  np_id :: int
  np_key :: leu64

definition newConnResp_marshal :: "newConnResp \<Rightarrow> byte list" where
  "newConnResp_marshal r = str_bytes (itoa (np_id r) @ nl @ b64encodeLeu64 (np_key r))"

definition newConnResp_unmarshal :: "byte list \<Rightarrow> newConnResp res" where
  "newConnResp_unmarshal s =
     (let lines = split_nl (bytes_str s) in
      if length lines < 2 then Fail ErrIllegalMsg
      else bind_res (Atoi (lines ! 0)) (\<lambda>i.
           bind_res (b64decodeLeu64 (lines ! 1)) (\<lambda>k. Ok \<lparr>np_id = i, np_key = k\<rparr>)))"

record reuseConnReq =
  rq_id :: int
  rq_handshakes :: int
  rq_received :: u32
  rq_sum :: leu64

definition reuse_content :: "reuseConnReq \<Rightarrow> string" where
  "reuse_content r = itoa (rq_id r) @ nl @ itoa (rq_handshakes r) @ nl @ itoa (uint (rq_received r)) @ nl"

definition verifySum :: "reuseConnReq \<Rightarrow> leu64 \<Rightarrow> bool" where
  "verifySum r secret \<longleftrightarrow> rq_sum r = hmac (hash (str_bytes (reuse_content r))) secret"

definition setSum :: "reuseConnReq \<Rightarrow> leu64 \<Rightarrow> reuseConnReq" where
  "setSum r secret = r\<lparr>rq_sum := hmac (hash (str_bytes (reuse_content r))) secret\<rparr>"

definition reuseConnReq_marshal :: "reuseConnReq \<Rightarrow> byte list" where
  "reuseConnReq_marshal r =
     str_bytes (itoa (rq_id r) @ nl @ itoa (rq_handshakes r) @ nl @ itoa (uint (rq_received r)) @ nl
       @ b64encodeLeu64 (rq_sum r))"

definition reuseConnReq_unmarshal :: "byte list \<Rightarrow> reuseConnReq res" where
  "reuseConnReq_unmarshal s =
     (let lines = split_nl (bytes_str s) in
      if length lines < 4 then Fail ErrIllegalMsg
      else bind_res (Atoi (lines ! 0)) (\<lambda>i.
           bind_res (Atoi (lines ! 1)) (\<lambda>h.
           bind_res (ParseUint (lines ! 2) 32) (\<lambda>received.
           bind_res (b64decodeLeu64 (lines ! 3)) (\<lambda>sum.
             Ok \<lparr>rq_id = i, rq_handshakes = h, rq_received = word_of_nat received, rq_sum = sum\<rparr>)))))"

record reuseConnResp =
  rp_received :: u32
  rp_code :: int

definition reuseConnResp_marshal :: "reuseConnResp \<Rightarrow> byte list" where
  "reuseConnResp_marshal r = str_bytes (itoa (uint (rp_received r)) @ nl @ itoa (rp_code r))"

definition reuseConnResp_unmarshal :: "byte list \<Rightarrow> reuseConnResp res" where
  "reuseConnResp_unmarshal s =
     (let lines = split_nl (bytes_str s) in
      if length lines < 2 then Fail ErrIllegalMsg
      else bind_res (ParseUint (lines ! 0) 32) (\<lambda>received.
           bind_res (Atoi (lines ! 1)) (\<lambda>code.
             Ok \<lparr>rp_received = word_of_nat received, rp_code = code\<rparr>)))"

text \<open>\<open>serverReq\<close> holds one of the two requests.\<close>

datatype serverReq = NewReq newConnReq | ReuseReq reuseConnReq

definition serverReq_unmarshal :: "byte list \<Rightarrow> serverReq res" where
  "serverReq_unmarshal s =
     (if take 2 (bytes_str s) = ''0'' @ nl then map_res NewReq (newConnReq_unmarshal s)
      else map_res ReuseReq (reuseConnReq_unmarshal s))"

section \<open>Lemmas\<close>

definition int64 :: "int \<Rightarrow> bool" where
  "int64 i \<longleftrightarrow> - (2 ^ 63) \<le> i \<and> i < 2 ^ 63"

lemma Atoi_int64 [simp]: "int64 i \<Longrightarrow> Atoi (itoa i) = Ok i"
  by (simp add: int64_def Atoi_itoa)

lemma ParseUint_u32 [simp]: "ParseUint (itoa (uint (w :: u32))) 32 = Ok (unat w)"
proof -
  have "ParseUint (itoa (int (unat w))) 32 = Ok (unat w)"
    using unat_bound [of w] by (intro ParseUint_itoa) simp
  then show ?thesis by simp
qed

lemma b64decode_encode [simp]: "wf_leu64 v \<Longrightarrow> b64decodeLeu64 (b64encodeLeu64 v) = Ok v"
  by (simp add: b64decodeLeu64_def b64encodeLeu64_def b64_decode_encode length_b64_encode DecodedLen_def
      wf_leu64_def leu64_Write_def zero_leu64_def go_copy_fits go_copy_trunc)

lemma b64decode_wf: "b64decodeLeu64 s = Ok v \<Longrightarrow> wf_leu64 v"
  by (auto simp: b64decodeLeu64_def Let_def bind_res_def wf_leu64_def leu64_Write_def zero_leu64_def
      split: if_splits res.splits)

lemma nl_not_in_b64 [simp]: "CHR 0x0A \<notin> set (b64encodeLeu64 v)"
  by (simp add: b64encodeLeu64_def)

lemmas unmarshal_simps = Let_def split_nl_line split_nl_no_nl

lemma newConnReq_roundtrip:
  assumes "int64 (nq_id r)" "wf_leu64 (nq_key r)" "CHR 0x0A \<notin> set (nq_targetServer r)" "int64 (nq_flag r)"
  shows "newConnReq_unmarshal (newConnReq_marshal r) = Ok r"
  using assms by (simp add: newConnReq_unmarshal_def newConnReq_marshal_def unmarshal_simps
      del: str_bytes_append)

lemma newConnResp_roundtrip:
  assumes "int64 (np_id r)" "wf_leu64 (np_key r)"
  shows "newConnResp_unmarshal (newConnResp_marshal r) = Ok r"
  using assms by (simp add: newConnResp_unmarshal_def newConnResp_marshal_def unmarshal_simps
      del: str_bytes_append)

lemma reuseConnReq_roundtrip:
  assumes "int64 (rq_id r)" "int64 (rq_handshakes r)" "wf_leu64 (rq_sum r)"
  shows "reuseConnReq_unmarshal (reuseConnReq_marshal r) = Ok r"
  using assms by (simp add: reuseConnReq_unmarshal_def reuseConnReq_marshal_def unmarshal_simps
      del: str_bytes_append)

lemma reuseConnResp_roundtrip:
  assumes "int64 (rp_code r)"
  shows "reuseConnResp_unmarshal (reuseConnResp_marshal r) = Ok r"
  using assms by (simp add: reuseConnResp_unmarshal_def reuseConnResp_marshal_def unmarshal_simps
      del: str_bytes_append)

lemma itoa_0 [simp]: "itoa 0 = ''0''"
  by code_simp

lemma zero_line_iff:
  assumes "int64 i"
  shows "take 2 (itoa i @ nl @ t) = ''0'' @ nl \<longleftrightarrow> i = 0"
proof
  assume "take 2 (itoa i @ nl @ t) = ''0'' @ nl"
  then have "itoa i @ nl @ t = (''0'' @ nl) @ drop 2 (itoa i @ nl @ t)" by (metis append_take_drop_id)
  then have "itoa i @ nl @ t = ''0'' @ CHR 0x0A # drop 2 (itoa i @ nl @ t)" by simp
  moreover have "split_nl (itoa i @ nl @ t) = itoa i # split_nl t" by (simp add: split_nl_line)
  moreover have "split_nl (''0'' @ CHR 0x0A # u) = ''0'' # split_nl u" for u
    by (rule split_nl_line) simp
  ultimately have "itoa i # split_nl t = ''0'' # split_nl (drop 2 (itoa i @ nl @ t))" by metis
  then have "itoa i = itoa 0" by simp
  moreover have "int64 0" by (simp add: int64_def)
  ultimately have "Ok i = Ok 0" using assms Atoi_int64 by metis
  then show "i = 0" by simp
qed simp

lemma serverReq_new:
  assumes "nq_id r = 0"
  shows "serverReq_unmarshal (newConnReq_marshal r) = map_res NewReq (newConnReq_unmarshal (newConnReq_marshal r))"
  using assms by (simp add: serverReq_unmarshal_def newConnReq_marshal_def del: str_bytes_append)

lemma serverReq_reuse:
  assumes "int64 (rq_id r)" "rq_id r \<noteq> 0"
  shows "serverReq_unmarshal (reuseConnReq_marshal r) = map_res ReuseReq (reuseConnReq_unmarshal (reuseConnReq_marshal r))"
proof -
  have "bytes_str (reuseConnReq_marshal r) = itoa (rq_id r) @ nl @ (itoa (rq_handshakes r) @ nl
      @ itoa (uint (rq_received r)) @ nl @ b64encodeLeu64 (rq_sum r))"
    by (simp add: reuseConnReq_marshal_def del: str_bytes_append)
  then show ?thesis
    unfolding serverReq_unmarshal_def using zero_line_iff [OF assms(1)] assms(2) by (simp only: if_False)
qed

text \<open>No parser panics.\<close>

definition no_panic :: "'a res \<Rightarrow> bool" where
  "no_panic r \<longleftrightarrow> r \<noteq> Hang \<and> (\<forall>m. r \<noteq> Panic m)"

lemma no_panic_simps [simp]: "no_panic (Ok x)" "no_panic (Fail e)" "\<not> no_panic (Panic m)"
  "\<not> no_panic Hang"
  by (simp_all add: no_panic_def)

lemma no_panic_bind: "no_panic r \<Longrightarrow> (\<And>x. no_panic (k x)) \<Longrightarrow> no_panic (bind_res r k)"
  by (cases r) simp_all

lemma no_panic_map [simp]: "no_panic (map_res f r) \<longleftrightarrow> no_panic r"
  by (cases r) (simp_all add: map_res_def)

lemma no_panic_parse_digits [simp]: "no_panic (parse_digits m n s)"
  by (induction m n s rule: parse_digits.induct) (simp_all add: Let_def)

lemma no_panic_ParseUint [simp]: "no_panic (ParseUint s b)"
  by (simp add: ParseUint_def)

lemma no_panic_Atoi [simp]: "no_panic (Atoi s)"
  by (auto simp: Atoi_def Let_def intro!: no_panic_bind)

lemma no_panic_b64_decode_from [simp]: "no_panic (b64_decode_from vs s)"
  by (induction vs s rule: b64_decode_from.induct)
    (auto simp: b64_finish_def split: option.split list.split)

lemma no_panic_b64decode [simp]: "no_panic (b64decodeLeu64 s)"
  by (auto simp: b64decodeLeu64_def b64_decode_def Let_def intro!: no_panic_bind)

lemma no_panic_unmarshal [simp]:
  "no_panic (newConnReq_unmarshal s)" "no_panic (newConnResp_unmarshal s)"
  "no_panic (reuseConnReq_unmarshal s)" "no_panic (reuseConnResp_unmarshal s)"
  "no_panic (serverReq_unmarshal s)"
  by (auto simp: newConnReq_unmarshal_def newConnResp_unmarshal_def reuseConnReq_unmarshal_def
      reuseConnResp_unmarshal_def serverReq_unmarshal_def Let_def intro!: no_panic_bind)

lemma reuse_content_setSum [simp]: "reuse_content (setSum r secret) = reuse_content r"
  by (simp add: reuse_content_def setSum_def)

lemma verifySum_setSum [simp]: "verifySum (setSum r secret) secret"
  by (simp add: verifySum_def) (simp add: setSum_def)

lemma setSum_fields [simp]:
  "rq_id (setSum r secret) = rq_id r" "rq_handshakes (setSum r secret) = rq_handshakes r"
  "rq_received (setSum r secret) = rq_received r" "wf_leu64 (rq_sum (setSum r secret))"
  by (simp_all add: setSum_def)

lemma newError_None: "newError c = None \<longleftrightarrow> c = 200"
  by (simp add: newError_def SCPStatus_defs)

lemma newError_200 [simp]: "newError 200 = None"
  by (simp add: newError_None)

section \<open>Properties\<close>

text \<open>C28. Every handshake message survives the wire: parsing the marshalled form gives back the
  message, for the four message types, whenever the integers fit Go's \<open>int\<close>, the keys are 8 bytes
  and the target server name has no newline; and \<open>serverReq\<close> recognises a request for a new
  connection (id 0) and a reuse request (any other id) as what they are.\<close>

theorem messages_roundtrip:
  assumes "nq_id nq = 0" "wf_leu64 (nq_key nq)" "CHR 0x0A \<notin> set (nq_targetServer nq)" "int64 (nq_flag nq)"
    and "int64 (np_id np)" "wf_leu64 (np_key np)"
    and "int64 (rq_id rq)" "rq_id rq \<noteq> 0" "int64 (rq_handshakes rq)" "wf_leu64 (rq_sum rq)"
    and "int64 (rp_code rp)"
  shows "serverReq_unmarshal (newConnReq_marshal nq) = Ok (NewReq nq) \<and>
    newConnResp_unmarshal (newConnResp_marshal np) = Ok np \<and>
    serverReq_unmarshal (reuseConnReq_marshal rq) = Ok (ReuseReq rq) \<and>
    reuseConnResp_unmarshal (reuseConnResp_marshal rp) = Ok rp"
  using assms
  by (simp add: serverReq_new serverReq_reuse newConnReq_roundtrip newConnResp_roundtrip
      reuseConnReq_roundtrip reuseConnResp_roundtrip int64_def)

theorem messages_roundtrip_witness:
  "serverReq_unmarshal (newConnReq_marshal \<lparr>nq_id = 0, nq_key = toLeu64 9, nq_targetServer = ''test1'', nq_flag = 1\<rparr>)
     = Ok (NewReq \<lparr>nq_id = 0, nq_key = toLeu64 9, nq_targetServer = ''test1'', nq_flag = 1\<rparr>) \<and>
   newConnResp_unmarshal (newConnResp_marshal \<lparr>np_id = 5, np_key = toLeu64 4\<rparr>) = Ok \<lparr>np_id = 5, np_key = toLeu64 4\<rparr> \<and>
   serverReq_unmarshal (reuseConnReq_marshal \<lparr>rq_id = 5, rq_handshakes = 1, rq_received = 77, rq_sum = toLeu64 3\<rparr>)
     = Ok (ReuseReq \<lparr>rq_id = 5, rq_handshakes = 1, rq_received = 77, rq_sum = toLeu64 3\<rparr>) \<and>
   reuseConnResp_unmarshal (reuseConnResp_marshal \<lparr>rp_received = 12, rp_code = 200\<rparr>) = Ok \<lparr>rp_received = 12, rp_code = 200\<rparr>"
  by (rule messages_roundtrip) (simp_all add: int64_def)



text \<open>A reuse request is authenticated by its checksum: what \<open>setSum\<close> writes, \<open>verifySum\<close>
  accepts after the trip over the wire, and a request whose three lines have the same hash but
  whose checksum differs in any byte is refused, whatever the secret.\<close>

theorem checksum_accepts_exactly:
  assumes "int64 (rq_id r)" "rq_id r \<noteq> 0" "int64 (rq_handshakes r)"
  shows "\<exists>r'. serverReq_unmarshal (reuseConnReq_marshal (setSum r secret)) = Ok (ReuseReq r') \<and>
      verifySum r' secret \<and>
      (\<forall>sum. verifySum (r'\<lparr>rq_sum := sum\<rparr>) secret \<longleftrightarrow> sum = rq_sum r')"
  using assms
  by (simp add: serverReq_reuse reuseConnReq_roundtrip) (simp add: verifySum_def setSum_def reuse_content_def)

theorem checksum_accepts_exactly_witness:
  "\<exists>r'. serverReq_unmarshal (reuseConnReq_marshal
        (setSum \<lparr>rq_id = 5, rq_handshakes = 1, rq_received = 77, rq_sum = []\<rparr> (toLeu64 3))) = Ok (ReuseReq r') \<and>
      verifySum r' (toLeu64 3) \<and>
      (\<forall>sum. verifySum (r'\<lparr>rq_sum := sum\<rparr>) (toLeu64 3) \<longleftrightarrow> sum = rq_sum r')"
  by (rule checksum_accepts_exactly) (simp_all add: int64_def)

text \<open>The reply of \<open>protocol.md\<close> is not the reply of the code: the document gives the second line
  as \<open>CODE msg\<close> (for example \<open>200 OK\<close>), the parser takes the whole line as a number and refuses it.\<close>

theorem documented_reply_refused:
  "reuseConnResp_unmarshal (str_bytes (''0'' @ nl @ ''200 OK'')) = Fail ErrSyntax \<and>
   reuseConnResp_unmarshal (str_bytes (''0'' @ nl @ ''200'')) = Ok \<lparr>rp_received = 0, rp_code = 200\<rparr>"
  by (simp add: reuseConnResp_unmarshal_def Let_def Atoi_def ParseUint_def del: str_bytes_append)

end
