(* ===== verification/Loop_Buffer.thy ===== *)
theory Loop_Buffer
  imports Goscon_Prelude
begin

text \<open>
  \<open>scp/loopbuffer.go\<close>: the ring buffer that keeps the last bytes written to a connection, so that
  they can be sent again after a reconnect, and the pool such buffers come from.

  The abstraction of a buffer is \<open>contents\<close>, the bytes it holds in the order they were written.
  The interface \<open>retransmit_buffer\<close> says what a connection relies on: writing appends and keeps
  the last \<open>cap\<close> bytes, reading returns a suffix or fails when more is asked for than is held.
  Its lemma \<open>readLast_history\<close> is stated once, for the whole history of writes.
\<close>

section \<open>Definitions\<close>

text \<open>\<open>cap(b.buf)\<close> is \<open>length (buf b)\<close>: the slice is made with \<open>make([]byte, cap)\<close> and never resliced.\<close>

record loopBuffer =
  buf :: "byte list"
  off :: nat
  looped :: bool

definition lb_Len :: "loopBuffer \<Rightarrow> nat" where
  "lb_Len b = (if looped b then length (buf b) else off b)"

definition lb_Cap :: "loopBuffer \<Rightarrow> nat" where
  "lb_Cap b = length (buf b)"

definition lb_Write :: "loopBuffer \<Rightarrow> byte list \<Rightarrow> nat \<times> loopBuffer" where
  "lb_Write b p =
     (let n = length p; capacity = length (buf b) in
      if capacity \<le> n then
        (n, b\<lparr>buf := go_copy (buf b) 0 (drop (n - capacity) p), looped := True, off := 0\<rparr>)
      else let right = capacity - off b in
        if n < right then
          (n, b\<lparr>buf := go_copy (buf b) (off b) p, off := off b + n\<rparr>)
        else
          (n, b\<lparr>buf := go_copy (go_copy (buf b) (off b) (take right p)) 0 (drop right p),
                looped := True, off := n - right\<rparr>))"

text \<open>\<open>make([]byte, n)\<close> panics for a negative length; no caller passes one.\<close>

definition lb_ReadLastBytes :: "loopBuffer \<Rightarrow> int \<Rightarrow> byte list res" where
  "lb_ReadLastBytes b n =
     (if int (lb_Len b) < n then Fail ErrShortBuffer
      else if n < 0 then Panic ''makeslice: len out of range''
      else let k = nat n; out = replicate k 0 in
        if k \<le> off b then Ok (go_copy out 0 (take k (drop (off b - k) (buf b))))
        else let wrapped = k - off b;
                 out = go_copy out 0 (drop (length (buf b) - wrapped) (buf b))
             in Ok (go_copy out wrapped (take (off b) (buf b))))"

definition lb_Reset :: "loopBuffer \<Rightarrow> loopBuffer" where
  "lb_Reset b = b\<lparr>off := 0, looped := False\<rparr>"

text \<open>\<open>b.CopyTo(dst)\<close> returns the new \<open>dst\<close>.\<close>

definition lb_CopyTo :: "loopBuffer \<Rightarrow> loopBuffer \<Rightarrow> loopBuffer" where
  "lb_CopyTo b dst =
     (let d = (if length (buf dst) \<noteq> length (buf b) then replicate (length (buf b)) 0 else buf dst)
      in dst\<lparr>buf := go_copy d 0 (buf b), off := off b, looped := looped b\<rparr>)"

definition newLoopBuffer :: "nat \<Rightarrow> loopBuffer" where
  "newLoopBuffer cap = \<lparr>buf = replicate cap 0, off = 0, looped = False\<rparr>"

text \<open>The pool: the buffers \<open>Put\<close> has accepted, in the order \<open>sync.Pool\<close> will hand them out
  (any list, since the pool may drop and reorder). \<open>Get\<close> resets what it returns.\<close>

definition pool_Get :: "nat \<Rightarrow> loopBuffer list \<Rightarrow> loopBuffer \<times> loopBuffer list" where
  "pool_Get reuseBufferSize items =
     (case items of
        [] \<Rightarrow> (lb_Reset (newLoopBuffer reuseBufferSize), [])
      | b # bs \<Rightarrow> (lb_Reset b, bs))"

definition pool_Put :: "nat \<Rightarrow> loopBuffer \<Rightarrow> loopBuffer list \<Rightarrow> loopBuffer list" where
  "pool_Put reuseBufferSize v items = (if lb_Cap v \<noteq> reuseBufferSize then items else v # items)"

section \<open>Abstraction and invariant\<close>

definition contents :: "loopBuffer \<Rightarrow> byte list" where
  "contents b = (if looped b then drop (off b) (buf b) @ take (off b) (buf b) else take (off b) (buf b))"

definition wf_lb :: "loopBuffer \<Rightarrow> bool" where
  "wf_lb b \<longleftrightarrow> off b < length (buf b) \<or> (buf b = [] \<and> off b = 0)"

lemma wf_lb_off: "wf_lb b \<Longrightarrow> off b \<le> length (buf b)"
  by (auto simp: wf_lb_def)

lemma length_contents: "wf_lb b \<Longrightarrow> length (contents b) = lb_Len b"
  by (auto simp: contents_def lb_Len_def dest: wf_lb_off)

lemma lb_Len_le_Cap: "wf_lb b \<Longrightarrow> lb_Len b \<le> lb_Cap b"
  by (auto simp: lb_Len_def lb_Cap_def dest: wf_lb_off)

lemma lb_Write_n [simp]: "fst (lb_Write b p) = length p"
  by (simp add: lb_Write_def Let_def)

lemma lb_Write_Cap [simp]: "wf_lb b \<Longrightarrow> lb_Cap (snd (lb_Write b p)) = lb_Cap b"
  using wf_lb_off [of b] by (simp add: lb_Write_def Let_def lb_Cap_def)

lemma lb_Write_wf: "wf_lb b \<Longrightarrow> wf_lb (snd (lb_Write b p))"
  using wf_lb_off [of b] by (auto simp: lb_Write_def Let_def wf_lb_def)

lemma lb_Write_contents:
  assumes "wf_lb b"
  shows "contents (snd (lb_Write b p)) = last_n (lb_Cap b) (contents b @ p)"
proof -
  let ?c = "length (buf b)" and ?o = "off b" and ?n = "length p"
  note o = wf_lb_off [OF assms]
  consider "?c \<le> ?n" | "?n < ?c - ?o" | "?n < ?c" "?c - ?o \<le> ?n" by linarith
  then show ?thesis
  proof cases
    case 1
    then have "contents (snd (lb_Write b p)) = last_n ?c p"
      by (simp add: lb_Write_def Let_def contents_def go_copy_all last_n_def)
    then show ?thesis using 1 by (simp add: lb_Cap_def last_n_append)
  next
    case 2
    then have "?n < ?c" by simp
    with 2 have "buf (snd (lb_Write b p)) = take ?o (buf b) @ p @ drop (?o + ?n) (buf b)"
      and "off (snd (lb_Write b p)) = ?o + ?n" and "looped (snd (lb_Write b p)) = looped b"
      using o by (simp_all add: lb_Write_def Let_def go_copy_fits)
    then show ?thesis using 2 o
      by (simp add: contents_def lb_Cap_def last_n_append last_n_all) (simp add: last_n_def add.commute)
  next
    case 3
    let ?r = "?c - ?o"
    have "go_copy (buf b) ?o (take ?r p) = take ?o (buf b) @ take ?r p"
      using 3 o by (simp add: go_copy_fits min_def)
    moreover have "go_copy (take ?o (buf b) @ take ?r p) 0 (drop ?r p)
        = drop ?r p @ drop (?n - ?r) (take ?o (buf b)) @ take ?r p"
      using 3 o by (subst go_copy_fits) (simp_all add: min_def, linarith?)
    ultimately have "contents (snd (lb_Write b p)) = drop (?n - ?r) (take ?o (buf b)) @ p"
      using 3 o by (simp add: lb_Write_def Let_def contents_def)
    then show ?thesis using 3 o
      by (simp add: contents_def lb_Cap_def last_n_append last_n_all) (auto simp: last_n_def add.commute)
  qed
qed

lemma lb_ReadLastBytes_contents:
  assumes "wf_lb b" "0 \<le> n" "n \<le> int (lb_Len b)"
  shows "lb_ReadLastBytes b n = Ok (last_n (nat n) (contents b))"
proof -
  define k where "k = nat n"
  note o = wf_lb_off [OF assms(1)]
  have k: "k \<le> lb_Len b" using assms by (simp add: k_def)
  show ?thesis
  proof (cases "k \<le> off b")
    case True
    then have "go_copy (replicate k 0) 0 (take k (drop (off b - k) (buf b))) = last_n k (take (off b) (buf b))"
      using o by (simp add: go_copy_all last_n_def take_drop)
    then show ?thesis
      using True assms o by (simp add: lb_ReadLastBytes_def Let_def k_def [symmetric] contents_def last_n_append last_n_def)
  next
    case False
    then have l: "looped b" and kc: "k \<le> length (buf b)" using k by (auto simp: lb_Len_def split: if_splits)
    let ?w = "k - off b"
    have "go_copy (replicate k 0) 0 (drop (length (buf b) - ?w) (buf b))
        = drop (length (buf b) - ?w) (buf b) @ replicate (off b) 0"
      using False kc by (simp add: go_copy_fits)
    then have "lb_ReadLastBytes b n = Ok (drop (length (buf b) - ?w) (buf b) @ take (off b) (buf b))"
      using False kc assms o by (simp add: lb_ReadLastBytes_def Let_def k_def [symmetric] go_copy_fits)
    then show ?thesis using False l o kc
      by (simp add: contents_def last_n_append k_def [symmetric] last_n_all) (simp add: last_n_def)
  qed
qed

section \<open>The interface a connection relies on\<close>

locale retransmit_buffer =
  fixes new :: "nat \<Rightarrow> 'b"
    and reset :: "'b \<Rightarrow> 'b"
    and put :: "'b \<Rightarrow> byte list \<Rightarrow> 'b"
    and copyTo :: "'b \<Rightarrow> 'b \<Rightarrow> 'b"
    and readLast :: "'b \<Rightarrow> int \<Rightarrow> byte list res"
    and len :: "'b \<Rightarrow> nat"
    and cap :: "'b \<Rightarrow> nat"
    and held :: "'b \<Rightarrow> byte list"
    and invar :: "'b \<Rightarrow> bool"
  assumes new: "invar (new c)" "held (new c) = []" "cap (new c) = c"
    and reset: "invar b \<Longrightarrow> invar (reset b)" "held (reset b) = []" "cap (reset b) = cap b"
    and put: "invar b \<Longrightarrow> invar (put b p)"
      "invar b \<Longrightarrow> held (put b p) = last_n (cap b) (held b @ p)"
      "invar b \<Longrightarrow> cap (put b p) = cap b"
    and copyTo: "invar b \<Longrightarrow> invar (copyTo b d)" "held (copyTo b d) = held b" "cap (copyTo b d) = cap b"
    and readLast_ok: "invar b \<Longrightarrow> 0 \<le> n \<Longrightarrow> n \<le> int (len b) \<Longrightarrow> readLast b n = Ok (last_n (nat n) (held b))"
    and readLast_short: "int (len b) < n \<Longrightarrow> readLast b n = Fail ErrShortBuffer"
    and len: "invar b \<Longrightarrow> len b = length (held b)"
begin

text \<open>\<open>tracks b h\<close>: the buffer holds the end of the history \<open>h\<close>.\<close>

definition tracks :: "'b \<Rightarrow> byte list \<Rightarrow> bool" where
  "tracks b h \<longleftrightarrow> invar b \<and> held b = last_n (cap b) h"

lemma tracks_new: "tracks (new c) []"
  by (simp add: tracks_def new)

lemma tracks_reset: "invar b \<Longrightarrow> tracks (reset b) []"
  by (simp add: tracks_def reset)

lemma tracks_copy: "tracks b h \<Longrightarrow> tracks (copyTo b d) h"
  by (simp add: tracks_def copyTo)

lemma tracks_write: "tracks b h \<Longrightarrow> tracks (put b p) (h @ p)"
proof -
  assume t: "tracks b h"
  have "last_n (cap b) (last_n (cap b) h @ p) = last_n (cap b) (h @ p)"
    by (simp add: last_n_append last_n_last_n)
  with t show ?thesis by (simp add: tracks_def put)
qed

lemma tracks_len: "tracks b h \<Longrightarrow> len b = min (cap b) (length h)"
  by (simp add: tracks_def len)

lemma tracks_read:
  assumes "tracks b h" "0 \<le> n" "n \<le> int (len b)"
  shows "readLast b n = Ok (last_n (nat n) h)"
proof -
  have "nat n \<le> cap b" using assms tracks_len [OF assms(1)] by simp
  with assms show ?thesis by (simp add: tracks_def readLast_ok last_n_last_n min_absorb1)
qed

lemma tracks_writes: "tracks b h \<Longrightarrow> tracks (foldl put b ps) (h @ concat ps)"
  by (induction ps arbitrary: b h) (simp, simp add: tracks_write flip: append_assoc)

lemma cap_writes: "invar b \<Longrightarrow> cap (foldl put b ps) = cap b"
  by (induction ps arbitrary: b) (simp_all add: put)

lemma readLast_history:
  assumes "0 \<le> n"
  shows "readLast (foldl put (new c) ps) n =
     (if n \<le> int (min c (length (concat ps))) then Ok (last_n (nat n) (concat ps))
      else Fail ErrShortBuffer)"
proof -
  let ?b = "foldl put (new c) ps"
  have t: "tracks ?b (concat ps)" using tracks_writes [OF tracks_new] by simp
  have "len ?b = min c (length (concat ps))"
    using tracks_len [OF t] by (simp add: cap_writes new)
  then show ?thesis using tracks_read [OF t assms] readLast_short [of ?b n] by auto
qed

end

subsection \<open>The loop buffer provides it\<close>

lemma newLoopBuffer_wf: "wf_lb (newLoopBuffer c)"
  by (cases c) (simp_all add: newLoopBuffer_def wf_lb_def)

lemma lb_Reset_wf: "wf_lb b \<Longrightarrow> wf_lb (lb_Reset b)"
  by (auto simp: lb_Reset_def wf_lb_def)

lemma lb_CopyTo_eq [simp]:
  "buf (lb_CopyTo b d) = buf b" "off (lb_CopyTo b d) = off b" "looped (lb_CopyTo b d) = looped b"
  by (simp_all add: lb_CopyTo_def Let_def go_copy_all)

lemma lb_CopyTo_wf: "wf_lb b \<Longrightarrow> wf_lb (lb_CopyTo b d)"
  by (simp add: wf_lb_def)

lemma lb_ReadLastBytes_short: "int (lb_Len b) < n \<Longrightarrow> lb_ReadLastBytes b n = Fail ErrShortBuffer"
  by (simp add: lb_ReadLastBytes_def)

interpretation lb: retransmit_buffer newLoopBuffer lb_Reset "\<lambda>b p. snd (lb_Write b p)"
  lb_CopyTo lb_ReadLastBytes lb_Len lb_Cap contents wf_lb
  by unfold_locales
    (simp_all add: newLoopBuffer_wf lb_Reset_wf lb_CopyTo_wf lb_Write_wf lb_Write_contents
      lb_ReadLastBytes_contents lb_ReadLastBytes_short length_contents,
     simp_all add: newLoopBuffer_def lb_Reset_def contents_def lb_Cap_def)

section \<open>Properties\<close>

text \<open>The ring buffer is a window on the stream. After any sequence of writes (each of any
  length, shorter or longer than the buffer) to a new buffer of capacity \<open>c\<close>, \<open>ReadLastBytes(n)\<close>
  returns the last \<open>n\<close> bytes of everything written when \<open>n\<close> is at most \<open>c\<close> and at most the
  number of bytes written, and \<open>io.ErrShortBuffer\<close> when it is more.\<close>

theorem loopBuffer_window:
  "0 \<le> n \<Longrightarrow>
   lb_ReadLastBytes (foldl (\<lambda>b p. snd (lb_Write b p)) (newLoopBuffer c) ps) n =
     (if n \<le> int (min c (length (concat ps))) then Ok (last_n (nat n) (concat ps))
      else Fail ErrShortBuffer)"
  by (rule lb.readLast_history)

theorem loopBuffer_window_witness:
  "lb_ReadLastBytes (foldl (\<lambda>b p. snd (lb_Write b p)) (newLoopBuffer 3) [[1, 2], [3, 4, 5, 6], [7]]) 3
     = Ok [5, 6, 7]"
  using loopBuffer_window [of 3 3 "[[1, 2], [3, 4, 5, 6], [7]]"]
  by (simp add: last_n_def numeral_eq_Suc)



end
