(* ===== verification/Net_Conn.thy ===== *)
theory Net_Conn
  imports Go_Std
begin

text \<open>
  The \<open>net.Conn\<close> a connection runs on, as the sources see it: a stream of received bytes cut into
  pieces by the network, a stream of accepted bytes, and the errors the two directions end with.
  A state fixes what the network will do (which pieces arrive, how many bytes it still accepts,
  which errors it reports), and every theorem holds for all states, hence for everything the
  network may do. A read that fails returns no bytes, as \<open>net.TCPConn\<close> and \<open>kcp.UDPSession\<close> do.

  \<open>ReadFull\<close> is \<open>io.ReadFull\<close>; \<open>writeAll\<close> is a \<open>bufio.Writer\<close> filled with the given bytes and
  flushed (the pieces it cuts them into are written in order until one fails, so the bytes
  accepted are the same as for one write).
\<close>

section \<open>Definitions\<close>

record netconn =
  nc_rx :: "byte list list"
  nc_rx_err :: goerr
  nc_tx :: "byte list"
  nc_room :: "nat option"
  nc_wr_err :: goerr
  nc_closed :: bool
  nc_close_err :: "goerr option"
  nc_deadline :: "int option"

definition errNetClosing :: goerr where
  "errNetClosing = ErrNet ''use of closed network connection''"

text \<open>Up to \<open>n\<close> bytes of the pieces, and the pieces that are left.\<close>

fun chunk_take :: "nat \<Rightarrow> byte list list \<Rightarrow> byte list \<times> byte list list" where
  "chunk_take n [] = ([], [])"
| "chunk_take n (x # xs) =
     (if n < length x then (take n x, drop n x # xs)
      else if n = length x then (x, xs)
      else (x @ fst (chunk_take (n - length x) xs), snd (chunk_take (n - length x) xs)))"

text \<open>One \<open>Read\<close> into a slice of \<open>n\<close> bytes returns at most one piece.\<close>

definition nc_Read :: "nat \<Rightarrow> netconn \<Rightarrow> byte list res \<times> netconn" where
  "nc_Read n c =
     (if nc_closed c then (Fail errNetClosing, c)
      else case nc_rx c of
        [] \<Rightarrow> (Fail (nc_rx_err c), c)
      | x # xs \<Rightarrow> (Ok (take n x), c\<lparr>nc_rx := (if n < length x then drop n x # xs else xs)\<rparr>))"

definition nc_ReadFull :: "nat \<Rightarrow> netconn \<Rightarrow> byte list res \<times> netconn" where
  "nc_ReadFull n c =
     (if n = 0 then (Ok [], c)
      else if nc_closed c then (Fail errNetClosing, c)
      else let got = fst (chunk_take n (nc_rx c)); c' = c\<lparr>nc_rx := snd (chunk_take n (nc_rx c))\<rparr> in
        if length got = n then (Ok got, c')
        else (Fail (if got \<noteq> [] \<and> nc_rx_err c = ErrEOF then ErrUnexpectedEOF else nc_rx_err c), c'))"

text \<open>\<open>Write\<close> returns the number of bytes accepted and the error.\<close>

definition nc_Write :: "byte list \<Rightarrow> netconn \<Rightarrow> (nat \<times> goerr option) \<times> netconn" where
  "nc_Write p c =
     (if nc_closed c then ((0, Some errNetClosing), c)
      else case nc_room c of
        None \<Rightarrow> ((length p, None), c\<lparr>nc_tx := nc_tx c @ p\<rparr>)
      | Some k \<Rightarrow>
          if length p \<le> k then ((length p, None), c\<lparr>nc_tx := nc_tx c @ p, nc_room := Some (k - length p)\<rparr>)
          else ((k, Some (nc_wr_err c)), c\<lparr>nc_tx := nc_tx c @ take k p, nc_room := Some 0\<rparr>))"

definition nc_writeAll :: "byte list \<Rightarrow> netconn \<Rightarrow> unit res \<times> netconn" where
  "nc_writeAll p c =
     (case nc_Write p c of ((n, None), c') \<Rightarrow> (Ok (), c') | ((n, Some e), c') \<Rightarrow> (Fail e, c'))"

definition nc_Close :: "netconn \<Rightarrow> goerr option \<times> netconn" where
  "nc_Close c = (if nc_closed c then (Some errNetClosing, c) else (nc_close_err c, c\<lparr>nc_closed := True\<rparr>))"

section \<open>Lemmas\<close>

lemma chunk_take_concat:
  "fst (chunk_take n xs) = take n (concat xs)" "concat (snd (chunk_take n xs)) = drop n (concat xs)"
  by (induction n xs rule: chunk_take.induct) auto

text \<open>A connection that is open and accepts everything.\<close>

definition nc_good :: "netconn \<Rightarrow> bool" where
  "nc_good c \<longleftrightarrow> \<not> nc_closed c \<and> nc_room c = None"

lemma nc_writeAll_good:
  "nc_good c \<Longrightarrow> nc_writeAll p c = (Ok (), c\<lparr>nc_tx := nc_tx c @ p\<rparr>)"
  by (simp add: nc_good_def nc_writeAll_def nc_Write_def)

lemma nc_ReadFull_ok:
  assumes "\<not> nc_closed c" "n \<le> length (concat (nc_rx c))"
  obtains c' where "nc_ReadFull n c = (Ok (take n (concat (nc_rx c))), c')"
    "concat (nc_rx c') = drop n (concat (nc_rx c))"
    "\<exists>xs. c' = c\<lparr>nc_rx := xs\<rparr>"
proof (cases "n = 0")
  case True
  then show thesis using that [of c] by (simp add: nc_ReadFull_def) (metis netconn.surjective netconn.update_convs(1))
next
  case False
  have "length (fst (chunk_take n (nc_rx c))) = n" using assms(2) by (simp add: chunk_take_concat)
  with False assms(1) have "nc_ReadFull n c =
      (Ok (take n (concat (nc_rx c))), c\<lparr>nc_rx := snd (chunk_take n (nc_rx c))\<rparr>)"
    by (simp add: nc_ReadFull_def Let_def chunk_take_concat)
  then show thesis using that by (simp add: chunk_take_concat) blast
qed

text \<open>Whatever happens, a write delivers a prefix, and all of it when it reports no error.\<close>

lemma nc_Write_prefix:
  assumes "nc_Write p c = ((n, e), c')"
  shows "\<exists>k \<le> length p. nc_tx c' = nc_tx c @ take k p \<and> n = k \<and> (e = None \<longrightarrow> k = length p)"
  using assms by (auto simp: nc_Write_def split: if_splits option.splits)

end
