(* ===== verification/Scp_Conn.thy ===== *)
theory Scp_Conn
  imports Dh64 Scp_Messages Loop_Buffer Net_Conn
begin

text \<open>
  \<open>scp/conn.go\<close> and \<open>scp/scp.go\<close>: a connection of the Stable Connection Protocol, the handshakes
  of both ends, and reading and writing through the cipher and the retransmit buffer.

  Objects that the code reaches through pointers live in the record \<open>world\<close>: the network
  connections, the RC4 states, the ring buffers and the \<open>Conn\<close> objects, each in a store indexed
  by addresses, together with the pool of buffers, the random numbers still to be drawn and the
  state of the server behind the interface \<open>SCPServer\<close>. Two pointers to the same object are the
  same address, so what the code shares is shared here. Addresses from \<open>w_next\<close> on are free.

  A method is a function that takes the address of its receiver and runs in the monad of the
  prelude. Mutexes make the methods of one object atomic; the interleavings the locks allow are
  the subject of later theories. Reading and writing time limits are the network's choice of an
  error; only the setting and clearing of the deadline is kept.
\<close>

section \<open>State\<close>

text \<open>The half connections (\<open>cipherConnReader\<close>, \<open>cipherConnWriter\<close>). \<open>cw_wr\<close> is the
  \<open>io.MultiWriter\<close> over the ring buffer and the network connection.\<close>

record cipherConnReader =
  cr_rd :: "nat option"
  cr_cipher :: nat
  cr_count :: int

record cipherConnWriter =
  cw_wr :: "(nat \<times> nat) option"
  cw_cipher :: nat
  cw_count :: int

record Config =
  cf_Flag :: int
  cf_TargetServer :: string
  cf_ConnForReused :: "nat option"
  cf_ScpServer :: bool

record Conn =
  c_conn :: nat
  c_config :: Config
  c_connErr :: "goerr option"
  c_handshaked :: bool
  c_frozen :: bool
  c_in :: "cipherConnReader option"
  c_out :: "cipherConnWriter option"
  c_id :: int
  c_handshakes :: int
  c_secret :: leu64
  c_reuseBuffer :: "nat option"
  c_reused :: bool
  c_resend :: int

record 'srv world =
  w_nets :: "nat \<Rightarrow> netconn"
  w_ciphers :: "nat \<Rightarrow> rc4"
  w_bufs :: "nat \<Rightarrow> loopBuffer"
  w_conns :: "nat \<Rightarrow> Conn"
  w_pool :: "nat list"
  w_next :: nat
  w_rand :: "nat \<Rightarrow> u64"
  w_rpos :: nat
  w_server :: 'srv
  w_ReuseBufferSize :: nat
  w_HandshakeTimeout :: int
  w_now :: int

text \<open>The interface \<open>scp.SCPServer\<close>: its three methods over the server's state.\<close>

record 'srv SCPServer_ops =
  op_AcquireID :: "'srv \<Rightarrow> int \<times> 'srv"
  op_ReleaseID :: "'srv \<Rightarrow> int \<Rightarrow> 'srv res"
  op_QueryByID :: "'srv \<Rightarrow> int \<Rightarrow> nat option"

subsection \<open>Access to the stores\<close>

definition conn_of :: "nat \<Rightarrow> ('srv world, Conn) M" where
  "conn_of c = getM (\<lambda>w. w_conns w c)"

definition upd_conn :: "nat \<Rightarrow> (Conn \<Rightarrow> Conn) \<Rightarrow> ('srv world, unit) M" where
  "upd_conn c f = modM (\<lambda>w. w\<lparr>w_conns := (w_conns w)(c := f (w_conns w c))\<rparr>)"

text \<open>An operation of a network connection, with its result.\<close>

definition on_net :: "nat \<Rightarrow> (netconn \<Rightarrow> 'a \<times> netconn) \<Rightarrow> ('srv world, 'a) M" where
  "on_net n f = (\<lambda>w. (Ok (fst (f (w_nets w n))), w\<lparr>w_nets := (w_nets w)(n := snd (f (w_nets w n)))\<rparr>))"

definition on_net_res :: "nat \<Rightarrow> (netconn \<Rightarrow> 'a res \<times> netconn) \<Rightarrow> ('srv world, 'a) M" where
  "on_net_res n f = bindM (on_net n f) liftM"

text \<open>A nil pointer dereference.\<close>

definition deref :: "'a option \<Rightarrow> ('s, 'a) M" where
  "deref r = (case r of None \<Rightarrow> panicM ''invalid memory address or nil pointer dereference'' | Some x \<Rightarrow> retM x)"

section \<open>Half connections\<close>

definition genRC4Key :: "leu64 \<Rightarrow> leu64 \<Rightarrow> byte list \<Rightarrow> byte list" where
  "genRC4Key v1 v2 key = go_copy key 0 (hmac v1 v2)"

text \<open>The 32 bytes both constructors fill.\<close>

definition rc4_key :: "leu64 \<Rightarrow> byte list" where
  "rc4_key secret =
     genRC4Key secret (toLeu64 0) (replicate 8 0) @ genRC4Key secret (toLeu64 1) (replicate 8 0) @
     genRC4Key secret (toLeu64 2) (replicate 8 0) @ genRC4Key secret (toLeu64 3) (replicate 8 0)"

definition alloc_cipher :: "rc4 \<Rightarrow> ('srv world, nat) M" where
  "alloc_cipher k =
     (\<lambda>w. (Ok (w_next w), w\<lparr>w_ciphers := (w_ciphers w)(w_next w := k), w_next := Suc (w_next w)\<rparr>))"

definition newCipherConnReader :: "leu64 \<Rightarrow> ('srv world, cipherConnReader) M" where
  "newCipherConnReader secret =
     bindM (alloc_cipher (rc4_NewCipher (rc4_key secret)))
       (\<lambda>k. retM \<lparr>cr_rd = None, cr_cipher = k, cr_count = 0\<rparr>)"

definition newCipherConnWriter :: "leu64 \<Rightarrow> ('srv world, cipherConnWriter) M" where
  "newCipherConnWriter secret =
     bindM (alloc_cipher (rc4_NewCipher (rc4_key secret)))
       (\<lambda>k. retM \<lparr>cw_wr = None, cw_cipher = k, cw_count = 0\<rparr>)"

text \<open>\<open>&(*in.cipher)\<close> is the pointer \<open>in.cipher\<close> itself: the copy shares the RC4 state.\<close>

definition deepCopyCipherConnReader :: "cipherConnReader \<Rightarrow> cipherConnReader" where
  "deepCopyCipherConnReader r = \<lparr>cr_rd = None, cr_cipher = cr_cipher r, cr_count = cr_count r\<rparr>"

definition deepCopyCipherConnWriter :: "cipherConnWriter \<Rightarrow> cipherConnWriter" where
  "deepCopyCipherConnWriter r = \<lparr>cw_wr = None, cw_cipher = cw_cipher r, cw_count = cw_count r\<rparr>"

definition SetReader :: "nat \<Rightarrow> cipherConnReader \<Rightarrow> cipherConnReader" where
  "SetReader rd r = r\<lparr>cr_rd := Some rd\<rparr>"

definition SetWriter :: "nat \<times> nat \<Rightarrow> cipherConnWriter \<Rightarrow> cipherConnWriter" where
  "SetWriter wr r = r\<lparr>cw_wr := Some wr\<rparr>"

definition GetBytesReceived :: "cipherConnReader \<Rightarrow> int" where
  "GetBytesReceived r = cr_count r"

definition GetBytesSent :: "cipherConnWriter \<Rightarrow> int" where
  "GetBytesSent r = cw_count r"

text \<open>\<open>XORKeyStream\<close> on the cipher at an address.\<close>

definition xor_key_stream :: "nat \<Rightarrow> byte list \<Rightarrow> ('srv world, byte list) M" where
  "xor_key_stream k p =
     (\<lambda>w. (Ok (fst (XORKeyStream (w_ciphers w k) p)),
           w\<lparr>w_ciphers := (w_ciphers w)(k := snd (XORKeyStream (w_ciphers w k) p))\<rparr>))"

text \<open>\<open>cipherConnReader.Read\<close> of the connection \<open>c\<close> into a slice of \<open>n\<close> bytes.\<close>

definition in_Read :: "nat \<Rightarrow> nat \<Rightarrow> ('srv world, byte list) M" where
  "in_Read c n =
     bindM (conn_of c) (\<lambda>cc. bindM (deref (c_in cc)) (\<lambda>r. bindM (deref (cr_rd r)) (\<lambda>rd.
     bindM (on_net_res rd (nc_Read n)) (\<lambda>p.
     bindM (xor_key_stream (cr_cipher r) p) (\<lambda>q.
     bindM (upd_conn c (\<lambda>cc. cc\<lparr>c_in := Some (r\<lparr>cr_count := cr_count r + int (length p)\<rparr>)\<rparr>)) (\<lambda>_.
     retM q))))))"

text \<open>\<open>io.MultiWriter(reuseBuffer, conn).Write\<close>: the ring buffer first, then the network.\<close>

definition multi_Write :: "nat \<times> nat \<Rightarrow> byte list \<Rightarrow> ('srv world, goerr option) M" where
  "multi_Write bn p =
     bindM (modM (\<lambda>w. w\<lparr>w_bufs := (w_bufs w)(fst bn := snd (lb_Write (w_bufs w (fst bn)) p))\<rparr>)) (\<lambda>_.
     bindM (on_net (snd bn) (nc_Write p)) (\<lambda>ne.
     retM (if snd ne \<noteq> None then snd ne else if fst ne \<noteq> length p then Some ErrShortWrite else None)))"

text \<open>\<open>cipherConnWriter.Write\<close>: the length is returned also when the network fails.\<close>

definition out_Write :: "nat \<Rightarrow> byte list \<Rightarrow> ('srv world, nat \<times> goerr option) M" where
  "out_Write c b =
     bindM (conn_of c) (\<lambda>cc. bindM (deref (c_out cc)) (\<lambda>r.
     let sz = length b in
     bindM (xor_key_stream (cw_cipher r) b) (\<lambda>space.
     bindM (upd_conn c (\<lambda>cc. cc\<lparr>c_out := Some (r\<lparr>cw_count := cw_count r + int sz\<rparr>)\<rparr>)) (\<lambda>_.
     bindM (deref (cw_wr r)) (\<lambda>wr.
     bindM (multi_Write wr space) (\<lambda>err.
     retM (sz, err)))))))"

section \<open>Connections\<close>

text \<open>\<open>defaultLoopBufferPool.Get\<close> and \<open>Put\<close> on addresses.\<close>

definition pool_get :: "('srv world, nat) M" where
  "pool_get = (\<lambda>w. case w_pool w of
     [] \<Rightarrow> (Ok (w_next w),
            w\<lparr>w_bufs := (w_bufs w)(w_next w := lb_Reset (newLoopBuffer (w_ReuseBufferSize w))),
              w_next := Suc (w_next w)\<rparr>)
   | b # bs \<Rightarrow> (Ok b, w\<lparr>w_bufs := (w_bufs w)(b := lb_Reset (w_bufs w b)), w_pool := bs\<rparr>))"

definition pool_put :: "nat \<Rightarrow> ('srv world, unit) M" where
  "pool_put b = modM (\<lambda>w.
     if lb_Cap (w_bufs w b) \<noteq> w_ReuseBufferSize w then w else w\<lparr>w_pool := b # w_pool w\<rparr>)"

definition setConnErr :: "goerr option \<Rightarrow> Conn \<Rightarrow> Conn" where
  "setConnErr err c = (if c_connErr c = None then c\<lparr>c_connErr := err\<rparr> else c)"

definition freeze :: "nat \<Rightarrow> ('srv world, unit) M" where
  "freeze c =
     bindM (conn_of c) (\<lambda>cc. if c_frozen cc then retM () else
     bindM (upd_conn c (\<lambda>cc. cc\<lparr>c_frozen := True\<rparr>)) (\<lambda>_.
     bindM (on_net (c_conn cc) nc_Close) (\<lambda>err.
     upd_conn c (setConnErr (if err = None then Some ErrClosedPipe else err)))))"

definition initNewConn :: "nat \<Rightarrow> int \<Rightarrow> leu64 \<Rightarrow> ('srv world, unit) M" where
  "initNewConn c i secret =
     bindM (upd_conn c (\<lambda>cc. cc\<lparr>c_id := i, c_secret := secret\<rparr>)) (\<lambda>_.
     bindM pool_get (\<lambda>b.
     bindM (upd_conn c (\<lambda>cc. cc\<lparr>c_reuseBuffer := Some b\<rparr>)) (\<lambda>_.
     bindM (newCipherConnReader secret) (\<lambda>r.
     bindM (newCipherConnWriter secret) (\<lambda>v.
     upd_conn c (\<lambda>cc. cc\<lparr>c_in := Some (SetReader (c_conn cc) r),
       c_out := Some (SetWriter (b, c_conn cc) v), c_reused := False\<rparr>))))))"

text \<open>\<open>c.spawn(new)\<close>.\<close>

definition spawn :: "nat \<Rightarrow> nat \<Rightarrow> ('srv world, bool) M" where
  "spawn c new =
     bindM (freeze c) (\<lambda>_.
     bindM (conn_of c) (\<lambda>cc. case c_reuseBuffer cc of None \<Rightarrow> retM False | Some old \<Rightarrow>
     bindM (deref (c_in cc)) (\<lambda>cin. bindM (deref (c_out cc)) (\<lambda>cout.
     bindM (upd_conn new (\<lambda>n. n\<lparr>c_id := c_id cc, c_secret := c_secret cc\<rparr>)) (\<lambda>_.
     bindM pool_get (\<lambda>b.
     bindM (modM (\<lambda>w. w\<lparr>w_bufs := (w_bufs w)(b := lb_CopyTo (w_bufs w old) (w_bufs w b))\<rparr>)) (\<lambda>_.
     bindM (upd_conn new (\<lambda>n. n\<lparr>c_reuseBuffer := Some b,
       c_in := Some (SetReader (c_conn n) (deepCopyCipherConnReader cin)),
       c_out := Some (SetWriter (b, c_conn n) (deepCopyCipherConnWriter cout)),
       c_reused := True\<rparr>)) (\<lambda>_.
     retM True))))))))"

text \<open>Records: two bytes of length, big-endian, then the message. \<open>uint16(len(data))\<close> wraps.\<close>

definition writeRecord :: "nat \<Rightarrow> byte list \<Rightarrow> ('srv world, unit) M" where
  "writeRecord c data =
     bindM (conn_of c) (\<lambda>cc.
     on_net_res (c_conn cc) (nc_writeAll (be_put16 (word_of_nat (length data)) @ data)))"

definition readRecord :: "nat \<Rightarrow> (byte list \<Rightarrow> 'a res) \<Rightarrow> ('srv world, 'a) M" where
  "readRecord c unmarshal =
     bindM (conn_of c) (\<lambda>cc.
     bindM (on_net_res (c_conn cc) (nc_ReadFull 2)) (\<lambda>h.
     let sz = be_get16 h in
     bindM (on_net_res (c_conn cc) (nc_ReadFull (unat sz))) (\<lambda>b.
     liftM (unmarshal b))))"

text \<open>The end of both reuse handshakes: the last \<open>diff\<close> bytes of the ring buffer are sent again.\<close>

definition retransmit :: "nat \<Rightarrow> int \<Rightarrow> ('srv world, unit) M" where
  "retransmit c diff =
     (if 0 < diff then
        bindM (conn_of c) (\<lambda>cc. bindM (deref (c_reuseBuffer cc)) (\<lambda>b.
        bindM (\<lambda>w. (lb_ReadLastBytes (w_bufs w b) diff, w)) (\<lambda>lastBytes.
        bindM (on_net_res (c_conn cc) (nc_writeAll lastBytes)) (\<lambda>_.
        upd_conn c (\<lambda>cc. cc\<lparr>c_resend := diff\<rparr>)))))
      else retM ())"

definition failErr :: "goerr option \<Rightarrow> ('s, unit) M" where
  "failErr e = (case e of None \<Rightarrow> retM () | Some e \<Rightarrow> failM e)"

definition clientReuseHandshake :: "nat \<Rightarrow> ('srv world, unit) M" where
  "clientReuseHandshake c =
     bindM (conn_of c) (\<lambda>cc. bindM (deref (c_in cc)) (\<lambda>cin. bindM (deref (c_out cc)) (\<lambda>cout.
     let rq = setSum \<lparr>rq_id = c_id cc, rq_handshakes = c_handshakes cc,
                      rq_received = word_of_int (GetBytesReceived cin), rq_sum = zero_leu64\<rparr> (c_secret cc) in
     bindM (writeRecord c (reuseConnReq_marshal rq)) (\<lambda>_.
     bindM (readRecord c reuseConnResp_unmarshal) (\<lambda>rp.
     bindM (failErr (newError (rp_code rp))) (\<lambda>_.
     bindM (deref (c_reuseBuffer cc)) (\<lambda>b.
     bindM (getM (\<lambda>w. lb_Len (w_bufs w b))) (\<lambda>len.
     let diff = GetBytesSent cout - uint (rp_received rp) in
     if diff < 0 \<or> int len < diff then failM ErrNotAcceptable
     else retransmit c diff))))))))"

text \<open>Drawing a private key.\<close>

definition draw_PrivateKey :: "('srv world, u64) M" where
  "draw_PrivateKey = (\<lambda>w. case PrivateKey (w_rand w) (w_rpos w) of
     None \<Rightarrow> (Hang, w) | Some (k, i) \<Rightarrow> (Ok k, w\<lparr>w_rpos := i\<rparr>))"

definition clientNewHandshake :: "nat \<Rightarrow> ('srv world, unit) M" where
  "clientNewHandshake c =
     bindM draw_PrivateKey (\<lambda>priKey.
     bindM (liftM (returns (PublicKey priKey))) (\<lambda>pubKey.
     bindM (conn_of c) (\<lambda>cc.
     bindM (writeRecord c (newConnReq_marshal \<lparr>nq_id = 0, nq_key = toLeu64 pubKey,
       nq_targetServer = cf_TargetServer (c_config cc), nq_flag = cf_Flag (c_config cc)\<rparr>)) (\<lambda>_.
     bindM (readRecord c newConnResp_unmarshal) (\<lambda>np.
     if np_id np = 0 then panicM ''np.id == 0'' else
     bindM (liftM (returns (Secret priKey (Uint64 (np_key np))))) (\<lambda>secret.
     initNewConn c (np_id np) (toLeu64 secret)))))))"

definition clientHandshake :: "nat \<Rightarrow> ('srv world, unit) M" where
  "clientHandshake c =
     bindM (conn_of c) (\<lambda>cc. if c_id cc \<noteq> 0 then clientReuseHandshake c else clientNewHandshake c)"

text \<open>The checks of \<open>serverReuseHandshake\<close> (the body of its loop, which always breaks): the reply and
  the number of bytes to send again.\<close>

definition serverReuse_check ::
    "'srv SCPServer_ops \<Rightarrow> nat \<Rightarrow> reuseConnReq \<Rightarrow> ('srv world, reuseConnResp \<times> int) M" where
  "serverReuse_check ops c rq =
     (let rp = \<lparr>rp_received = 0, rp_code = SCPStatusOK\<rparr> in
      bindM (getM (\<lambda>w. op_QueryByID ops (w_server w) (rq_id rq))) (\<lambda>oldConn.
      case oldConn of None \<Rightarrow> retM (rp\<lparr>rp_code := SCPStatusIDNotFound\<rparr>, 0) | Some old \<Rightarrow>
      bindM (conn_of old) (\<lambda>oc.
      if \<not> verifySum rq (c_secret oc) then retM (rp\<lparr>rp_code := SCPStatusUnauthorized\<rparr>, 0)
      else if rq_handshakes rq \<le> c_handshakes oc then retM (rp\<lparr>rp_code := SCPStatusExpired\<rparr>, 0)
      else bindM (upd_conn c (\<lambda>cc. cc\<lparr>c_handshakes := rq_handshakes rq\<rparr>)) (\<lambda>_.
      bindM (spawn old c) (\<lambda>ok.
      if \<not> ok then retM (rp\<lparr>rp_code := SCPStatusIDNotFound\<rparr>, 0)
      else bindM (conn_of c) (\<lambda>cc. bindM (deref (c_in cc)) (\<lambda>cin. bindM (deref (c_out cc)) (\<lambda>cout.
      bindM (deref (c_reuseBuffer cc)) (\<lambda>b.
      bindM (getM (\<lambda>w. lb_Len (w_bufs w b))) (\<lambda>len.
      let diff = GetBytesSent cout - uint (rq_received rq) in
      if diff < 0 \<or> int len < diff then retM (rp\<lparr>rp_code := SCPStatusNotAcceptable\<rparr>, diff)
      else retM (rp\<lparr>rp_received := word_of_int (GetBytesReceived cin)\<rparr>, diff)))))))))))"

definition serverReuseHandshake :: "'srv SCPServer_ops \<Rightarrow> nat \<Rightarrow> reuseConnReq \<Rightarrow> ('srv world, unit) M" where
  "serverReuseHandshake ops c rq =
     bindM (serverReuse_check ops c rq) (\<lambda>(rp, diff).
     bindM (writeRecord c (reuseConnResp_marshal rp)) (\<lambda>_.
     bindM (failErr (newError (rp_code rp))) (\<lambda>_.
     retransmit c diff)))"

definition AcquireID_srv :: "'srv SCPServer_ops \<Rightarrow> ('srv world, int) M" where
  "AcquireID_srv ops =
     (\<lambda>w. (Ok (fst (op_AcquireID ops (w_server w))), w\<lparr>w_server := snd (op_AcquireID ops (w_server w))\<rparr>))"

definition ReleaseID_srv :: "'srv SCPServer_ops \<Rightarrow> int \<Rightarrow> ('srv world, unit) M" where
  "ReleaseID_srv ops i =
     (\<lambda>w. case op_ReleaseID ops (w_server w) i of
        Ok s \<Rightarrow> (Ok (), w\<lparr>w_server := s\<rparr>) | Fail e \<Rightarrow> (Fail e, w) | Panic m \<Rightarrow> (Panic m, w) | Hang \<Rightarrow> (Hang, w))"

definition serverNewHandshake :: "'srv SCPServer_ops \<Rightarrow> nat \<Rightarrow> newConnReq \<Rightarrow> ('srv world, unit) M" where
  "serverNewHandshake ops c nq =
     bindM draw_PrivateKey (\<lambda>priKey.
     bindM (liftM (returns (PublicKey priKey))) (\<lambda>pubKey.
     bindM (AcquireID_srv ops) (\<lambda>i.
     bindM (tryM (writeRecord c (newConnResp_marshal \<lparr>np_id = i, np_key = toLeu64 pubKey\<rparr>))) (\<lambda>sent.
     case sent of
       Inl err \<Rightarrow> bindM (ReleaseID_srv ops i) (\<lambda>_. failM err)
     | Inr _ \<Rightarrow>
         bindM (liftM (returns (Secret priKey (Uint64 (nq_key nq))))) (\<lambda>secret.
         bindM (initNewConn c i (toLeu64 secret)) (\<lambda>_.
         upd_conn c (\<lambda>cc. cc\<lparr>c_config := (c_config cc)\<lparr>cf_TargetServer := nq_targetServer nq,
           cf_Flag := nq_flag nq\<rparr>\<rparr>)))))))"

definition serverHandshake :: "'srv SCPServer_ops \<Rightarrow> nat \<Rightarrow> ('srv world, unit) M" where
  "serverHandshake ops c =
     bindM (readRecord c serverReq_unmarshal) (\<lambda>sq. case sq of
       NewReq q \<Rightarrow> serverNewHandshake ops c q
     | ReuseReq q \<Rightarrow> serverReuseHandshake ops c q)"

definition IsServerConn :: "Conn \<Rightarrow> bool" where
  "IsServerConn c = cf_ScpServer (c_config c)"

definition set_deadline :: "nat \<Rightarrow> int option \<Rightarrow> 'srv world \<Rightarrow> 'srv world" where
  "set_deadline c d w =
     (let n = c_conn (w_conns w c) in w\<lparr>w_nets := (w_nets w)(n := (w_nets w n)\<lparr>nc_deadline := d\<rparr>)\<rparr>)"

text \<open>The part of \<open>Handshake\<close> under the mutex. The result is the error returned.\<close>

definition handshake_once :: "'srv SCPServer_ops \<Rightarrow> nat \<Rightarrow> ('srv world, goerr option) M" where
  "handshake_once ops c =
     bindM (conn_of c) (\<lambda>cc. if c_handshaked cc then retM (c_connErr cc) else
     bindM (tryM (if IsServerConn cc then serverHandshake ops c else clientHandshake c)) (\<lambda>r.
     let err = (case r of Inl e \<Rightarrow> Some e | Inr _ \<Rightarrow> None) in
     bindM (upd_conn c (\<lambda>cc. (setConnErr err cc)\<lparr>c_handshaked := True\<rparr>)) (\<lambda>_.
     retM err)))"

text \<open>The deferred \<open>SetDeadline(zeroTime)\<close> runs whatever the outcome.\<close>

definition Handshake :: "'srv SCPServer_ops \<Rightarrow> nat \<Rightarrow> ('srv world, goerr option) M" where
  "Handshake ops c =
     (\<lambda>w. if 0 < w_HandshakeTimeout w then
            (case handshake_once ops c (set_deadline c (Some (w_now w + w_HandshakeTimeout w)) w) of
               (r, w') \<Rightarrow> (r, set_deadline c None w'))
          else handshake_once ops c w)"

definition Conn_Write :: "'srv SCPServer_ops \<Rightarrow> nat \<Rightarrow> byte list \<Rightarrow> ('srv world, nat \<times> goerr option) M" where
  "Conn_Write ops c b =
     bindM (Handshake ops c) (\<lambda>err. case err of
       Some e \<Rightarrow> retM (0, Some e)
     | None \<Rightarrow> out_Write c b)"

text \<open>\<open>Read\<close> into a slice of \<open>n\<close> bytes: the bytes read and the error.\<close>

definition Conn_Read :: "'srv SCPServer_ops \<Rightarrow> nat \<Rightarrow> nat \<Rightarrow> ('srv world, byte list \<times> goerr option) M" where
  "Conn_Read ops c n =
     bindM (Handshake ops c) (\<lambda>err. case err of
       Some e \<Rightarrow> retM ([], Some e)
     | None \<Rightarrow>
         if n = 0 then retM ([], None)
         else bindM (tryM (in_Read c n)) (\<lambda>r. case r of Inl e \<Rightarrow> retM ([], Some e) | Inr p \<Rightarrow> retM (p, None)))"

definition Freeze :: "nat \<Rightarrow> ('srv world, unit) M" where
  "Freeze c = freeze c"

definition Conn_Close :: "nat \<Rightarrow> ('srv world, unit) M" where
  "Conn_Close c =
     bindM (freeze c) (\<lambda>_. bindM (conn_of c) (\<lambda>cc. case c_reuseBuffer cc of
       None \<Rightarrow> retM ()
     | Some b \<Rightarrow> bindM (pool_put b) (\<lambda>_. upd_conn c (\<lambda>cc. cc\<lparr>c_reuseBuffer := None\<rparr>))))"

definition ForbidForwardIP :: "Conn \<Rightarrow> bool" where
  "ForbidForwardIP c \<longleftrightarrow> 0 < and (cf_Flag (c_config c)) SCPFlagForbidForwardIP"

section \<open>Construction (scp.go)\<close>

definition Config_clone :: "Config \<Rightarrow> Config" where
  "Config_clone cf = \<lparr>cf_Flag = 0, cf_TargetServer = [], cf_ConnForReused = None, cf_ScpServer = cf_ScpServer cf\<rparr>"

definition defaultConfig :: Config where
  "defaultConfig = \<lparr>cf_Flag = 0, cf_TargetServer = [], cf_ConnForReused = None, cf_ScpServer = False\<rparr>"

definition zeroConn :: "nat \<Rightarrow> Config \<Rightarrow> Conn" where
  "zeroConn n cf = \<lparr>c_conn = n, c_config = cf, c_connErr = None, c_handshaked = False, c_frozen = False,
     c_in = None, c_out = None, c_id = 0, c_handshakes = 0, c_secret = zero_leu64, c_reuseBuffer = None,
     c_reused = False, c_resend = 0\<rparr>"

definition alloc_conn :: "Conn \<Rightarrow> ('srv world, nat) M" where
  "alloc_conn cc =
     (\<lambda>w. (Ok (w_next w), w\<lparr>w_conns := (w_conns w)(w_next w := cc), w_next := Suc (w_next w)\<rparr>))"

definition Server :: "nat \<Rightarrow> Config \<Rightarrow> ('srv world, nat) M" where
  "Server conn config =
     (if \<not> cf_ScpServer config then panicM ''config.ScpServer == nil''
      else alloc_conn (zeroConn conn (Config_clone config)))"

definition Client :: "nat \<Rightarrow> Config option \<Rightarrow> ('srv world, nat) M" where
  "Client conn config =
     (let cf = (case config of None \<Rightarrow> defaultConfig | Some cf \<Rightarrow> cf) in
      bindM (alloc_conn (zeroConn conn cf)) (\<lambda>c.
      case cf_ConnForReused cf of None \<Rightarrow> retM c | Some old \<Rightarrow>
      bindM (spawn old c) (\<lambda>ok. if \<not> ok then failM ErrNotAcceptable else
      bindM (conn_of old) (\<lambda>oc.
      bindM (upd_conn c (\<lambda>cc. cc\<lparr>c_handshakes := c_handshakes oc + 1\<rparr>)) (\<lambda>_.
      retM c)))))"

end
