(* ===== verification/Scp_Handshake.thy ===== *)
theory Scp_Handshake
  imports Scp_Conn
begin

text \<open>
  What the methods of \<open>scp/conn.go\<close> do, one lemma per method, and the correctness of the two
  handshakes. The central notion is \<open>sends w c h\<close>: the connection has encrypted and counted the
  ciphertext \<open>h\<close> since the session began, and its ring buffer holds the end of it. It survives
  writes, failed writes and the move to a new network connection, and it is what makes the
  resumed stream continue where the peer stopped.
\<close>

section \<open>Notions\<close>

text \<open>A message as it is framed on the wire.\<close>

definition frame :: "byte list \<Rightarrow> byte list" where
  "frame d = be_put16 (word_of_nat (length d)) @ d"

definition net_of :: "'srv world \<Rightarrow> nat \<Rightarrow> netconn" where
  "net_of w c = w_nets w (c_conn (w_conns w c))"

definition upd_net :: "nat \<Rightarrow> (netconn \<Rightarrow> netconn) \<Rightarrow> 'srv world \<Rightarrow> 'srv world" where
  "upd_net n f w = w\<lparr>w_nets := (w_nets w)(n := f (w_nets w n))\<rparr>"

text \<open>The outgoing half: \<open>h\<close> is the ciphertext of the session so far.\<close>

definition sends :: "'srv world \<Rightarrow> nat \<Rightarrow> byte list \<Rightarrow> bool" where
  "sends w c h \<longleftrightarrow> (\<exists>b v. c_reuseBuffer (w_conns w c) = Some b \<and> c_out (w_conns w c) = Some v \<and>
     cw_wr v = Some (b, c_conn (w_conns w c)) \<and> cw_count v = int (length h) \<and>
     wf_lb (w_bufs w b) \<and> contents (w_bufs w b) = last_n (lb_Cap (w_bufs w b)) h)"

text \<open>The incoming half: \<open>k\<close> bytes of ciphertext have been read.\<close>

definition receives :: "'srv world \<Rightarrow> nat \<Rightarrow> nat \<Rightarrow> bool" where
  "receives w c k \<longleftrightarrow> (\<exists>r. c_in (w_conns w c) = Some r \<and> cr_rd r = Some (c_conn (w_conns w c)) \<and>
     cr_count r = int k)"

text \<open>The capacity of the ring buffer, and the RC4 states of the two directions.\<close>

definition ring_cap :: "'srv world \<Rightarrow> nat \<Rightarrow> nat" where
  "ring_cap w c = (case c_reuseBuffer (w_conns w c) of None \<Rightarrow> 0 | Some b \<Rightarrow> lb_Cap (w_bufs w b))"

definition out_cipher :: "'srv world \<Rightarrow> nat \<Rightarrow> rc4" where
  "out_cipher w c = w_ciphers w (cw_cipher (the (c_out (w_conns w c))))"

definition in_cipher :: "'srv world \<Rightarrow> nat \<Rightarrow> rc4" where
  "in_cipher w c = w_ciphers w (cr_cipher (the (c_in (w_conns w c))))"

text \<open>Buffers in the pool and buffers in use are different, well formed, and below \<open>w_next\<close>.\<close>

definition wf_world :: "'srv world \<Rightarrow> bool" where
  "wf_world w \<longleftrightarrow> distinct (w_pool w) \<and>
     (\<forall>b \<in> set (w_pool w). b < w_next w \<and> wf_lb (w_bufs w b)) \<and>
     (\<forall>c b. c_reuseBuffer (w_conns w c) = Some b \<longrightarrow>
        b < w_next w \<and> b \<notin> set (w_pool w) \<and> wf_lb (w_bufs w b)) \<and>
     (\<forall>c c' b. c_reuseBuffer (w_conns w c) = Some b \<longrightarrow> c_reuseBuffer (w_conns w c') = Some b \<longrightarrow> c = c')"

section \<open>Steps\<close>

lemma conn_of_eq [monad_simps]: "conn_of c w = (Ok (w_conns w c), w)"
  by (simp add: conn_of_def monad_simps)

lemma upd_conn_eq [monad_simps]:
  "upd_conn c f w = (Ok (), w\<lparr>w_conns := (w_conns w)(c := f (w_conns w c))\<rparr>)"
  by (simp add: upd_conn_def monad_simps)

lemma deref_Some [monad_simps]: "deref (Some x) = retM x"
  by (simp add: deref_def)

lemma on_net_eq [monad_simps]:
  "on_net n f w = (Ok (fst (f (w_nets w n))), upd_net n (\<lambda>x. snd (f x)) w)"
  by (simp add: on_net_def upd_net_def)

lemma on_net_res_eq [monad_simps]:
  "on_net_res n f w = (fst (f (w_nets w n)), upd_net n (\<lambda>x. snd (f x)) w)"
  by (simp add: on_net_res_def monad_simps)

lemma upd_net_simps [simp]:
  "w_conns (upd_net n f w) = w_conns w" "w_bufs (upd_net n f w) = w_bufs w"
  "w_ciphers (upd_net n f w) = w_ciphers w" "w_pool (upd_net n f w) = w_pool w"
  "w_next (upd_net n f w) = w_next w" "w_server (upd_net n f w) = w_server w"
  "w_rand (upd_net n f w) = w_rand w" "w_rpos (upd_net n f w) = w_rpos w"
  "w_ReuseBufferSize (upd_net n f w) = w_ReuseBufferSize w"
  "w_nets (upd_net n f w) = (w_nets w)(n := f (w_nets w n))"
  by (simp_all add: upd_net_def)

lemma length_frame [simp]: "length (frame d) = 2 + length d"
  by (simp add: frame_def)

lemma writeRecord_ok:
  assumes "nc_good (net_of w c)"
  shows "writeRecord c d w = (Ok (), upd_net (c_conn (w_conns w c)) (\<lambda>x. snd (nc_writeAll (frame d) x)) w)"
proof -
  have "fst (nc_writeAll (frame d) (w_nets w (c_conn (w_conns w c)))) = Ok ()"
    using assms by (simp add: nc_writeAll_good net_of_def)
  then show ?thesis by (simp add: writeRecord_def monad_simps frame_def)
qed

lemma be_get16_frame: "length d < 65536 \<Longrightarrow> unat (be_get16 (take 2 (frame d @ rest))) = length d"
proof -
  assume "length d < 65536"
  moreover have "take 2 (frame d @ rest) = be_put16 (word_of_nat (length d))" by (simp add: frame_def be_put16_def)
  ultimately show ?thesis by (simp add: be_get_put16 unsigned_of_nat take_bit_nat_eq_self)
qed

lemma readRecord_ok:
  assumes "\<not> nc_closed (net_of w c)" and rx: "concat (nc_rx (net_of w c)) = frame d @ rest"
    and len: "length d < 65536"
  obtains xs where "readRecord c u w = (u d, upd_net (c_conn (w_conns w c)) (\<lambda>x. x\<lparr>nc_rx := xs\<rparr>) w)"
    "concat xs = rest"
proof -
  let ?n = "c_conn (w_conns w c)" and ?x = "net_of w c"
  have "2 \<le> length (concat (nc_rx ?x))" by (simp add: rx)
  then obtain y ys where y: "nc_ReadFull 2 ?x = (Ok (take 2 (concat (nc_rx ?x))), y)"
    "concat (nc_rx y) = drop 2 (concat (nc_rx ?x))" "y = ?x\<lparr>nc_rx := ys\<rparr>"
    using nc_ReadFull_ok [OF assms(1)] by metis
  have sz: "unat (be_get16 (take 2 (concat (nc_rx ?x)))) = length d"
    unfolding rx by (rule be_get16_frame [OF len])
  have "drop 2 (frame d) = d" by (simp add: frame_def be_put16_def)
  then have dy: "concat (nc_rx y) = d @ rest" using y(2) by (simp add: rx)
  then have "length d \<le> length (concat (nc_rx y))" by simp
  moreover have "\<not> nc_closed y" using assms(1) y(3) by simp
  ultimately obtain z zs where z: "nc_ReadFull (length d) y = (Ok (take (length d) (concat (nc_rx y))), z)"
    "concat (nc_rx z) = drop (length d) (concat (nc_rx y))" "z = y\<lparr>nc_rx := zs\<rparr>"
    using nc_ReadFull_ok by metis
  have 1: "on_net_res ?n (nc_ReadFull 2) w = (Ok (take 2 (concat (nc_rx ?x))), upd_net ?n (\<lambda>_. y) w)"
    using y(1) by (simp add: on_net_res_eq net_of_def upd_net_def)
  have 2: "on_net_res ?n (nc_ReadFull (length d)) (upd_net ?n (\<lambda>_. y) w) = (Ok d, upd_net ?n (\<lambda>_. z) w)"
    using z(1) dy by (simp add: on_net_res_eq upd_net_def)
  have "readRecord c u w = (u d, upd_net ?n (\<lambda>_. z) w)"
    by (simp add: readRecord_def Let_def bindM_app conn_of_eq 1 2 sz liftM_def)
  moreover have "upd_net ?n (\<lambda>_. z) w = upd_net ?n (\<lambda>x. x\<lparr>nc_rx := zs\<rparr>) w"
    using z(3) y(3) by (simp add: upd_net_def net_of_def)
  moreover have "concat zs = rest" using z(2,3) dy by simp
  ultimately show thesis using that by simp
qed

lemma freeze_run:
  obtains e nt where
    "freeze c w = (Ok (), w\<lparr>w_conns := (w_conns w)(c := (w_conns w c)\<lparr>c_frozen := True, c_connErr := e\<rparr>),
       w_nets := (w_nets w)(c_conn (w_conns w c) := nt)\<rparr>)"
    "c_frozen (w_conns w c) \<Longrightarrow> e = c_connErr (w_conns w c) \<and> nt = net_of w c"
    "\<not> c_frozen (w_conns w c) \<Longrightarrow> e \<noteq> None \<and> nt = snd (nc_Close (net_of w c))"
proof (cases "c_frozen (w_conns w c)")
  case True
  then have "freeze c w = (Ok (), w)" by (simp add: freeze_def monad_simps)
  moreover have "w_conns w c = (w_conns w c)\<lparr>c_frozen := True, c_connErr := c_connErr (w_conns w c)\<rparr>"
    using True by simp
  ultimately show thesis
    using True that [where e = "c_connErr (w_conns w c)" and nt = "net_of w c"]
    by (simp add: net_of_def fun_upd_idem)
next
  case False
  let ?x = "nc_Close (net_of w c)"
  let ?e = "if c_connErr (w_conns w c) = None then (if fst ?x = None then Some ErrClosedPipe else fst ?x)
            else c_connErr (w_conns w c)"
  have "freeze c w = (Ok (), w\<lparr>w_conns := (w_conns w)(c := (w_conns w c)\<lparr>c_frozen := True, c_connErr := ?e\<rparr>),
       w_nets := (w_nets w)(c_conn (w_conns w c) := snd ?x)\<rparr>)"
    using False by (simp add: freeze_def monad_simps setConnErr_def upd_net_def net_of_def)
  then show thesis using False that [where e = ?e and nt = "snd ?x"] by simp
qed

lemma pool_get_run:
  assumes "wf_world w"
  obtains b x ps k where
    "pool_get w = (Ok b, w\<lparr>w_bufs := (w_bufs w)(b := x), w_pool := ps, w_next := k\<rparr>)"
    "wf_lb x" "contents x = []" "b < k" "w_next w \<le> k" "b \<notin> set ps" "distinct ps" "set ps \<subseteq> set (w_pool w)"
    "\<And>c. c_reuseBuffer (w_conns w c) \<noteq> Some b"
proof (cases "w_pool w")
  case Nil
  show thesis
  proof (rule that)
    show "pool_get w = (Ok (w_next w), w\<lparr>w_bufs := (w_bufs w)(w_next w := lb_Reset (newLoopBuffer (w_ReuseBufferSize w))),
        w_pool := [], w_next := Suc (w_next w)\<rparr>)"
      using Nil by (simp add: pool_get_def)
    show "c_reuseBuffer (w_conns w c) \<noteq> Some (w_next w)" for c
      using assms by (fastforce simp: wf_world_def)
  qed (simp_all add: lb_Reset_wf newLoopBuffer_wf lb.reset)
next
  case (Cons b bs)
  show thesis
  proof (rule that)
    show "pool_get w = (Ok b, w\<lparr>w_bufs := (w_bufs w)(b := lb_Reset (w_bufs w b)), w_pool := bs, w_next := w_next w\<rparr>)"
      using Cons by (simp add: pool_get_def)
    show "c_reuseBuffer (w_conns w c) \<noteq> Some b" for c
      using assms Cons by (fastforce simp: wf_world_def)
  qed (use assms Cons in \<open>auto simp: wf_world_def lb_Reset_wf lb.reset\<close>)
qed

lemma lb_CopyTo_same: "lb_CopyTo b d = b"
  by (simp add: loopBuffer.equality)

text \<open>The state of the new connection after \<open>spawn\<close>.\<close>

definition spawned :: "Conn \<Rightarrow> cipherConnReader \<Rightarrow> cipherConnWriter \<Rightarrow> nat \<Rightarrow> Conn \<Rightarrow> Conn" where
  "spawned oc cin cout b n = n\<lparr>c_id := c_id oc, c_secret := c_secret oc, c_reuseBuffer := Some b,
     c_in := Some \<lparr>cr_rd = Some (c_conn n), cr_cipher = cr_cipher cin, cr_count = cr_count cin\<rparr>,
     c_out := Some \<lparr>cw_wr = Some (b, c_conn n), cw_cipher = cw_cipher cout, cw_count = cw_count cout\<rparr>,
     c_reused := True\<rparr>"

text \<open>\<open>wf_world\<close> is about the buffers only.\<close>

lemma wf_world_cong:
  assumes "wf_world w" "w_pool w' = w_pool w" "w_next w' = w_next w" "w_bufs w' = w_bufs w"
    "\<And>c. c_reuseBuffer (w_conns w' c) = c_reuseBuffer (w_conns w c)"
  shows "wf_world w'"
  using assms(1) unfolding wf_world_def assms(2-5) .

lemma spawn_run:
  assumes wf: "wf_world w" and ne: "c \<noteq> old"
    and oc: "c_reuseBuffer (w_conns w old) = Some ob" "c_in (w_conns w old) = Some cin" "c_out (w_conns w old) = Some cout"
  obtains w' b e nt where "spawn old c w = (Ok True, w')"
    "w_conns w' = (w_conns w)(old := (w_conns w old)\<lparr>c_frozen := True, c_connErr := e\<rparr>,
       c := spawned (w_conns w old) cin cout b (w_conns w c))"
    "w_nets w' = (w_nets w)(c_conn (w_conns w old) := nt)"
    "w_bufs w' b = w_bufs w ob"
    "w_ciphers w' = w_ciphers w" "w_server w' = w_server w" "b \<noteq> ob"
proof -
  obtain e nt where fz: "freeze old w = (Ok (), w\<lparr>w_conns := (w_conns w)(old := (w_conns w old)\<lparr>c_frozen := True, c_connErr := e\<rparr>),
       w_nets := (w_nets w)(c_conn (w_conns w old) := nt)\<rparr>)" (is "_ = (_, ?w1)")
    by (rule freeze_run)
  let ?f = "\<lambda>n. n\<lparr>c_id := c_id (w_conns w old), c_secret := c_secret (w_conns w old)\<rparr>"
  let ?w2 = "?w1\<lparr>w_conns := (w_conns ?w1)(c := ?f (w_conns ?w1 c))\<rparr>"
  have wf2: "wf_world ?w2" by (rule wf_world_cong [OF wf]) (use ne in auto)
  obtain b x ps k where pg: "pool_get ?w2 = (Ok b, ?w2\<lparr>w_bufs := (w_bufs ?w2)(b := x), w_pool := ps, w_next := k\<rparr>)"
    and fresh: "\<And>c. c_reuseBuffer (w_conns ?w2 c) \<noteq> Some b"
    using pool_get_run [OF wf2] by metis
  have bo: "b \<noteq> ob" using fresh [of old] oc(1) ne by auto
  let ?w3 = "?w2\<lparr>w_bufs := (w_bufs ?w2)(b := lb_CopyTo (w_bufs w ob) x), w_pool := ps, w_next := k\<rparr>"
  let ?w4 = "?w3\<lparr>w_conns := (w_conns ?w3)(c := spawned (w_conns w old) cin cout b (w_conns w c))\<rparr>"
  have "spawn old c w = (Ok True, ?w4)"
    using fz pg bo ne oc
    by (simp add: spawn_def monad_simps SetReader_def SetWriter_def deepCopyCipherConnReader_def
        deepCopyCipherConnWriter_def spawned_def fun_upd_twist)
  then show thesis
    by (rule that [where b = b and e = e and nt = nt])
      (use ne bo in \<open>simp_all add: fun_upd_twist lb_CopyTo_same\<close>)
qed

text \<open>The connection \<open>c\<close> has taken over the session of \<open>old\<close> as it was in \<open>w\<close>: same id, secret,
  cipher states, counters and retransmit data, on its own network connection.\<close>

definition took_over :: "'srv world \<Rightarrow> nat \<Rightarrow> 'srv world \<Rightarrow> nat \<Rightarrow> byte list \<Rightarrow> nat \<Rightarrow> bool" where
  "took_over w old w' c h k \<longleftrightarrow> sends w' c h \<and> receives w' c k \<and>
     c_id (w_conns w' c) = c_id (w_conns w old) \<and> c_secret (w_conns w' c) = c_secret (w_conns w old) \<and>
     c_conn (w_conns w' c) = c_conn (w_conns w c) \<and> c_reused (w_conns w' c) \<and>
     cw_cipher (the (c_out (w_conns w' c))) = cw_cipher (the (c_out (w_conns w old))) \<and>
     cr_cipher (the (c_in (w_conns w' c))) = cr_cipher (the (c_in (w_conns w old))) \<and>
     out_cipher w' c = out_cipher w old \<and> in_cipher w' c = in_cipher w old \<and>
     ring_cap w' c = ring_cap w old \<and> c_frozen (w_conns w' old)"

lemma sends_len:
  assumes "sends w c h" "c_reuseBuffer (w_conns w c) = Some b"
  shows "lb_Len (w_bufs w b) = min (ring_cap w c) (length h)"
  using assms by (auto simp: sends_def ring_cap_def lb.len)

lemma spawn_takes_over:
  assumes wf: "wf_world w" and ne: "c \<noteq> old" and s: "sends w old h" and r: "receives w old k"
  obtains w' where "spawn old c w = (Ok True, w')" "took_over w old w' c h k"
    "c_handshakes (w_conns w' c) = c_handshakes (w_conns w c)"
    "c_conn (w_conns w old) \<noteq> c_conn (w_conns w c) \<Longrightarrow> net_of w' c = net_of w c"
    "w_server w' = w_server w"
proof -
  obtain ob v where v: "c_reuseBuffer (w_conns w old) = Some ob" "c_out (w_conns w old) = Some v"
    "cw_count v = int (length h)" "wf_lb (w_bufs w ob)" "contents (w_bufs w ob) = last_n (lb_Cap (w_bufs w ob)) h"
    using s by (auto simp: sends_def)
  obtain u where u: "c_in (w_conns w old) = Some u" "cr_count u = int k" using r by (auto simp: receives_def)
  obtain w' b e nt where sp: "spawn old c w = (Ok True, w')"
    and cs: "w_conns w' = (w_conns w)(old := (w_conns w old)\<lparr>c_frozen := True, c_connErr := e\<rparr>,
       c := spawned (w_conns w old) u v b (w_conns w c))"
    and ns: "w_nets w' = (w_nets w)(c_conn (w_conns w old) := nt)"
    and bf: "w_bufs w' b = w_bufs w ob"
    and ci: "w_ciphers w' = w_ciphers w" and sv: "w_server w' = w_server w"
    using spawn_run [OF wf ne v(1) u(1) v(2)] by metis
  have "sends w' c h" using v bf by (simp add: sends_def cs spawned_def)
  moreover have "receives w' c k" using u by (simp add: receives_def cs spawned_def)
  ultimately have "took_over w old w' c h k"
    using u v ne bf ci
    by (simp add: took_over_def cs spawned_def out_cipher_def in_cipher_def ring_cap_def)
  then show thesis
    using that sp sv cs ns by (simp add: net_of_def spawned_def)
qed

text \<open>What sending adds to a world: bytes on the network of \<open>c\<close>, and \<open>c_resend\<close>.\<close>

definition sent_on :: "nat \<Rightarrow> byte list \<Rightarrow> int \<Rightarrow> 'srv world \<Rightarrow> 'srv world" where
  "sent_on c p d w = (upd_net (c_conn (w_conns w c)) (\<lambda>x. x\<lparr>nc_tx := nc_tx x @ p\<rparr>) w)
     \<lparr>w_conns := (w_conns w)(c := (w_conns w c)\<lparr>c_resend := d\<rparr>)\<rparr>"

lemma sent_on_simps [simp]:
  "w_bufs (sent_on c p d w) = w_bufs w" "w_ciphers (sent_on c p d w) = w_ciphers w"
  "w_server (sent_on c p d w) = w_server w" "w_pool (sent_on c p d w) = w_pool w"
  "w_next (sent_on c p d w) = w_next w"
  "c_conn (w_conns (sent_on c p d w) c') = c_conn (w_conns w c')"
  "c_in (w_conns (sent_on c p d w) c') = c_in (w_conns w c')"
  "c_out (w_conns (sent_on c p d w) c') = c_out (w_conns w c')"
  "c_id (w_conns (sent_on c p d w) c') = c_id (w_conns w c')"
  "c_secret (w_conns (sent_on c p d w) c') = c_secret (w_conns w c')"
  "c_handshakes (w_conns (sent_on c p d w) c') = c_handshakes (w_conns w c')"
  "c_reuseBuffer (w_conns (sent_on c p d w) c') = c_reuseBuffer (w_conns w c')"
  "c_reused (w_conns (sent_on c p d w) c') = c_reused (w_conns w c')"
  "c_frozen (w_conns (sent_on c p d w) c') = c_frozen (w_conns w c')"
  "c_resend (w_conns (sent_on c p d w) c) = d"
  "nc_tx (net_of (sent_on c p d w) c) = nc_tx (net_of w c) @ p"
  "nc_rx (net_of (sent_on c p d w) c) = nc_rx (net_of w c)"
  "nc_good (net_of (sent_on c p d w) c) = nc_good (net_of w c)"
  by (simp_all add: sent_on_def net_of_def nc_good_def)

lemma sent_on_session [simp]:
  "sends (sent_on c p d w) c' h = sends w c' h" "receives (sent_on c p d w) c' k = receives w c' k"
  "took_over w0 old (sent_on c p d w) c' h k = took_over w0 old w c' h k"
  "wf_world (sent_on c p d w) = wf_world w"
  by (simp_all add: sends_def receives_def took_over_def out_cipher_def in_cipher_def ring_cap_def wf_world_def
      cong: option.case_cong)

lemma sent_on_twice [simp]: "sent_on c q e (sent_on c p d w) = sent_on c (p @ q) e w"
  by (simp add: sent_on_def upd_net_def)

lemma writeRecord_sent:
  assumes "nc_good (net_of w c)"
  shows "writeRecord c d w = (Ok (), sent_on c (frame d) (c_resend (w_conns w c)) w)"
proof -
  have "(w_conns w)(c := (w_conns w c)\<lparr>c_resend := c_resend (w_conns w c)\<rparr>) = w_conns w" by (simp add: fun_upd_idem)
  moreover have "snd (nc_writeAll (frame d) (w_nets w (c_conn (w_conns w c)))) =
      (w_nets w (c_conn (w_conns w c)))\<lparr>nc_tx := nc_tx (w_nets w (c_conn (w_conns w c))) @ frame d\<rparr>"
    using assms by (simp add: nc_writeAll_good net_of_def)
  ultimately show ?thesis by (simp add: writeRecord_ok [OF assms] sent_on_def upd_net_def)
qed

lemma retransmit_sent:
  assumes "sends w c h" "nc_good (net_of w c)" "0 \<le> d" "nat d \<le> min (ring_cap w c) (length h)"
  shows "retransmit c d w =
     (Ok (), sent_on c (last_n (nat d) h) (if 0 < d then d else c_resend (w_conns w c)) w)"
proof (cases "0 < d")
  case True
  obtain b where b: "c_reuseBuffer (w_conns w c) = Some b" "wf_lb (w_bufs w b)"
    "contents (w_bufs w b) = last_n (lb_Cap (w_bufs w b)) h"
    using assms(1) by (auto simp: sends_def)
  have len: "lb_Len (w_bufs w b) = min (ring_cap w c) (length h)" by (rule sends_len [OF assms(1) b(1)])
  have "lb_ReadLastBytes (w_bufs w b) d = Ok (last_n (nat d) h)"
  proof (rule lb.tracks_read)
    show "d \<le> int (lb_Len (w_bufs w b))" using assms(4) unfolding len nat_le_iff .
  qed (use b assms(3) in \<open>simp_all add: lb.tracks_def\<close>)
  with True b(1) assms(2) show ?thesis
    by (simp add: retransmit_def monad_simps nc_writeAll_good net_of_def sent_on_def upd_net_def)
next
  case False
  with assms(3) have "d = 0" by simp
  moreover have "sent_on c [] (c_resend (w_conns w c)) w = w"
    by (simp add: sent_on_def upd_net_def fun_upd_idem)
  ultimately show ?thesis by (simp add: retransmit_def monad_simps)
qed

section \<open>The server's answer to a reuse request\<close>

text \<open>The status code, as a function of the request and the state before the handshake.\<close>

definition reuse_code :: "'srv SCPServer_ops \<Rightarrow> 'srv world \<Rightarrow> reuseConnReq \<Rightarrow> int" where
  "reuse_code ops w rq =
     (case op_QueryByID ops (w_server w) (rq_id rq) of None \<Rightarrow> 404 | Some old \<Rightarrow>
      let oc = w_conns w old in
      if \<not> verifySum rq (c_secret oc) then 401
      else if rq_handshakes rq \<le> c_handshakes oc then 403
      else (case c_reuseBuffer oc of None \<Rightarrow> 404 | Some b \<Rightarrow>
        let diff = cw_count (the (c_out oc)) - uint (rq_received rq) in
        if diff < 0 \<or> int (lb_Len (w_bufs w b)) < diff then 406 else 200))"

text \<open>A connection found under an id is another object on another network connection than the one
  that just arrived, and if it is not closed it carries a session.\<close>

definition registered :: "'srv world \<Rightarrow> nat \<Rightarrow> nat \<Rightarrow> byte list \<Rightarrow> nat \<Rightarrow> bool" where
  "registered w c old h k \<longleftrightarrow> c \<noteq> old \<and> c_conn (w_conns w old) \<noteq> c_conn (w_conns w c) \<and>
     (c_reuseBuffer (w_conns w old) \<noteq> None \<longrightarrow> sends w old h \<and> receives w old k)"

lemma wf_world_upd_conn:
  assumes "wf_world w" "c_reuseBuffer (f (w_conns w c)) = c_reuseBuffer (w_conns w c)"
  shows "wf_world (w\<lparr>w_conns := (w_conns w)(c := f (w_conns w c))\<rparr>)"
  by (rule wf_world_cong [OF assms(1)]) (simp_all add: assms(2))

lemma serverReuse_check_spawn:
  assumes wf: "wf_world w" and q: "op_QueryByID ops (w_server w) (rq_id rq) = Some old"
    and reg: "registered w c old h k" and open_old: "c_reuseBuffer (w_conns w old) \<noteq> None"
    and vs: "verifySum rq (c_secret (w_conns w old))" and hs: "c_handshakes (w_conns w old) < rq_handshakes rq"
  obtains w' where "serverReuse_check ops c rq w =
      (Ok (if reuse_code ops w rq = 200 then \<lparr>rp_received = word_of_nat k, rp_code = 200\<rparr>
           else \<lparr>rp_received = 0, rp_code = 406\<rparr>, int (length h) - uint (rq_received rq)), w')"
    "took_over w old w' c h k" "c_handshakes (w_conns w' c) = rq_handshakes rq" "net_of w' c = net_of w c"
    "reuse_code ops w rq = (if uint (rq_received rq) \<le> int (length h) \<and>
       int (length h) - uint (rq_received rq) \<le> int (min (ring_cap w old) (length h)) then 200 else 406)"
proof -
  have ne: "c \<noteq> old" and nn: "c_conn (w_conns w old) \<noteq> c_conn (w_conns w c)"
    and s: "sends w old h" and r: "receives w old k" using reg open_old by (auto simp: registered_def)
  let ?w1 = "w\<lparr>w_conns := (w_conns w)(c := (w_conns w c)\<lparr>c_handshakes := rq_handshakes rq\<rparr>)\<rparr>"
  have wf1: "wf_world ?w1" by (rule wf_world_upd_conn [OF wf]) simp
  have "sends ?w1 old h" "receives ?w1 old k" using s r ne by (simp_all add: sends_def receives_def)
  then obtain w' where sp: "spawn old c ?w1 = (Ok True, w')" and tk: "took_over ?w1 old w' c h k"
    and hs': "c_handshakes (w_conns w' c) = c_handshakes (w_conns ?w1 c)" and nt: "net_of w' c = net_of ?w1 c"
    using spawn_takes_over [OF wf1 ne, of h k] nn ne by auto
  have tk': "took_over w old w' c h k"
    using tk ne by (auto simp: took_over_def out_cipher_def in_cipher_def ring_cap_def cong: option.case_cong)
  obtain ob v where v: "c_reuseBuffer (w_conns w old) = Some ob" "c_out (w_conns w old) = Some v"
    "cw_count v = int (length h)" using s by (auto simp: sends_def)
  obtain b v' where v': "c_reuseBuffer (w_conns w' c) = Some b" "c_out (w_conns w' c) = Some v'"
    "cw_count v' = int (length h)" using tk by (auto simp: sends_def took_over_def)
  obtain u where u: "c_in (w_conns w' c) = Some u" "cr_count u = int k"
    using tk by (auto simp: receives_def took_over_def)
  have len: "lb_Len (w_bufs w ob) = min (ring_cap w old) (length h)"
    "lb_Len (w_bufs w' b) = min (ring_cap w old) (length h)"
    using sends_len [OF s v(1)] sends_len [OF _ v'(1), of h] tk' by (auto simp: took_over_def)
  have code: "reuse_code ops w rq = (if uint (rq_received rq) \<le> int (length h) \<and>
       int (length h) - uint (rq_received rq) \<le> int (min (ring_cap w old) (length h)) then 200 else 406)"
    using vs hs q v len by (auto simp: reuse_code_def Let_def)
  show thesis
  proof (rule that)
    show "serverReuse_check ops c rq w =
      (Ok (if reuse_code ops w rq = 200 then \<lparr>rp_received = word_of_nat k, rp_code = 200\<rparr>
           else \<lparr>rp_received = 0, rp_code = 406\<rparr>, int (length h) - uint (rq_received rq)), w')"
      using q vs hs sp v' u len(2) ne unfolding code
      by (simp add: serverReuse_check_def monad_simps Let_def GetBytesSent_def GetBytesReceived_def SCPStatus_defs)
    show "c_handshakes (w_conns w' c) = rq_handshakes rq" using hs' by simp
    show "net_of w' c = net_of w c" using nt by (simp add: net_of_def)
  qed (use tk' code in auto)
qed

lemma spawn_closed:
  assumes "c_reuseBuffer (w_conns w old) = None"
  obtains w' where "spawn old c w = (Ok False, w')"
    "\<And>d. c_conn (w_conns w' d) = c_conn (w_conns w d) \<and> c_resend (w_conns w' d) = c_resend (w_conns w d)"
    "c_conn (w_conns w old) \<noteq> c_conn (w_conns w c) \<Longrightarrow> net_of w' c = net_of w c"
proof -
  obtain e nt where fz: "freeze old w = (Ok (), w\<lparr>w_conns := (w_conns w)(old := (w_conns w old)\<lparr>c_frozen := True, c_connErr := e\<rparr>),
       w_nets := (w_nets w)(c_conn (w_conns w old) := nt)\<rparr>)" (is "_ = (_, ?w1)")
    by (rule freeze_run)
  then have "spawn old c w = (Ok False, ?w1)" using assms by (simp add: spawn_def monad_simps)
  then show thesis by (rule that) (auto simp: net_of_def)
qed

lemma serverReuse_check_refuse:
  assumes reg: "\<And>old. op_QueryByID ops (w_server w) (rq_id rq) = Some old \<Longrightarrow> registered w c old h k"
    and code: "reuse_code ops w rq \<noteq> 200" "reuse_code ops w rq \<noteq> 406"
  obtains w' where "serverReuse_check ops c rq w = (Ok (\<lparr>rp_received = 0, rp_code = reuse_code ops w rq\<rparr>, 0), w')"
    "net_of w' c = net_of w c" "c_resend (w_conns w' c) = c_resend (w_conns w c)"
proof (cases "op_QueryByID ops (w_server w) (rq_id rq)")
  case None
  then show thesis
    using that [of w] by (simp add: serverReuse_check_def monad_simps Let_def reuse_code_def SCPStatus_defs)
next
  case (Some old)
  have nn: "c \<noteq> old" "c_conn (w_conns w old) \<noteq> c_conn (w_conns w c)" using reg [OF Some] by (auto simp: registered_def)
  show thesis
  proof (cases "verifySum rq (c_secret (w_conns w old)) \<and> \<not> rq_handshakes rq \<le> c_handshakes (w_conns w old)")
    case False
    then show thesis using that [of w] Some
      by (auto simp: serverReuse_check_def monad_simps Let_def reuse_code_def SCPStatus_defs)
  next
    case True
    then have cl: "c_reuseBuffer (w_conns w old) = None" "reuse_code ops w rq = 404"
      using code Some by (auto simp: reuse_code_def Let_def split: option.splits if_splits)
    let ?w1 = "w\<lparr>w_conns := (w_conns w)(c := (w_conns w c)\<lparr>c_handshakes := rq_handshakes rq\<rparr>)\<rparr>"
    have "c_reuseBuffer (w_conns ?w1 old) = None" using cl nn by simp
    then obtain w' where sp: "spawn old c ?w1 = (Ok False, w')"
      "\<And>d. c_conn (w_conns w' d) = c_conn (w_conns ?w1 d) \<and> c_resend (w_conns w' d) = c_resend (w_conns ?w1 d)"
      "c_conn (w_conns ?w1 old) \<noteq> c_conn (w_conns ?w1 c) \<Longrightarrow> net_of w' c = net_of ?w1 c"
      using spawn_closed by blast
    have "net_of w' c = net_of w c" using sp(3) nn by (simp add: net_of_def)
    moreover have "c_resend (w_conns w' c) = c_resend (w_conns w c)" using sp(2) by simp
    moreover have "serverReuse_check ops c rq w = (Ok (\<lparr>rp_received = 0, rp_code = 404\<rparr>, 0), w')"
      using True Some sp(1) by (simp add: serverReuse_check_def monad_simps Let_def SCPStatus_defs)
    ultimately show thesis using that cl(2) by simp
  qed
qed

definition reuse_result :: "int \<Rightarrow> unit res" where
  "reuse_result code = (case newError code of None \<Rightarrow> Ok () | Some e \<Rightarrow> Fail e)"

lemma failErr_result: "failErr (newError code) w = (reuse_result code, w)"
  by (simp add: failErr_def reuse_result_def monad_simps split: option.split)

lemma failErr_None: "failErr None w = (Ok (), w)"
  by (simp add: failErr_def monad_simps)

lemma reuse_result_200 [simp]: "reuse_result 200 = Ok ()"
  by (simp add: reuse_result_def)

lemma reuse_result_406: "reuse_result 406 = Fail ErrNotAcceptable"
  by (simp add: reuse_result_def newError_def SCPStatus_defs)

lemma reuse_code_range: "reuse_code ops w rq \<in> {200, 401, 403, 404, 406}"
  by (auto simp: reuse_code_def Let_def split: option.splits)

lemma reuse_result_refused:
  "code \<in> {200, 401, 403, 404, 406} \<Longrightarrow> code \<noteq> 200 \<Longrightarrow> \<exists>d. reuse_result code = Fail (ScpErr code d)"
  by (auto simp: reuse_result_def newError_def SCPStatus_defs Err_defs)

lemma reuse_code_spawn:
  assumes "reuse_code ops w rq = 200 \<or> reuse_code ops w rq = 406"
  obtains old where "op_QueryByID ops (w_server w) (rq_id rq) = Some old" "c_reuseBuffer (w_conns w old) \<noteq> None"
    "verifySum rq (c_secret (w_conns w old))" "c_handshakes (w_conns w old) < rq_handshakes rq"
  using assms by (auto simp: reuse_code_def Let_def split: option.splits if_splits)

text \<open>The whole exchange of the server, on every branch.\<close>

lemma serverReuseHandshake_run:
  assumes wf: "wf_world w" and good: "nc_good (net_of w c)"
    and reg: "\<And>old. op_QueryByID ops (w_server w) (rq_id rq) = Some old \<Longrightarrow> registered w c old h k"
  obtains w' where "serverReuseHandshake ops c rq w = (reuse_result (reuse_code ops w rq), w')"
    "nc_tx (net_of w' c) = nc_tx (net_of w c) @
       (if reuse_code ops w rq = 200
        then frame (reuseConnResp_marshal \<lparr>rp_received = word_of_nat k, rp_code = 200\<rparr>)
             @ drop (unat (rq_received rq)) h
        else frame (reuseConnResp_marshal \<lparr>rp_received = 0, rp_code = reuse_code ops w rq\<rparr>))"
    "nc_rx (net_of w' c) = nc_rx (net_of w c)"
    "\<And>old. reuse_code ops w rq = 200 \<Longrightarrow> op_QueryByID ops (w_server w) (rq_id rq) = Some old \<Longrightarrow>
       took_over w old w' c h k \<and> c_handshakes (w_conns w' c) = rq_handshakes rq \<and>
       unat (rq_received rq) \<le> length h"
proof (cases "reuse_code ops w rq = 200 \<or> reuse_code ops w rq = 406")
  case False
  then obtain w1 where c1: "serverReuse_check ops c rq w = (Ok (\<lparr>rp_received = 0, rp_code = reuse_code ops w rq\<rparr>, 0), w1)"
    "net_of w1 c = net_of w c"
    using serverReuse_check_refuse [OF reg] by metis
  obtain d where d: "reuse_result (reuse_code ops w rq) = Fail (ScpErr (reuse_code ops w rq) d)"
    using reuse_result_refused [OF reuse_code_range] False by blast
  have g1: "nc_good (net_of w1 c)" using good c1(2) by simp
  show thesis
  proof (rule that)
    show "serverReuseHandshake ops c rq w = (reuse_result (reuse_code ops w rq),
        sent_on c (frame (reuseConnResp_marshal \<lparr>rp_received = 0, rp_code = reuse_code ops w rq\<rparr>)) (c_resend (w_conns w1 c)) w1)"
      by (simp add: serverReuseHandshake_def bindM_app c1(1) writeRecord_sent [OF g1] failErr_result d)
  qed (use c1 False in auto)
next
  case True
  then obtain old where o: "op_QueryByID ops (w_server w) (rq_id rq) = Some old" "c_reuseBuffer (w_conns w old) \<noteq> None"
    "verifySum rq (c_secret (w_conns w old))" "c_handshakes (w_conns w old) < rq_handshakes rq"
    using reuse_code_spawn by blast
  let ?rp = "if reuse_code ops w rq = 200 then \<lparr>rp_received = word_of_nat k, rp_code = 200\<rparr>
           else \<lparr>rp_received = 0, rp_code = 406\<rparr> :: reuseConnResp"
  let ?d = "int (length h) - uint (rq_received rq)"
  obtain w1 where c1: "serverReuse_check ops c rq w = (Ok (?rp, ?d), w1)"
    "took_over w old w1 c h k" "c_handshakes (w_conns w1 c) = rq_handshakes rq" "net_of w1 c = net_of w c"
    and code: "reuse_code ops w rq = (if uint (rq_received rq) \<le> int (length h) \<and>
       ?d \<le> int (min (ring_cap w old) (length h)) then 200 else 406)"
    by (rule serverReuse_check_spawn [OF wf o(1) reg [OF o(1)] o(2-4)])
  have g1: "nc_good (net_of w1 c)" using good c1(4) by simp
  let ?w2 = "sent_on c (frame (reuseConnResp_marshal ?rp)) (c_resend (w_conns w1 c)) w1"
  show thesis
  proof (cases "reuse_code ops w rq = 200")
    case False
    then have "serverReuseHandshake ops c rq w = (reuse_result (reuse_code ops w rq), ?w2)"
      using True by (simp add: serverReuseHandshake_def bindM_app c1(1) writeRecord_sent [OF g1] failErr_result
          reuse_result_406)
    then show thesis by (rule that) (use False True c1 in auto)
  next
    case ok: True
    then have "int (unat (rq_received rq)) \<le> int (length h)" and
      r2: "nat ?d \<le> min (ring_cap w old) (length h)"
      using code by (auto simp: nat_le_iff split: if_splits)
    then have r: "unat (rq_received rq) \<le> length h" "nat ?d \<le> min (ring_cap w old) (length h)"
      by (simp_all only: of_nat_le_iff)
    have ui: "uint (rq_received rq) = int (unat (rq_received rq))" by simp
    then have dd: "nat ?d = length h - unat (rq_received rq)" by linarith
    have s2: "sends ?w2 c h" "nc_good (net_of ?w2 c)" "ring_cap ?w2 c = ring_cap w old"
      using c1(2) g1 by (auto simp: took_over_def ring_cap_def cong: option.case_cong)
    have rt: "retransmit c ?d ?w2 = (Ok (), sent_on c (last_n (nat ?d) h)
        (if 0 < ?d then ?d else c_resend (w_conns ?w2 c)) ?w2)" (is "_ = (_, ?w3)")
    proof (rule retransmit_sent [OF s2(1,2)])
      show "0 \<le> ?d" using r(1) ui by linarith
      show "nat ?d \<le> min (ring_cap ?w2 c) (length h)" unfolding s2(3) by (rule r(2))
    qed
    have "last_n (nat ?d) h = drop (unat (rq_received rq)) h" unfolding dd using r(1) by (simp add: last_n_def)
    moreover have "serverReuseHandshake ops c rq w = retransmit c ?d ?w2"
      using ok by (simp add: serverReuseHandshake_def bindM_app c1(1) writeRecord_sent [OF g1] failErr_None)
    ultimately show thesis
      using ok c1 r(1) o(1) rt by (intro that [of ?w3]) auto
  qed
qed

section \<open>The client's side of a resume\<close>

text \<open>The request a client connection sends.\<close>

definition reuse_request :: "Conn \<Rightarrow> reuseConnReq" where
  "reuse_request cc = setSum \<lparr>rq_id = c_id cc, rq_handshakes = c_handshakes cc,
     rq_received = word_of_int (cr_count (the (c_in cc))), rq_sum = zero_leu64\<rparr> (c_secret cc)"

lemma reuse_request_fields [simp]:
  "rq_id (reuse_request cc) = c_id cc" "rq_handshakes (reuse_request cc) = c_handshakes cc"
  "rq_received (reuse_request cc) = word_of_int (cr_count (the (c_in cc)))"
  "wf_leu64 (rq_sum (reuse_request cc))" "verifySum (reuse_request cc) (c_secret cc)"
  by (simp_all add: reuse_request_def)

text \<open>The pieces of the network stream of \<open>c\<close> are replaced, nothing else.\<close>

definition rx_on :: "nat \<Rightarrow> byte list list \<Rightarrow> 'srv world \<Rightarrow> 'srv world" where
  "rx_on c xs w = upd_net (c_conn (w_conns w c)) (\<lambda>x. x\<lparr>nc_rx := xs\<rparr>) w"

lemma rx_on_simps [simp]:
  "w_conns (rx_on c xs w) = w_conns w" "w_bufs (rx_on c xs w) = w_bufs w"
  "w_ciphers (rx_on c xs w) = w_ciphers w" "w_server (rx_on c xs w) = w_server w"
  "w_pool (rx_on c xs w) = w_pool w" "w_next (rx_on c xs w) = w_next w"
  "w_rand (rx_on c xs w) = w_rand w" "w_rpos (rx_on c xs w) = w_rpos w"
  "nc_tx (net_of (rx_on c xs w) c) = nc_tx (net_of w c)" "nc_rx (net_of (rx_on c xs w) c) = xs"
  "nc_good (net_of (rx_on c xs w) c) = nc_good (net_of w c)"
  by (simp_all add: rx_on_def net_of_def nc_good_def)

lemma rx_on_session [simp]:
  "sends (rx_on c xs w) c' h = sends w c' h" "receives (rx_on c xs w) c' k = receives w c' k"
  "wf_world (rx_on c xs w) = wf_world w" "ring_cap (rx_on c xs w) c' = ring_cap w c'"
  "registered (rx_on c xs w) c' old h k = registered w c' old h k"
  "reuse_code ops (rx_on c xs w) rq = reuse_code ops w rq"
  "took_over (rx_on c xs w) old w' c' h k = took_over w old w' c' h k"
  "out_cipher (rx_on c xs w) c' = out_cipher w c'" "in_cipher (rx_on c xs w) c' = in_cipher w c'"
  by (simp_all add: sends_def receives_def wf_world_def ring_cap_def registered_def reuse_code_def Let_def
      took_over_def out_cipher_def in_cipher_def cong: option.case_cong if_cong)

lemma sent_on_ring_cap [simp]: "ring_cap (sent_on c p d w) c' = ring_cap w c'"
  by (simp add: ring_cap_def cong: option.case_cong)

lemma clientReuse_reply:
  assumes s: "sends w c h" and r: "receives w c k" and good: "nc_good (net_of w c)"
    and rx: "concat (nc_rx (net_of w c)) = frame (reuseConnResp_marshal rp) @ rest"
    and len: "length (reuseConnResp_marshal rp) < 65536" and code: "int64 (rp_code rp)"
  obtains xs where "concat xs = rest"
    "clientReuseHandshake c w =
       (let w1 = rx_on c xs (sent_on c (frame (reuseConnReq_marshal (reuse_request (w_conns w c)))) (c_resend (w_conns w c)) w);
            diff = int (length h) - uint (rp_received rp) in
        if rp_code rp \<noteq> 200 then (case newError (rp_code rp) of None \<Rightarrow> Ok () | Some e \<Rightarrow> Fail e, w1)
        else if diff < 0 \<or> int (min (ring_cap w c) (length h)) < diff then (Fail ErrNotAcceptable, w1)
        else retransmit c diff w1)"
proof -
  obtain b v where v: "c_reuseBuffer (w_conns w c) = Some b" "c_out (w_conns w c) = Some v" "cw_count v = int (length h)"
    using s by (auto simp: sends_def)
  obtain u where u: "c_in (w_conns w c) = Some u" using r by (auto simp: receives_def)
  let ?w0 = "sent_on c (frame (reuseConnReq_marshal (reuse_request (w_conns w c)))) (c_resend (w_conns w c)) w"
  have wr: "writeRecord c (reuseConnReq_marshal (reuse_request (w_conns w c))) w = (Ok (), ?w0)"
    by (rule writeRecord_sent [OF good])
  have "\<not> nc_closed (net_of ?w0 c)" using good sent_on_simps by (metis nc_good_def)
  moreover have "concat (nc_rx (net_of ?w0 c)) = frame (reuseConnResp_marshal rp) @ rest" using rx by simp
  ultimately obtain xs where rd: "readRecord c reuseConnResp_unmarshal ?w0 = (Ok rp, rx_on c xs ?w0)" and xs: "concat xs = rest"
    using readRecord_ok [OF _ _ len, of ?w0 c rest reuseConnResp_unmarshal] reuseConnResp_roundtrip [OF code]
    unfolding rx_on_def by metis
  have len': "lb_Len (w_bufs w b) = min (ring_cap w c) (length h)" by (rule sends_len [OF s v(1)])
  have rq: "setSum \<lparr>rq_id = c_id (w_conns w c), rq_handshakes = c_handshakes (w_conns w c),
      rq_received = word_of_int (GetBytesReceived u), rq_sum = zero_leu64\<rparr> (c_secret (w_conns w c)) = reuse_request (w_conns w c)"
    using u by (simp add: reuse_request_def GetBytesReceived_def)
  show thesis
  proof (rule that [OF xs])
    have step: "clientReuseHandshake c w = bindM (failErr (newError (rp_code rp))) (\<lambda>_.
        let diff = int (length h) - uint (rp_received rp) in
        if diff < 0 \<or> int (min (ring_cap w c) (length h)) < diff then failM ErrNotAcceptable
        else retransmit c diff) (rx_on c xs ?w0)"
      using v u len' by (cases "newError (rp_code rp)")
        (simp_all add: clientReuseHandshake_def monad_simps rq wr rd Let_def GetBytesSent_def failErr_def)
    show "clientReuseHandshake c w =
       (let w1 = rx_on c xs ?w0; diff = int (length h) - uint (rp_received rp) in
        if rp_code rp \<noteq> 200 then (case newError (rp_code rp) of None \<Rightarrow> Ok () | Some e \<Rightarrow> Fail e, w1)
        else if diff < 0 \<or> int (min (ring_cap w c) (length h)) < diff then (Fail ErrNotAcceptable, w1)
        else retransmit c diff w1)"
    proof (cases "newError (rp_code rp)")
      case None
      then have "rp_code rp = 200" by (simp add: newError_None)
      then show ?thesis by (simp add: step monad_simps failErr_None Let_def)
    next
      case (Some e)
      then have "rp_code rp \<noteq> 200" by auto
      then show ?thesis using Some by (simp add: step monad_simps failErr_def Let_def)
    qed
  qed
qed

end
