(* ===== verification/Scp_Resume.thy ===== *)
theory Scp_Resume
  imports Scp_Handshake
begin

text \<open>
  The resume of a session over a new network connection, end to end: the reuse request of the client,
  the answer of the server, the bytes both send again, and what the readers make of them.
  \<open>streams\<close> says what each end knows of the two plaintexts. The theorems show that a resume within
  the window of the ring buffers loses and repeats nothing, that the server answers every other
  request with the status the checks call for, and where the code departs from \<open>protocol.md\<close>.
\<close>

section \<open>Sizes of the messages\<close>

lemma length_dec_digits: "n < 10 ^ Suc k \<Longrightarrow> length (dec_digits n) \<le> Suc k"
proof (induction k arbitrary: n)
  case 0
  then show ?case by (simp add: dec_digits.simps)
next
  case (Suc k)
  show ?case
  proof (cases "n < 10")
    case True
    then show ?thesis by (simp add: dec_digits.simps)
  next
    case False
    have "n div 10 < 10 ^ Suc k" using Suc.prems by (simp add: less_mult_imp_div_less mult.commute)
    from Suc.IH [OF this] False show ?thesis by (simp add: dec_digits.simps [of n])
  qed
qed

lemma length_itoa:
  assumes "int64 i"
  shows "length (itoa i) \<le> 20"
proof -
  have "nat \<bar>i\<bar> < 10 ^ Suc 18" using assms by (auto simp: int64_def)
  then have "length (dec_digits (nat \<bar>i\<bar>)) \<le> 19" using length_dec_digits by fastforce
  then show ?thesis by (auto simp: itoa_def)
qed

lemma int64_u32 [simp]: "int64 (uint (w :: u32))"
  using unsigned_less [of w, where 'a = int] by (simp add: int64_def order_trans [OF _ uint_ge_0])

lemma int64_code [simp]: "int64 200" "int64 401" "int64 403" "int64 404" "int64 406" "int64 0"
  by (simp_all add: int64_def)

lemma length_b64encodeLeu64: "wf_leu64 v \<Longrightarrow> length (b64encodeLeu64 v) = 12"
  by (simp add: b64encodeLeu64_def wf_leu64_def length_b64_encode)

lemma length_str_bytes' [simp]: "length (str_bytes s) = length s"
  by (simp add: str_bytes_def)

lemma reuseConnReq_short:
  assumes "int64 (rq_id r)" "int64 (rq_handshakes r)" "wf_leu64 (rq_sum r)"
  shows "length (reuseConnReq_marshal r) < 65536"
  using length_itoa [OF assms(1)] length_itoa [OF assms(2)] length_itoa [OF int64_u32, of "rq_received r"]
  by (simp add: reuseConnReq_marshal_def length_b64encodeLeu64 [OF assms(3)] del: str_bytes_append)

lemma reuseConnResp_short: "int64 (rp_code r) \<Longrightarrow> length (reuseConnResp_marshal r) < 65536"
  using length_itoa [of "rp_code r"] length_itoa [OF int64_u32, of "rp_received r"]
  by (simp add: reuseConnResp_marshal_def del: str_bytes_append)

section \<open>The server reads a reuse request\<close>

lemma serverHandshake_reuse:
  assumes "\<not> nc_closed (net_of w c)" "int64 (rq_id rq)" "rq_id rq \<noteq> 0" "int64 (rq_handshakes rq)" "wf_leu64 (rq_sum rq)"
    and rx: "concat (nc_rx (net_of w c)) = frame (reuseConnReq_marshal rq) @ p"
  obtains xs where "serverHandshake ops c w = serverReuseHandshake ops c rq (rx_on c xs w)" "concat xs = p"
proof -
  have u: "serverReq_unmarshal (reuseConnReq_marshal rq) = Ok (ReuseReq rq)"
    using assms by (simp add: serverReq_reuse reuseConnReq_roundtrip map_res_def)
  obtain xs where "readRecord c serverReq_unmarshal w = (Ok (ReuseReq rq), rx_on c xs w)" "concat xs = p"
    using readRecord_ok [OF assms(1) rx reuseConnReq_short, of serverReq_unmarshal] assms u
    unfolding rx_on_def by metis
  then show thesis using that by (simp add: serverHandshake_def bindM_app)
qed

section \<open>The two streams of a session\<close>

text \<open>The connection \<open>c\<close> has sent the plaintext \<open>out\<close> and has read the first \<open>n\<close> bytes of the plaintext
  \<open>inp\<close> of its peer; \<open>k0\<close> is the RC4 state both directions started with. The two directions have their
  own RC4 states.\<close>

definition streams :: "'srv world \<Rightarrow> nat \<Rightarrow> rc4 \<Rightarrow> byte list \<Rightarrow> byte list \<Rightarrow> nat \<Rightarrow> bool" where
  "streams w c k0 out inp n \<longleftrightarrow>
     sends w c (fst (XORKeyStream k0 out)) \<and> out_cipher w c = snd (XORKeyStream k0 out) \<and>
     receives w c n \<and> n \<le> length inp \<and> in_cipher w c = snd (XORKeyStream k0 (take n inp)) \<and>
     cw_cipher (the (c_out (w_conns w c))) \<noteq> cr_cipher (the (c_in (w_conns w c)))"

lemma streams_rx_on [simp]: "streams (rx_on c xs w) c' k0 out inp n = streams w c' k0 out inp n"
  by (simp add: streams_def)

lemma sent_on_ciphers [simp]:
  "out_cipher (sent_on c p d w) c' = out_cipher w c'" "in_cipher (sent_on c p d w) c' = in_cipher w c'"
  by (simp_all add: out_cipher_def in_cipher_def)

lemma streams_sent_on [simp]: "streams (sent_on c p d w) c' k0 out inp n = streams w c' k0 out inp n"
  by (simp add: streams_def)

lemma streams_took_over:
  assumes "streams w old k0 out inp n" "took_over w old w' c (fst (XORKeyStream k0 out)) n"
  shows "streams w' c k0 out inp n"
  using assms by (simp add: streams_def took_over_def)

text \<open>What is sent again decrypts to what the reader has not read yet.\<close>

lemma streams_missing:
  assumes "streams w c k0 out inp n"
  shows "fst (XORKeyStream (in_cipher w c) (drop n (fst (XORKeyStream k0 inp)))) = drop n inp"
  using assms by (simp add: streams_def rc4.crypt_resume)

section \<open>Example worlds\<close>

text \<open>A world in which connection 0, on network connection 0, carries a session with the id 1 and every
  other connection is new; \<open>rx\<close> arrives on all network connections. The theorems are applied to it.\<close>

definition ex_net :: "byte list list \<Rightarrow> netconn" where
  "ex_net rx = \<lparr>nc_rx = rx, nc_rx_err = ErrEOF, nc_tx = [], nc_room = None, nc_wr_err = ErrClosedPipe,
     nc_closed = False, nc_close_err = None, nc_deadline = None\<rparr>"

definition ex_world :: "rc4 \<Rightarrow> byte list \<Rightarrow> byte list \<Rightarrow> nat \<Rightarrow> int \<Rightarrow> byte list list \<Rightarrow> unit world" where
  "ex_world k0 out inp n hs rx =
     \<lparr>w_nets = (\<lambda>_. ex_net rx),
      w_ciphers = (\<lambda>a. if a = 0 then snd (XORKeyStream k0 out) else snd (XORKeyStream k0 (take n inp))),
      w_bufs = (\<lambda>_. \<lparr>buf = fst (XORKeyStream k0 out), off = 0, looped = True\<rparr>),
      w_conns = (\<lambda>a. zeroConn a (defaultConfig\<lparr>cf_ScpServer := True\<rparr>))
        (0 := (zeroConn 0 defaultConfig)\<lparr>c_in := Some \<lparr>cr_rd = Some 0, cr_cipher = 1, cr_count = int n\<rparr>,
          c_out := Some \<lparr>cw_wr = Some (0, 0), cw_cipher = 0, cw_count = int (length out)\<rparr>,
          c_id := 1, c_handshakes := hs, c_secret := toLeu64 5, c_reuseBuffer := Some 0,
          c_handshaked := True\<rparr>),
      w_pool = [], w_next = 9, w_rand = (\<lambda>_. 3), w_rpos = 0, w_server = (),
      w_ReuseBufferSize = 4, w_HandshakeTimeout = 0, w_now = 0\<rparr>"

definition ex_ops :: "unit SCPServer_ops" where
  "ex_ops = \<lparr>op_AcquireID = (\<lambda>s. (1, s)), op_ReleaseID = (\<lambda>s i. Ok s),
     op_QueryByID = (\<lambda>s i. if i = 1 then Some 0 else None)\<rparr>"

lemmas ex_defs = ex_world_def ex_net_def ex_ops_def zeroConn_def defaultConfig_def

lemma ex_world_wf [simp]: "out \<noteq> [] \<Longrightarrow> wf_world (ex_world k0 out inp n hs rx)"
  by (simp add: wf_world_def ex_defs wf_lb_def)

lemma ex_world_streams [simp]:
  assumes "out \<noteq> []" "n \<le> length inp"
  shows "streams (ex_world k0 out inp n hs rx) 0 k0 out inp n"
  using assms by (simp add: streams_def sends_def receives_def out_cipher_def in_cipher_def ex_defs wf_lb_def
      contents_def lb_Cap_def last_n_def)

lemma ex_world_simps [simp]:
  "ring_cap (ex_world k0 out inp n hs rx) 0 = length out" "nc_good (net_of (ex_world k0 out inp n hs rx) c)"
  "nc_rx (net_of (ex_world k0 out inp n hs rx) c) = rx" "nc_tx (net_of (ex_world k0 out inp n hs rx) c) = []"
  "c_id (w_conns (ex_world k0 out inp n hs rx) 0) = 1" "c_handshakes (w_conns (ex_world k0 out inp n hs rx) 0) = hs"
  "c_secret (w_conns (ex_world k0 out inp n hs rx) 0) = toLeu64 5" "c_handshaked (w_conns (ex_world k0 out inp n hs rx) 0)"
  "c_connErr (w_conns (ex_world k0 out inp n hs rx) 0) = None" "c_conn (w_conns (ex_world k0 out inp n hs rx) a) = a"
  by (simp_all add: ring_cap_def net_of_def nc_good_def ex_defs lb_Cap_def)

lemma ex_request_verifies [simp]: "verifySum (reuse_request (w_conns (ex_world k0 out inp n hs rx) 0)) (toLeu64 5)"
  using reuse_request_fields(5) [of "w_conns (ex_world k0 out inp n hs rx) 0"] by (simp del: reuse_request_fields)

lemma ex_ops_simps [simp]: "op_QueryByID ex_ops s i = (if i = 1 then Some 0 else None)"
  by (simp add: ex_ops_def)

section \<open>Accepted requests\<close>

lemma unat_u32 [simp]: "n < 2 ^ 32 \<Longrightarrow> unat (word_of_nat n :: u32) = n"
  by (simp add: unsigned_of_nat take_bit_nat_eq_self)

lemma reuse_code_accepts:
  assumes "op_QueryByID ops (w_server w) (rq_id rq) = Some old" "verifySum rq (c_secret (w_conns w old))"
    and "c_handshakes (w_conns w old) < rq_handshakes rq" and s: "sends w old h"
    and "unat (rq_received rq) \<le> length h" "length h - unat (rq_received rq) \<le> ring_cap w old"
  shows "reuse_code ops w rq = 200"
proof -
  obtain b v where v: "c_reuseBuffer (w_conns w old) = Some b" "c_out (w_conns w old) = Some v"
    "cw_count v = int (length h)" using s by (auto simp: sends_def)
  have "lb_Len (w_bufs w b) = min (ring_cap w old) (length h)" by (rule sends_len [OF s v(1)])
  moreover have ui: "uint (rq_received rq) = int (unat (rq_received rq))" by simp
  have "uint (rq_received rq) \<le> int (length h)"
    "int (length h) - uint (rq_received rq) \<le> int (min (ring_cap w old) (length h))"
    using assms(5,6) unfolding ui by linarith+
  ultimately show ?thesis using assms v by (auto simp: reuse_code_def Let_def)
qed

lemma sent_on_rx_on: "sent_on c p d (rx_on c xs v) = rx_on c xs (sent_on c p d v)"
proof -
  have "x\<lparr>nc_rx := xs, nc_tx := q\<rparr> = x\<lparr>nc_tx := q, nc_rx := xs\<rparr>" for x :: netconn and q by simp
  note sw = this
  show ?thesis by (cases v) (simp add: sent_on_def rx_on_def upd_net_def, simp only: sw)
qed

text \<open>The client accepts a reply that asks for at most what its ring buffer holds.\<close>

lemma clientReuse_accepts:
  assumes s: "sends w c h" and r: "receives w c k" and good: "nc_good (net_of w c)" and i: "c_id (w_conns w c) \<noteq> 0"
    and n: "n \<le> length h" "n < 2 ^ 32" "length h - n \<le> ring_cap w c"
    and rx: "concat (nc_rx (net_of w c)) = frame (reuseConnResp_marshal \<lparr>rp_received = word_of_nat n, rp_code = 200\<rparr>) @ rest"
  obtains xs d where "concat xs = rest" "clientHandshake c w = (Ok (), rx_on c xs
      (sent_on c (frame (reuseConnReq_marshal (reuse_request (w_conns w c))) @ drop n h) d w))"
proof -
  let ?req = "frame (reuseConnReq_marshal (reuse_request (w_conns w c)))" and ?d = "int (length h) - int n"
  have u: "uint (word_of_nat n :: u32) = int n"
    using unat_u32 [OF n(2)] by (metis uint_nat)
  obtain xs where xs: "concat xs = rest" and "clientReuseHandshake c w =
      (let w1 = rx_on c xs (sent_on c ?req (c_resend (w_conns w c)) w) in
        if ?d < 0 \<or> int (min (ring_cap w c) (length h)) < ?d then (Fail ErrNotAcceptable, w1)
        else retransmit c ?d w1)"
    using clientReuse_reply [OF s r good rx reuseConnResp_short] by (auto simp: u Let_def)
  then have run: "clientHandshake c w = retransmit c ?d (rx_on c xs (sent_on c ?req (c_resend (w_conns w c)) w))"
    using i n by (simp add: clientHandshake_def monad_simps Let_def split: if_splits)
  let ?w1 = "rx_on c xs (sent_on c ?req (c_resend (w_conns w c)) w)"
  have "retransmit c ?d ?w1 = (Ok (), sent_on c (last_n (nat ?d) h) (if 0 < ?d then ?d else c_resend (w_conns ?w1 c)) ?w1)"
    by (rule retransmit_sent) (use s good n in auto)
  moreover have "last_n (nat ?d) h = drop n h" using n(1) by (simp add: last_n_def nat_diff_distrib)
  ultimately show thesis using that [OF xs] run by (simp add: sent_on_rx_on)
qed

section \<open>Properties\<close>

text \<open>C1. A resume loses and repeats nothing. The client \<open>cc\<close> holds a session whose peer is the server's
  connection \<open>old\<close>: each has read a prefix of what the other sent, under the same secret and id, and
  what is missing still fits the ring buffers. When the client's reuse request arrives at a new
  server connection \<open>sc\<close>, the server's handshake succeeds and \<open>sc\<close> takes over the session; when the
  bytes it sends (in whatever pieces) arrive at the client, the client's handshake succeeds, and what
  then lies before each reader decrypts, from the state its cipher is in, to exactly the part of the
  peer's plaintext it had not read.\<close>

theorem resume_end_to_end:
  assumes cl: "streams wc cc k0 outC outS kc" "nc_good (net_of wc cc)" "c_id (w_conns wc cc) \<noteq> 0"
      "int64 (c_id (w_conns wc cc))" "int64 (c_handshakes (w_conns wc cc))"
    and sv: "wf_world ws" "op_QueryByID ops (w_server ws) (c_id (w_conns wc cc)) = Some old"
      "sc \<noteq> old" "c_conn (w_conns ws old) \<noteq> c_conn (w_conns ws sc)" "nc_good (net_of ws sc)"
      "streams ws old k0 outS outC ks" "c_secret (w_conns ws old) = c_secret (w_conns wc cc)"
      "c_handshakes (w_conns ws old) < c_handshakes (w_conns wc cc)"
    and small: "length outS < 2 ^ 32" "length outC < 2 ^ 32"
    and window: "length outS - kc \<le> ring_cap ws old" "length outC - ks \<le> ring_cap wc cc"
    and wire: "concat (nc_rx (net_of ws sc)) = frame (reuseConnReq_marshal (reuse_request (w_conns wc cc))) @ p"
  shows "\<exists>ws' toC. serverHandshake ops sc ws = (Ok (), ws') \<and> streams ws' sc k0 outS outC ks \<and>
     nc_tx (net_of ws' sc) = nc_tx (net_of ws sc) @ toC \<and> concat (nc_rx (net_of ws' sc)) = p \<and>
     (\<forall>xs. concat xs = toC \<longrightarrow> (\<exists>wc' toS. clientHandshake cc (rx_on cc xs wc) = (Ok (), wc') \<and>
        streams wc' cc k0 outC outS kc \<and>
        nc_tx (net_of wc' cc) = nc_tx (net_of wc cc) @ frame (reuseConnReq_marshal (reuse_request (w_conns wc cc))) @ toS \<and>
        fst (XORKeyStream (in_cipher wc' cc) (concat (nc_rx (net_of wc' cc)))) = drop kc outS \<and>
        fst (XORKeyStream (in_cipher ws' sc) toS) = drop ks outC))"
proof -
  let ?hS = "fst (XORKeyStream k0 outS)" and ?hC = "fst (XORKeyStream k0 outC)" and ?rq = "reuse_request (w_conns wc cc)"
  note cl' = cl(1) [unfolded streams_def] and sv' = sv(6) [unfolded streams_def]
  have kk: "kc < 2 ^ 32" "ks < 2 ^ 32" using cl' sv' small by simp_all
  have "rq_received ?rq = word_of_nat kc" using cl' by (auto simp: receives_def)
  then have rcv: "unat (rq_received ?rq) = kc" using kk(1) by simp
  obtain ys where ys: "serverHandshake ops sc ws = serverReuseHandshake ops sc ?rq (rx_on sc ys ws)" "concat ys = p"
    using serverHandshake_reuse [OF _ _ _ _ _ wire] cl sv(5) by (auto simp: nc_good_def)
  have code: "reuse_code ops ws ?rq = 200"
    by (rule reuse_code_accepts [where old = old and h = ?hS]) (use sv sv' cl' rcv window in simp_all)
  have "registered ws sc old ?hS ks" using sv sv' by (simp add: registered_def)
  then obtain ws' where s1: "serverReuseHandshake ops sc ?rq (rx_on sc ys ws) = (Ok (), ws')"
    "nc_tx (net_of ws' sc) = nc_tx (net_of ws sc) @
       frame (reuseConnResp_marshal \<lparr>rp_received = word_of_nat ks, rp_code = 200\<rparr>) @ drop kc ?hS"
    "nc_rx (net_of ws' sc) = ys" "took_over ws old ws' sc ?hS ks"
    using serverReuseHandshake_run [of "rx_on sc ys ws" sc ops ?rq ?hS ks] sv code rcv by auto
  have st: "streams ws' sc k0 outS outC ks" by (rule streams_took_over [OF sv(6) s1(4)])
  have client: "\<exists>wc' toS. clientHandshake cc (rx_on cc xs wc) = (Ok (), wc') \<and>
        streams wc' cc k0 outC outS kc \<and> nc_tx (net_of wc' cc) = nc_tx (net_of wc cc) @ frame (reuseConnReq_marshal ?rq) @ toS \<and>
        fst (XORKeyStream (in_cipher wc' cc) (concat (nc_rx (net_of wc' cc)))) = drop kc outS \<and>
        fst (XORKeyStream (in_cipher ws' sc) toS) = drop ks outC"
    if xs: "concat xs = frame (reuseConnResp_marshal \<lparr>rp_received = word_of_nat ks, rp_code = 200\<rparr>) @ drop kc ?hS" for xs
  proof -
    let ?w = "rx_on cc xs wc"
    obtain zs d where z: "concat zs = drop kc ?hS" "clientHandshake cc ?w = (Ok (), rx_on cc zs
        (sent_on cc (frame (reuseConnReq_marshal ?rq) @ drop ks ?hC) d ?w))" (is "_ = (_, ?w')")
      by (rule clientReuse_accepts [of ?w cc ?hC kc ks "drop kc ?hS"])
        (use cl cl' sv' kk xs window in \<open>simp_all\<close>)
    have sw: "streams ?w' cc k0 outC outS kc" using cl(1) by simp
    show ?thesis
      using z sw streams_missing [OF sw] streams_missing [OF st]
      by (intro exI [of _ ?w'] exI [of _ "drop ks ?hC"]) simp
  qed
  show ?thesis
    using ys s1 st client
    by (intro exI [of _ ws'] exI [of _ "frame (reuseConnResp_marshal \<lparr>rp_received = word_of_nat ks, rp_code = 200\<rparr>) @ drop kc ?hS"]) simp
qed

text \<open>The client has read one byte of three, the server one of two; the client is in its second handshake.\<close>

theorem resume_end_to_end_witness:
  "\<exists>ws'. serverHandshake ex_ops 1
      (ex_world (rc4_NewCipher [1, 2, 3]) [1, 2, 3] [7, 8] 1 0 [frame (reuseConnReq_marshal
        (reuse_request (w_conns (ex_world (rc4_NewCipher [1, 2, 3]) [7, 8] [1, 2, 3] 1 1 []) 0)))]) = (Ok (), ws') \<and>
     streams ws' 1 (rc4_NewCipher [1, 2, 3]) [1, 2, 3] [7, 8] 1"
  using resume_end_to_end [of "ex_world (rc4_NewCipher [1, 2, 3]) [7, 8] [1, 2, 3] 1 1 []" 0 "rc4_NewCipher [1, 2, 3]"
      "[7, 8]" "[1, 2, 3]" 1
      "ex_world (rc4_NewCipher [1, 2, 3]) [1, 2, 3] [7, 8] 1 0 [frame (reuseConnReq_marshal
        (reuse_request (w_conns (ex_world (rc4_NewCipher [1, 2, 3]) [7, 8] [1, 2, 3] 1 1 []) 0)))]" ex_ops 0 1 1 "[]"]
  by (auto simp: int64_def simp del: XORKeyStream_Cons)

lemma ex_reuse:
  defines "w \<equiv> ex_world (rc4_NewCipher [9]) [4, 5] [7] 1 2 []"
    and "rq \<equiv> reuse_request (w_conns (ex_world (rc4_NewCipher [9]) [7] [4, 5] 1 3 []) 0)"
  shows "reuse_code ex_ops w rq = 200" "registered w 1 0 (fst (XORKeyStream (rc4_NewCipher [9]) [4, 5])) 1"
proof -
  have s: "streams w 0 (rc4_NewCipher [9]) [4, 5] [7] 1" by (simp add: w_def)
  have u: "unat (rq_received rq) = 1" by (simp add: rq_def ex_defs)
  show "reuse_code ex_ops w rq = 200"
    by (rule reuse_code_accepts [where old = 0 and h = "fst (XORKeyStream (rc4_NewCipher [9]) [4, 5])"])
      (use s [unfolded streams_def] u in \<open>simp_all add: w_def rq_def del: XORKeyStream_Cons reuse_request_fields(3)\<close>)
  show "registered w 1 0 (fst (XORKeyStream (rc4_NewCipher [9]) [4, 5])) 1"
    using s unfolding registered_def streams_def w_def by simp
qed

text \<open>C6. The server's answer to a reuse request on every branch, as a function of the state before it:
  404 for an id that is not known or whose connection was closed, 401 for a wrong checksum, 403 for a
  handshake count that is not larger than the last one, 406 when the client is ahead of the server
  or too far behind for the ring buffer, and 200 otherwise. The method returns the error of that status, the
  status goes over the wire with a received count of 0 unless it is 200, and with 200 the count of
  the bytes received and the part of the ciphertext the client has not read follow it.\<close>

theorem server_reuse_answer:
  assumes "wf_world w" "nc_good (net_of w c)"
    and "\<forall>old. op_QueryByID ops (w_server w) (rq_id rq) = Some old \<longrightarrow> registered w c old h k"
  shows "\<exists>w'. serverReuseHandshake ops c rq w = (reuse_result (reuse_code ops w rq), w') \<and>
    nc_rx (net_of w' c) = nc_rx (net_of w c) \<and>
    nc_tx (net_of w' c) = nc_tx (net_of w c) @
       (if reuse_code ops w rq = 200
        then frame (reuseConnResp_marshal \<lparr>rp_received = word_of_nat k, rp_code = 200\<rparr>) @ drop (unat (rq_received rq)) h
        else frame (reuseConnResp_marshal \<lparr>rp_received = 0, rp_code = reuse_code ops w rq\<rparr>)) \<and>
    (reuse_code ops w rq = 200 \<longrightarrow> c_handshakes (w_conns w' c) = rq_handshakes rq \<and> sends w' c h \<and> receives w' c k)"
proof -
  obtain w' where w': "serverReuseHandshake ops c rq w = (reuse_result (reuse_code ops w rq), w')"
    "nc_tx (net_of w' c) = nc_tx (net_of w c) @
       (if reuse_code ops w rq = 200
        then frame (reuseConnResp_marshal \<lparr>rp_received = word_of_nat k, rp_code = 200\<rparr>)
             @ drop (unat (rq_received rq)) h
        else frame (reuseConnResp_marshal \<lparr>rp_received = 0, rp_code = reuse_code ops w rq\<rparr>))"
    "nc_rx (net_of w' c) = nc_rx (net_of w c)"
    and tk: "\<And>old. reuse_code ops w rq = 200 \<Longrightarrow> op_QueryByID ops (w_server w) (rq_id rq) = Some old \<Longrightarrow>
       took_over w old w' c h k \<and> c_handshakes (w_conns w' c) = rq_handshakes rq \<and>
       unat (rq_received rq) \<le> length h"
    using serverReuseHandshake_run assms by metis
  have "c_handshakes (w_conns w' c) = rq_handshakes rq \<and> sends w' c h \<and> receives w' c k" if "reuse_code ops w rq = 200"
    using reuse_code_spawn [of ops w rq] tk [OF that] that by (auto simp: took_over_def)
  with w' show ?thesis by simp
qed

theorem server_reuse_answer_witness:
  "\<exists>w'. serverReuseHandshake ex_ops 1 (reuse_request (w_conns (ex_world (rc4_NewCipher [9]) [7] [4, 5] 1 3 []) 0))
      (ex_world (rc4_NewCipher [9]) [4, 5] [7] 1 2 []) = (Ok (), w') \<and> c_handshakes (w_conns w' 1) = 3"
  using server_reuse_answer [of "ex_world (rc4_NewCipher [9]) [4, 5] [7] 1 2 []" 1 ex_ops
    "reuse_request (w_conns (ex_world (rc4_NewCipher [9]) [7] [4, 5] 1 3 []) 0)"
    "fst (XORKeyStream (rc4_NewCipher [9]) [4, 5])" 1] ex_reuse
  by (auto simp del: XORKeyStream_Cons)

lemma nc_writeAll_cases: "(\<exists>e. fst (nc_writeAll p x) = Fail e) \<or> fst (nc_writeAll p x) = Ok ()"
  by (auto simp: nc_writeAll_def split: prod.split option.split)

lemma refused_run:
  assumes "op_QueryByID ops (w_server w) (rq_id rq) = None \<or> reuse_code ops w rq = 401 \<or> reuse_code ops w rq = 403"
  shows "\<exists>e x. serverReuseHandshake ops c rq w = (Fail e, upd_net (c_conn (w_conns w c)) (\<lambda>_. x) w)"
proof -
  have code: "reuse_code ops w rq \<noteq> 200" using assms by (auto simp: reuse_code_def)
  then obtain d where d: "reuse_result (reuse_code ops w rq) = Fail (ScpErr (reuse_code ops w rq) d)"
    using reuse_result_refused [OF reuse_code_range] by blast
  have ck: "serverReuse_check ops c rq w = (Ok (\<lparr>rp_received = 0, rp_code = reuse_code ops w rq\<rparr>, 0), w)"
    using assms by (auto simp: serverReuse_check_def reuse_code_def monad_simps Let_def SCPStatus_defs
        split: option.splits if_splits)
  let ?p = "frame (reuseConnResp_marshal \<lparr>rp_received = 0, rp_code = reuse_code ops w rq\<rparr>)"
    and ?x = "w_nets w (c_conn (w_conns w c))"
  have "upd_net n (\<lambda>y. snd (nc_writeAll ?p y)) w = upd_net n (\<lambda>_. snd (nc_writeAll ?p (w_nets w n))) w" for n
    by (simp add: upd_net_def)
  then have wr: "writeRecord c (reuseConnResp_marshal \<lparr>rp_received = 0, rp_code = reuse_code ops w rq\<rparr>) w =
      (fst (nc_writeAll ?p ?x), upd_net (c_conn (w_conns w c)) (\<lambda>_. snd (nc_writeAll ?p ?x)) w)"
    by (simp add: writeRecord_def monad_simps frame_def)
  show ?thesis
    using nc_writeAll_cases [of ?p ?x] by (auto simp: serverReuseHandshake_def bindM_app ck wr failErr_result d)
qed

text \<open>C18. A request that does not authenticate does no harm: an unknown id, a wrong checksum or an old
  handshake count (a replayed request) changes nothing but the bytes sent on the connection it came
  in on, whatever that connection does, and is answered with an error. The session it names is not frozen.\<close>

theorem refused_request_harmless:
  assumes "op_QueryByID ops (w_server w) (rq_id rq) = None \<or> reuse_code ops w rq = 401 \<or> reuse_code ops w rq = 403"
  shows "\<exists>e x. serverReuseHandshake ops c rq w = (Fail e, upd_net (c_conn (w_conns w c)) (\<lambda>_. x) w)"
  using assms by (rule refused_run)

theorem refused_request_harmless_witness:
  "\<exists>e x. serverReuseHandshake ex_ops 1 (reuse_request (w_conns (ex_world (rc4_NewCipher [9]) [7] [4, 5] 1 2 []) 0))
      (ex_world (rc4_NewCipher [9]) [4, 5] [7] 1 2 []) =
    (Fail e, upd_net 1 (\<lambda>_. x) (ex_world (rc4_NewCipher [9]) [4, 5] [7] 1 2 []))"
proof -
  let ?w = "ex_world (rc4_NewCipher [9]) [4, 5] [7] 1 2 []"
    and ?rq = "reuse_request (w_conns (ex_world (rc4_NewCipher [9]) [7] [4, 5] 1 2 []) 0)"
  have "reuse_code ex_ops ?w ?rq = 403" by (simp add: reuse_code_def)
  from refused_request_harmless [OF disjI2 [OF disjI2 [OF this]], of 1] show ?thesis by simp
qed

text \<open>C38. The received count travels modulo \<open>2^32\<close> (\<open>uint32\<close>) but is subtracted from the full 64-bit count
  of bytes sent. Once the server has sent \<open>2^32\<close> bytes more than its ring buffer holds, no reuse
  request succeeds any more: a well-formed, authentic and recent request is answered 406 whatever
  count it carries, although both ends may be in step.\<close>

theorem resume_lost_after_4GiB:
  assumes "wf_world w" "nc_good (net_of w c)" "op_QueryByID ops (w_server w) (rq_id rq) = Some old"
    "registered w c old h k" "c_reuseBuffer (w_conns w old) \<noteq> None"
    "verifySum rq (c_secret (w_conns w old))" "c_handshakes (w_conns w old) < rq_handshakes rq"
    and long: "2 ^ 32 + ring_cap w old \<le> length h"
  shows "fst (serverReuseHandshake ops c rq w) = Fail ErrNotAcceptable"
proof -
  obtain w' where "reuse_code ops w rq = (if uint (rq_received rq) \<le> int (length h) \<and>
       int (length h) - uint (rq_received rq) \<le> int (min (ring_cap w old) (length h)) then 200 else 406)"
    by (rule serverReuse_check_spawn [OF assms(1,3,4,5,6,7)])
  moreover have "uint (rq_received rq) < 2 ^ 32" using unsigned_less [of "rq_received rq", where 'a = int] by simp
  ultimately have "reuse_code ops w rq = 406" using long by auto
  then obtain w1 where "serverReuseHandshake ops c rq w = (reuse_result 406, w1)"
    using serverReuseHandshake_run [OF assms(1,2), of ops rq h k] assms(3,4) by (metis option.inject)
  then show ?thesis by (simp add: reuse_result_406)
qed

lemma ex_narrow:
  fixes k0 :: rc4 and out :: "byte list"
  defines "w \<equiv> (ex_world k0 out [] 0 0 [])\<lparr>w_bufs := \<lambda>_. \<lparr>buf = last_n 1 (fst (XORKeyStream k0 out)), off = 0, looped = True\<rparr>\<rparr>"
  assumes "out \<noteq> []"
  shows "wf_world w" "nc_good (net_of w 1)" "registered w 1 0 (fst (XORKeyStream k0 out)) 0" "ring_cap w 0 = 1"
    "c_reuseBuffer (w_conns w 0) \<noteq> None" "c_secret (w_conns w 0) = toLeu64 5" "c_handshakes (w_conns w 0) = 0"
proof -
  have l: "length (last_n 1 (fst (XORKeyStream k0 out))) = 1"
    using assms(2) by (cases out) (simp_all only: length_last_n length_XORKeyStream, simp_all)
  then show "ring_cap w 0 = 1" "c_reuseBuffer (w_conns w 0) \<noteq> None" "c_secret (w_conns w 0) = toLeu64 5"
    "c_handshakes (w_conns w 0) = 0" "nc_good (net_of w 1)"
    by (simp_all add: w_def ex_defs ring_cap_def lb_Cap_def nc_good_def net_of_def)
  have "wf_lb \<lparr>buf = last_n 1 (fst (XORKeyStream k0 out)), off = 0, looped = True\<rparr>" unfolding wf_lb_def using l by simp
  then show "wf_world w" "registered w 1 0 (fst (XORKeyStream k0 out)) 0"
    using l by (simp_all add: w_def ex_defs wf_world_def registered_def sends_def receives_def contents_def lb_Cap_def)
qed

theorem resume_lost_after_4GiB_witness:
  "fst (serverReuseHandshake ex_ops 1 (setSum \<lparr>rq_id = 1, rq_handshakes = 1, rq_received = 1, rq_sum = []\<rparr> (toLeu64 5))
     ((ex_world (rc4_NewCipher [9]) (replicate (2 ^ 32 + 1) 0) [] 0 0 [])\<lparr>w_bufs := \<lambda>_. \<lparr>buf =
        last_n 1 (fst (XORKeyStream (rc4_NewCipher [9]) (replicate (2 ^ 32 + 1) 0))), off = 0, looped = True\<rparr>\<rparr>))
   = Fail ErrNotAcceptable"
proof -
  have ne: "replicate (2 ^ 32 + 1) (0 :: byte) \<noteq> []" by simp
  show ?thesis
    by (rule resume_lost_after_4GiB [OF ex_narrow(1,2) [OF ne] _ ex_narrow(3,5) [OF ne]])
      (simp_all only: ex_narrow(4,6,7) [OF ne], simp_all)
qed



end
