(* ===== verification/Scp_Stream.thy ===== *)
theory Scp_Stream
  imports Scp_Resume
begin

text \<open>
  \<open>Write\<close>, \<open>Read\<close>, \<open>Freeze\<close> and \<open>Close\<close> of a connection of \<open>scp/conn.go\<close> after its handshake: every write
  extends the stream of the session whether or not the network takes it, every read returns the
  next bytes of the peer's plaintext, a closed connection gives its ring buffer back once and cannot
  be resumed, and a write that is still under way on a connection that was taken over moves the key stream
  of its successor.
\<close>

section \<open>Handshake of a connection that is done with it\<close>

lemma Handshake_done:
  assumes "c_handshaked (w_conns w c)"
  obtains d where "Handshake ops c w = (Ok (c_connErr (w_conns w c)),
    upd_net (c_conn (w_conns w c)) (\<lambda>y. y\<lparr>nc_deadline := d\<rparr>) w)"
proof (cases "0 < w_HandshakeTimeout w")
  case True
  then show thesis using assms that [of None]
    by (simp add: Handshake_def handshake_once_def monad_simps set_deadline_def upd_net_def Let_def)
next
  case False
  have "upd_net n (\<lambda>y. y\<lparr>nc_deadline := nc_deadline (w_nets w n)\<rparr>) w = w" for n
    by (simp add: upd_net_def fun_upd_idem)
  with False show thesis
    using assms that [of "nc_deadline (w_nets w (c_conn (w_conns w c)))"]
    by (simp add: Handshake_def handshake_once_def monad_simps)
qed

lemma streams_upd_net [simp]: "streams (upd_net n f w) c k0 out inp m = streams w c k0 out inp m"
  by (simp add: streams_def sends_def receives_def out_cipher_def in_cipher_def)

lemma wf_world_upd_net [simp]: "wf_world (upd_net n f w) = wf_world w"
  by (simp add: wf_world_def)

text \<open>What reading and writing leave alone: the other network connections, and which one this is.\<close>

definition same_shell :: "nat \<Rightarrow> 'srv world \<Rightarrow> 'srv world \<Rightarrow> bool" where
  "same_shell c w w' \<longleftrightarrow> c_conn (w_conns w' c) = c_conn (w_conns w c) \<and> c_handshaked (w_conns w' c) = c_handshaked (w_conns w c) \<and>
     c_connErr (w_conns w' c) = c_connErr (w_conns w c) \<and> (\<forall>k. k \<noteq> c_conn (w_conns w c) \<longrightarrow> w_nets w' k = w_nets w k)"

lemma same_shell_refl [simp]: "same_shell c w w"
  by (simp add: same_shell_def)

lemma same_shell_upd_net [simp]: "same_shell c w (upd_net (c_conn (w_conns w c)) f w)"
  by (simp add: same_shell_def)

lemma same_shell_trans: "same_shell c w v \<Longrightarrow> same_shell c v u \<Longrightarrow> same_shell c w u"
  by (simp add: same_shell_def)

section \<open>Writing\<close>

text \<open>The world after \<open>out.Write\<close>.\<close>

definition written :: "nat \<Rightarrow> byte list \<Rightarrow> nat \<Rightarrow> cipherConnWriter \<Rightarrow> 'srv world \<Rightarrow> 'srv world" where
  "written c p b v w =
     (let k = w_ciphers w (cw_cipher v); space = fst (XORKeyStream k p); n = c_conn (w_conns w c) in
      w\<lparr>w_ciphers := (w_ciphers w)(cw_cipher v := snd (XORKeyStream k p)),
        w_conns := (w_conns w)(c := (w_conns w c)\<lparr>c_out := Some (v\<lparr>cw_count := cw_count v + int (length p)\<rparr>)\<rparr>),
        w_bufs := (w_bufs w)(b := snd (lb_Write (w_bufs w b) space)),
        w_nets := (w_nets w)(n := snd (nc_Write space (w_nets w n)))\<rparr>)"

lemma out_Write_run:
  assumes "c_out (w_conns w c) = Some v" "cw_wr v = Some (b, c_conn (w_conns w c))"
  obtains e where "out_Write c p w = (Ok (length p, e), written c p b v w)"
    "e = None \<Longrightarrow> snd (fst (nc_Write (fst (XORKeyStream (out_cipher w c) p)) (net_of w c))) = None"
proof -
  let ?r = "fst (nc_Write (fst (XORKeyStream (out_cipher w c) p)) (net_of w c))"
  let ?e = "if snd ?r \<noteq> None then snd ?r else if fst ?r \<noteq> length p then Some ErrShortWrite else None"
  show thesis
  proof (rule that)
    show "out_Write c p w = (Ok (length p, ?e), written c p b v w)"
      using assms by (simp add: out_Write_def multi_Write_def xor_key_stream_def monad_simps Let_def written_def
          upd_net_def out_cipher_def net_of_def cong: if_cong)
  qed (simp split: if_splits)
qed

lemma written_streams:
  assumes s: "streams w c k0 out inp n"
    and v: "c_reuseBuffer (w_conns w c) = Some b" "c_out (w_conns w c) = Some v"
  shows "streams (written c p b v w) c k0 (out @ p) inp n"
proof -
  let ?h = "fst (XORKeyStream k0 out)" and ?space = "fst (XORKeyStream (w_ciphers w (cw_cipher v)) p)"
    and ?w = "written c p b v w"
  have k: "w_ciphers w (cw_cipher v) = snd (XORKeyStream k0 out)" using s v by (simp add: streams_def out_cipher_def)
  have "lb.tracks (w_bufs w b) ?h" using s v by (auto simp: streams_def sends_def lb.tracks_def)
  then have "lb.tracks (snd (lb_Write (w_bufs w b) ?space)) (?h @ ?space)" by (rule lb.tracks_write)
  moreover have h: "fst (XORKeyStream k0 (out @ p)) = ?h @ ?space" by (simp add: rc4.crypt_append k)
  ultimately have "sends ?w c (fst (XORKeyStream k0 (out @ p)))"
    using s v by (auto simp: streams_def sends_def written_def Let_def lb.tracks_def)
  moreover have "receives ?w c n" using s by (simp add: streams_def receives_def written_def Let_def)
  moreover have "out_cipher ?w c = snd (XORKeyStream k0 (out @ p))"
    by (simp add: out_cipher_def written_def Let_def rc4.crypt_append k)
  moreover have "in_cipher ?w c = in_cipher w c" "cr_cipher (the (c_in (w_conns ?w c))) \<noteq> cw_cipher (the (c_out (w_conns ?w c)))"
    using s v by (auto simp: streams_def in_cipher_def written_def Let_def)
  ultimately show ?thesis using s by (auto simp: streams_def)
qed

text \<open>Everything a write does to a session.\<close>

lemma out_Write_streams:
  assumes s: "streams w c k0 out inp n"
  obtains e w' k where "out_Write c p w = (Ok (length p, e), w')" "streams w' c k0 (out @ p) inp n"
    "nc_tx (net_of w' c) = nc_tx (net_of w c) @ take k (fst (XORKeyStream (out_cipher w c) p))"
    "e = None \<Longrightarrow> k = length p" "same_shell c w w'" "nc_rx (net_of w' c) = nc_rx (net_of w c)"
proof -
  obtain b v where v: "c_reuseBuffer (w_conns w c) = Some b" "c_out (w_conns w c) = Some v"
    "cw_wr v = Some (b, c_conn (w_conns w c))" using s by (auto simp: streams_def sends_def)
  let ?space = "fst (XORKeyStream (out_cipher w c) p)"
  obtain e where e: "out_Write c p w = (Ok (length p, e), written c p b v w)"
    "e = None \<Longrightarrow> snd (fst (nc_Write ?space (net_of w c))) = None"
    using out_Write_run [OF v(2,3)] by metis
  obtain k where k: "nc_tx (snd (nc_Write ?space (net_of w c))) = nc_tx (net_of w c) @ take k ?space"
    "snd (fst (nc_Write ?space (net_of w c))) = None \<Longrightarrow> k = length p"
    using nc_Write_prefix [of ?space "net_of w c"] by (metis length_XORKeyStream prod.collapse)
  have "net_of (written c p b v w) c = snd (nc_Write ?space (net_of w c))"
    using v by (simp add: net_of_def written_def Let_def out_cipher_def)
  moreover have "same_shell c w (written c p b v w)" by (simp add: same_shell_def written_def Let_def)
  moreover have "nc_rx (snd (nc_Write q x)) = nc_rx x" for q x by (simp add: nc_Write_def split: option.split)
  ultimately show thesis using e k written_streams [OF s v(1,2)]
    by (intro that [of e "written c p b v w" k]) simp_all
qed

lemma Conn_Write_streams:
  assumes "streams w c k0 out inp n" "c_handshaked (w_conns w c)" "c_connErr (w_conns w c) = None"
  obtains e w' k where "Conn_Write ops c p w = (Ok (length p, e), w')" "streams w' c k0 (out @ p) inp n"
    "nc_tx (net_of w' c) = nc_tx (net_of w c) @ take k (fst (XORKeyStream (out_cipher w c) p))"
    "e = None \<Longrightarrow> k = length p" "same_shell c w w'" "nc_rx (net_of w' c) = nc_rx (net_of w c)"
proof -
  obtain d where h: "Handshake ops c w = (Ok None, upd_net (c_conn (w_conns w c)) (\<lambda>y. y\<lparr>nc_deadline := d\<rparr>) w)"
    (is "_ = (_, ?w)") using Handshake_done [OF assms(2)] assms(3) by metis
  have "streams ?w c k0 out inp n" using assms(1) by simp
  then obtain e w' k where w': "out_Write c p ?w = (Ok (length p, e), w')" "streams w' c k0 (out @ p) inp n"
    "nc_tx (net_of w' c) = nc_tx (net_of ?w c) @ take k (fst (XORKeyStream (out_cipher ?w c) p))" "e = None \<Longrightarrow> k = length p"
    "same_shell c ?w w'" "nc_rx (net_of w' c) = nc_rx (net_of ?w c)"
    using out_Write_streams by metis
  have eq: "nc_tx (net_of ?w c) = nc_tx (net_of w c)" "out_cipher ?w c = out_cipher w c" "nc_rx (net_of ?w c) = nc_rx (net_of w c)"
    by (simp_all add: net_of_def out_cipher_def)
  have "Conn_Write ops c p w = (Ok (length p, e), w')" using w'(1) by (simp add: Conn_Write_def monad_simps h)
  moreover have "same_shell c w w'" using same_shell_trans [OF same_shell_upd_net w'(5)] .
  ultimately show thesis using that w' unfolding eq by blast
qed

text \<open>On a connection with an error nothing happens but the reset of the deadline.\<close>

lemma Conn_refuses:
  assumes "c_handshaked (w_conns w c)" "c_connErr (w_conns w c) = Some err"
  obtains d where "Conn_Write ops c p w = (Ok (0, Some err), upd_net (c_conn (w_conns w c)) (\<lambda>y. y\<lparr>nc_deadline := d\<rparr>) w)"
    "Conn_Read ops c m w = (Ok ([], Some err), upd_net (c_conn (w_conns w c)) (\<lambda>y. y\<lparr>nc_deadline := d\<rparr>) w)"
proof -
  obtain d where "Handshake ops c w = (Ok (Some err), upd_net (c_conn (w_conns w c)) (\<lambda>y. y\<lparr>nc_deadline := d\<rparr>) w)"
    using Handshake_done [OF assms(1)] assms(2) by metis
  then show thesis by (intro that [of d]) (simp_all add: Conn_Write_def Conn_Read_def monad_simps)
qed

section \<open>Reading\<close>

lemma in_Read_fails:
  assumes "receives w c n" "nc_closed (net_of w c) \<or> nc_rx (net_of w c) = []"
  obtains e where "in_Read c m w = (Fail e, w)"
proof -
  obtain r where r: "c_in (w_conns w c) = Some r" "cr_rd r = Some (c_conn (w_conns w c))"
    using assms(1) by (auto simp: receives_def)
  obtain e where e: "nc_Read m (net_of w c) = (Fail e, net_of w c)"
    using assms(2) by (cases "nc_closed (net_of w c)") (auto simp: nc_Read_def)
  have "upd_net (c_conn (w_conns w c)) (\<lambda>x. snd (nc_Read m x)) w = w"
    using e by (simp add: upd_net_def net_of_def fun_upd_idem)
  then show thesis using r e by (intro that [of e]) (simp add: in_Read_def monad_simps net_of_def)
qed

lemma in_Read_streams:
  assumes s: "streams w c k0 out inp n" and rx: "nc_rx (net_of w c) = x # xs" "\<not> nc_closed (net_of w c)"
    and wire: "concat (nc_rx (net_of w c)) @ later = drop n (fst (XORKeyStream k0 inp))"
  obtains q w' where "in_Read c m w = (Ok q, w')" "length q = min m (length x)" "streams w' c k0 out inp (n + length q)"
    "q = take (length q) (drop n inp)"
    "concat (nc_rx (net_of w' c)) @ later = drop (n + length q) (fst (XORKeyStream k0 inp))" "same_shell c w w'"
proof -
  obtain r where r: "c_in (w_conns w c) = Some r" "cr_rd r = Some (c_conn (w_conns w c))" "cr_count r = int n"
    using s by (auto simp: streams_def receives_def)
  let ?l = "min m (length x)" and ?N = "c_conn (w_conns w c)" and ?a = "cr_cipher r"
  let ?rest = "if m < length x then drop m x # xs else xs"
  have tk: "take m x = take ?l (drop n (fst (XORKeyStream k0 inp)))"
    unfolding wire [symmetric] rx(1) by (simp add: min_def)
  have ln: "n + ?l \<le> length inp"
    using arg_cong [OF wire, of length] rx(1) s by (auto simp: streams_def)
  have kin: "w_ciphers w ?a = snd (XORKeyStream k0 (take n inp))" using s r by (simp add: streams_def in_cipher_def)
  have xk: "XORKeyStream (w_ciphers w ?a) (take m x) = (take ?l (drop n inp), snd (XORKeyStream k0 (take (n + ?l) inp)))"
    unfolding kin tk by (rule rc4.crypt_segment [OF ln])
  define w' where "w' = w\<lparr>w_nets := (w_nets w)(?N := (w_nets w ?N)\<lparr>nc_rx := ?rest\<rparr>),
      w_ciphers := (w_ciphers w)(?a := snd (XORKeyStream k0 (take (n + ?l) inp))),
      w_conns := (w_conns w)(c := (w_conns w c)\<lparr>c_in := Some (r\<lparr>cr_count := int n + int ?l\<rparr>)\<rparr>)\<rparr>"
  have "nc_Read m (w_nets w ?N) = (Ok (take m x), (w_nets w ?N)\<lparr>nc_rx := ?rest\<rparr>)"
    using rx by (simp add: nc_Read_def net_of_def)
  then have run: "in_Read c m w = (Ok (take ?l (drop n inp)), w')"
    using r xk by (simp add: in_Read_def xor_key_stream_def monad_simps upd_net_def w'_def min.commute)
  have len: "length (take ?l (drop n inp)) = ?l" using ln by simp
  have "streams w' c k0 out inp (n + ?l)"
    using s r ln by (auto simp: streams_def sends_def receives_def out_cipher_def in_cipher_def w'_def)
  moreover have "concat (nc_rx (net_of w' c)) @ later = drop (n + ?l) (fst (XORKeyStream k0 inp))"
  proof -
    have "drop (n + ?l) (fst (XORKeyStream k0 inp)) = drop ?l (x @ concat xs @ later)"
      using arg_cong [OF wire, of "drop ?l"] rx(1) by (simp add: add.commute)
    then show ?thesis by (simp add: w'_def net_of_def min_def)
  qed
  moreover have "same_shell c w w'" by (simp add: same_shell_def w'_def)
  ultimately show thesis using that [OF run] len by simp
qed

lemma Conn_Read_streams:
  assumes s: "streams w c k0 out inp n" "c_handshaked (w_conns w c)" "c_connErr (w_conns w c) = None"
    and wire: "concat (nc_rx (net_of w c)) @ later = drop n (fst (XORKeyStream k0 inp))"
  obtains q e w' where "Conn_Read ops c m w = (Ok (q, e), w')" "q = take (length q) (drop n inp)" "length q \<le> m"
    "e \<noteq> None \<Longrightarrow> q = []" "streams w' c k0 out inp (n + length q)"
    "concat (nc_rx (net_of w' c)) @ later = drop (n + length q) (fst (XORKeyStream k0 inp))" "same_shell c w w'"
proof -
  obtain d where h: "Handshake ops c w = (Ok None, upd_net (c_conn (w_conns w c)) (\<lambda>y. y\<lparr>nc_deadline := d\<rparr>) w)"
    (is "_ = (_, ?w)") using Handshake_done [OF s(2)] s(3) by metis
  have s': "streams ?w c k0 out inp n" using s(1) by simp
  have wire': "concat (nc_rx (net_of ?w c)) @ later = drop n (fst (XORKeyStream k0 inp))"
    using wire by (simp add: net_of_def)
  consider "m = 0" | "0 < m" "nc_closed (net_of ?w c) \<or> nc_rx (net_of ?w c) = []"
    | x xs where "0 < m" "nc_rx (net_of ?w c) = x # xs" "\<not> nc_closed (net_of ?w c)"
    by (metis gr0I list.exhaust)
  then show thesis
  proof cases
    case 1
    then show thesis using s' wire' by (intro that [of "[]" None ?w]) (simp_all add: Conn_Read_def monad_simps h)
  next
    case 2
    obtain e where "in_Read c m ?w = (Fail e, ?w)"
      using in_Read_fails [OF _ 2(2)] s'[unfolded streams_def] by metis
    then show thesis using 2 s' wire' by (intro that [of "[]" "Some e" ?w]) (simp_all add: Conn_Read_def monad_simps h)
  next
    case 3
    obtain q w' where q: "in_Read c m ?w = (Ok q, w')" "length q = min m (length x)" "streams w' c k0 out inp (n + length q)"
      "q = take (length q) (drop n inp)"
      "concat (nc_rx (net_of w' c)) @ later = drop (n + length q) (fst (XORKeyStream k0 inp))" "same_shell c ?w w'"
      using in_Read_streams [OF s' 3(2,3) wire'] by metis
    then have "Conn_Read ops c m w = (Ok (q, None), w')" using 3 by (simp add: Conn_Read_def monad_simps h)
    then show thesis using q same_shell_trans [OF same_shell_upd_net q(6)] by (intro that [of q None w']) simp_all
  qed
qed

section \<open>Closing\<close>

lemma pool_put_run:
  assumes "wf_world w" "c_reuseBuffer (w_conns w c) = Some b"
  shows "wf_world (snd (bindM (pool_put b) (\<lambda>_. upd_conn c (\<lambda>cc. cc\<lparr>c_reuseBuffer := None\<rparr>)) w))"
    "fst (bindM (pool_put b) (\<lambda>_. upd_conn c (\<lambda>cc. cc\<lparr>c_reuseBuffer := None\<rparr>)) w) = Ok ()"
  using assms by (auto simp: pool_put_def monad_simps wf_world_def)

lemma wf_world_freeze: "wf_world w \<Longrightarrow> wf_world (snd (freeze c w))"
  by (rule freeze_run [of c w]) (auto intro: wf_world_cong)

lemma freeze_closes:
  obtains w' where "freeze c w = (Ok (), w')" "c_frozen (w_conns w' c)"
    "\<And>d. c_reuseBuffer (w_conns w' d) = c_reuseBuffer (w_conns w d)"
    "\<And>d. c_conn (w_conns w' d) = c_conn (w_conns w d)"
    "\<not> c_frozen (w_conns w c) \<Longrightarrow> nc_closed (net_of w' c) \<and> c_connErr (w_conns w' c) \<noteq> None"
    "c_frozen (w_conns w c) \<Longrightarrow> w' = w" "w_pool w' = w_pool w" "w_bufs w' = w_bufs w"
    "w_ReuseBufferSize w' = w_ReuseBufferSize w"
proof (rule freeze_run [of c w])
  fix e nt
  assume f: "freeze c w = (Ok (), w\<lparr>w_conns := (w_conns w)(c := (w_conns w c)\<lparr>c_frozen := True, c_connErr := e\<rparr>),
       w_nets := (w_nets w)(c_conn (w_conns w c) := nt)\<rparr>)" (is "_ = (_, ?w1)")
    "c_frozen (w_conns w c) \<Longrightarrow> e = c_connErr (w_conns w c) \<and> nt = net_of w c"
    "\<not> c_frozen (w_conns w c) \<Longrightarrow> e \<noteq> None \<and> nt = snd (nc_Close (net_of w c))"
  have "freeze c w = (Ok (), w)" if "c_frozen (w_conns w c)" using that by (simp add: freeze_def monad_simps)
  with f(1) have "c_frozen (w_conns w c) \<Longrightarrow> ?w1 = w" by simp
  moreover have "nc_closed (snd (nc_Close x))" for x by (simp add: nc_Close_def)
  ultimately show thesis using f by (intro that [of ?w1]) (auto simp: net_of_def)
qed

section \<open>Properties\<close>

text \<open>C7. A write is never lost to the session. After the handshake \<open>Write(b)\<close> reports the full length
  whatever the network does; the ciphertext of \<open>b\<close> is appended to the stream of the session (in the count,
  the cipher state and the ring buffer) also when the network takes only a part of it or none, what the
  network takes is a prefix of it, and when no error is reported the network took all.\<close>

theorem write_extends_stream:
  assumes "streams w c k0 out inp n" "c_handshaked (w_conns w c)" "c_connErr (w_conns w c) = None"
  shows "\<exists>e w' k. Conn_Write ops c b w = (Ok (length b, e), w') \<and> streams w' c k0 (out @ b) inp n \<and>
    nc_tx (net_of w' c) = nc_tx (net_of w c) @ take k (fst (XORKeyStream (out_cipher w c) b)) \<and>
    (e = None \<longrightarrow> k = length b)"
  using Conn_Write_streams [OF assms, of ops b] by metis

theorem write_extends_stream_witness:
  "\<exists>e w' k. Conn_Write ex_ops 0 [3] (ex_world (rc4_NewCipher [9]) [1, 2] [7] 1 0 []) = (Ok (1, e), w') \<and>
    streams w' 0 (rc4_NewCipher [9]) [1, 2, 3] [7] 1 \<and> (e = None \<longrightarrow> k = 1)"
  using write_extends_stream [of "ex_world (rc4_NewCipher [9]) [1, 2] [7] 1 0 []" 0 "rc4_NewCipher [9]" "[1, 2]" "[7]" 1 ex_ops "[3]"]
  by (auto simp del: XORKeyStream_Cons)

text \<open>C8. A read returns the next bytes of the peer's plaintext. If what lies before the connection on
  the network is the continuation of the peer's ciphertext, cut into any pieces, \<open>Read\<close> returns either
  an error and no bytes, or the plaintext bytes that follow those already read; the count and the
  cipher state advance by exactly that number.\<close>

theorem read_continues_plaintext:
  assumes s: "streams w c k0 out inp n" "c_handshaked (w_conns w c)" "c_connErr (w_conns w c) = None"
    and wire: "concat (nc_rx (net_of w c)) @ later = drop n (fst (XORKeyStream k0 inp))"
  shows "\<exists>q e w'. Conn_Read ops c m w = (Ok (q, e), w') \<and> q = take (length q) (drop n inp) \<and> length q \<le> m \<and>
    (e \<noteq> None \<longrightarrow> q = []) \<and> streams w' c k0 out inp (n + length q) \<and>
    concat (nc_rx (net_of w' c)) @ later = drop (n + length q) (fst (XORKeyStream k0 inp))"
  using Conn_Read_streams [OF assms, of ops m] by metis

theorem read_continues_plaintext_witness:
  "\<exists>q e w'. Conn_Read ex_ops 0 5 (ex_world (rc4_NewCipher [9]) [1] [7, 8] 1 0
      [drop 1 (fst (XORKeyStream (rc4_NewCipher [9]) [7, 8]))]) = (Ok (q, e), w') \<and> q = take (length q) [8]"
  using read_continues_plaintext [of "ex_world (rc4_NewCipher [9]) [1] [7, 8] 1 0
      [drop 1 (fst (XORKeyStream (rc4_NewCipher [9]) [7, 8]))]" 0 "rc4_NewCipher [9]" "[1]" "[7, 8]" 1 "[]" ex_ops 5]
  by (auto simp del: XORKeyStream_Cons)

lemma Conn_Close_run:
  assumes "wf_world w"
  obtains w' where "Conn_Close c w = (Ok (), w')" "wf_world w'" "c_frozen (w_conns w' c)" "c_reuseBuffer (w_conns w' c) = None"
    "\<not> c_frozen (w_conns w c) \<Longrightarrow> nc_closed (net_of w' c) \<and> c_connErr (w_conns w' c) \<noteq> None"
proof -
  obtain w1 where f: "freeze c w = (Ok (), w1)" "c_frozen (w_conns w1 c)"
    "\<not> c_frozen (w_conns w c) \<Longrightarrow> nc_closed (net_of w1 c) \<and> c_connErr (w_conns w1 c) \<noteq> None"
    using freeze_closes [of c w] by metis
  have wf1: "wf_world w1" using wf_world_freeze [OF assms, of c] f(1) by simp
  show thesis
  proof (cases "c_reuseBuffer (w_conns w1 c)")
    case None
    then have "Conn_Close c w = (Ok (), w1)" by (simp add: Conn_Close_def monad_simps f(1))
    then show thesis using that f wf1 None by blast
  next
    case (Some b)
    let ?m = "bindM (pool_put b) (\<lambda>_. upd_conn c (\<lambda>cc. cc\<lparr>c_reuseBuffer := None\<rparr>))"
    have "Conn_Close c w = ?m w1" using Some by (simp add: Conn_Close_def monad_simps f(1))
    also have "\<dots> = (Ok (), snd (?m w1))" using pool_put_run(2) [OF wf1 Some] by (metis prod.collapse)
    finally show thesis
    proof (rule that)
      show "wf_world (snd (?m w1))" by (rule pool_put_run(1) [OF wf1 Some])
    qed (use f in \<open>auto simp: pool_put_def monad_simps net_of_def\<close>)
  qed
qed



text \<open>C39. \<open>deepCopyCipherConnWriter\<close> does not copy the cipher: \<open>&(*out.cipher)\<close> is the old pointer. A write
  that passed the handshake check before the connection was taken over and reaches the cipher after it
  moves the key stream of the successor without its count, so the two ends no longer agree.\<close>

theorem stale_write_moves_key_stream:
  assumes "wf_world w" "c \<noteq> old" "sends w old h" "receives w old k"
  shows "\<exists>w1 w2 e. spawn old c w = (Ok True, w1) \<and> out_Write old b w1 = (Ok (length b, e), w2) \<and>
    out_cipher w2 c = snd (XORKeyStream (out_cipher w1 c) b) \<and>
    cw_count (the (c_out (w_conns w2 c))) = cw_count (the (c_out (w_conns w1 c)))"
proof -
  obtain ob v where v: "c_reuseBuffer (w_conns w old) = Some ob" "c_out (w_conns w old) = Some v"
    "cw_wr v = Some (ob, c_conn (w_conns w old))" using assms(3) by (auto simp: sends_def)
  obtain u where u: "c_in (w_conns w old) = Some u" using assms(4) by (auto simp: receives_def)
  obtain w1 b' e' where w1: "spawn old c w = (Ok True, w1)"
    "w_conns w1 = (w_conns w)(old := (w_conns w old)\<lparr>c_frozen := True, c_connErr := e'\<rparr>,
       c := spawned (w_conns w old) u v b' (w_conns w c))"
    using spawn_run [OF assms(1,2) v(1) u v(2)] by metis
  have o: "c_out (w_conns w1 old) = Some v" "cw_wr v = Some (ob, c_conn (w_conns w1 old))"
    using v w1(2) assms(2) by simp_all
  obtain e where "out_Write old b w1 = (Ok (length b, e), written old b ob v w1)"
    using out_Write_run [OF o] by metis
  moreover have "out_cipher (written old b ob v w1) c = snd (XORKeyStream (out_cipher w1 c) b)"
    "cw_count (the (c_out (w_conns (written old b ob v w1) c))) = cw_count (the (c_out (w_conns w1 c)))"
    using assms(2) w1(2) by (simp_all add: out_cipher_def written_def Let_def spawned_def)
  ultimately show ?thesis using w1(1) by blast
qed

theorem stale_write_moves_key_stream_witness:
  "\<exists>w1 w2 e. spawn 0 1 (ex_world (rc4_NewCipher [9]) [1] [7] 1 0 []) = (Ok True, w1) \<and>
    out_Write 0 [2, 2] w1 = (Ok (2, e), w2) \<and> out_cipher w2 1 = snd (XORKeyStream (out_cipher w1 1) [2, 2])"
proof -
  have s: "streams (ex_world (rc4_NewCipher [9]) [1] [7] 1 0 []) 0 (rc4_NewCipher [9]) [1] [7] 1" by simp
  then show ?thesis
    using stale_write_moves_key_stream [of "ex_world (rc4_NewCipher [9]) [1] [7] 1 0 []" 1 0
        "fst (XORKeyStream (rc4_NewCipher [9]) [1])" 1 "[2, 2]"]
    unfolding streams_def by (auto simp del: XORKeyStream_Cons)
qed

end
