(* ===== verification/Scp_Connect.thy ===== *)
theory Scp_Connect
  imports Scp_Stream
begin

text \<open>
  The handshake of a new connection (\<open>clientNewHandshake\<close> and \<open>serverNewHandshake\<close> of \<open>scp/conn.go\<close>), end to
  end: the key exchange of \<open>dh64\<close>, the id the server hands out, and the two half connections that start
  with the same key. Also what a client achieves with the public key 0.
\<close>

section \<open>Private keys\<close>

lemma PrivateKey_nonzero:
  assumes "PrivateKey r i = Some y"
  shows "fst y \<noteq> 0"
proof (rule PrivateKey.raw_induct [where P = "\<lambda>r i y. fst y \<noteq> 0", OF _ assms])
  fix pk r i y
  assume "\<And>r i y. pk r i = Some y \<Longrightarrow> fst y \<noteq> (0 :: u64)"
    and "(if r i \<noteq> 0 then Some (r i, Suc i) else pk r (Suc i)) = Some y"
  then show "fst y \<noteq> (0 :: u64)" by (auto split: if_splits)
qed

section \<open>Setting up a session\<close>

text \<open>A buffer taken from the pool and given to one connection keeps the ownership invariant.\<close>

lemma wf_world_take:
  assumes wf: "wf_world w" and x: "wf_lb x" "b < k" "w_next w \<le> k" "b \<notin> set ps" "distinct ps" "set ps \<subseteq> set (w_pool w)"
    and fresh: "\<And>d. c_reuseBuffer (w_conns w d) \<noteq> Some b"
    and w': "w_pool w' = ps" "k \<le> w_next w'" "w_bufs w' = (w_bufs w)(b := x)"
      "\<And>d. c_reuseBuffer (w_conns w' d) = (if d = c then Some b else c_reuseBuffer (w_conns w d))"
  shows "wf_world w'"
proof -
  have pool: "a < w_next w' \<and> wf_lb (w_bufs w' a)" if "a \<in> set ps" for a
  proof -
    have "a \<in> set (w_pool w)" "a \<noteq> b" using that x(4,6) by auto
    then have "a < w_next w" "wf_lb (w_bufs w a)" using wf by (auto simp: wf_world_def)
    with \<open>a \<noteq> b\<close> x(3) w'(2,3) show ?thesis by simp
  qed
  have used: "a < w_next w' \<and> a \<notin> set ps \<and> wf_lb (w_bufs w' a)" if "c_reuseBuffer (w_conns w' d) = Some a" for d a
  proof (cases "d = c")
    case True
    then show ?thesis using that w' x by simp
  next
    case False
    then have d: "c_reuseBuffer (w_conns w d) = Some a" using that w'(4) by simp
    then have "a < w_next w" "a \<notin> set (w_pool w)" "wf_lb (w_bufs w a)" using wf by (auto simp: wf_world_def)
    moreover have "a \<noteq> b" using fresh d by auto
    ultimately show ?thesis using x(3,6) w'(2,3) by auto
  qed
  have one: "d = d'" if "c_reuseBuffer (w_conns w' d) = Some a" "c_reuseBuffer (w_conns w' d') = Some a" for d d' a
    using that wf fresh unfolding w'(4) wf_world_def by (auto split: if_splits)
  show ?thesis
    unfolding wf_world_def w'(1) using x(5) pool used one by blast
qed

lemma initNewConn_run:
  assumes wf: "wf_world w"
  obtains w' where "initNewConn c i s w = (Ok (), w')" "streams w' c (rc4_NewCipher (rc4_key s)) [] [] 0"
    "c_id (w_conns w' c) = i" "c_secret (w_conns w' c) = s" "\<not> c_reused (w_conns w' c)"
    "c_conn (w_conns w' c) = c_conn (w_conns w c)" "c_config (w_conns w' c) = c_config (w_conns w c)"
    "w_nets w' = w_nets w" "w_server w' = w_server w" "wf_world w'"
proof -
  let ?w1 = "w\<lparr>w_conns := (w_conns w)(c := (w_conns w c)\<lparr>c_id := i, c_secret := s\<rparr>)\<rparr>"
  have wf1: "wf_world ?w1" by (rule wf_world_cong [OF wf]) auto
  obtain b x ps k where pg: "pool_get ?w1 = (Ok b, ?w1\<lparr>w_bufs := (w_bufs ?w1)(b := x), w_pool := ps, w_next := k\<rparr>)"
    and x: "wf_lb x" "contents x = []" "b < k" "w_next ?w1 \<le> k" "b \<notin> set ps" "distinct ps" "set ps \<subseteq> set (w_pool ?w1)"
    and fresh: "\<And>c. c_reuseBuffer (w_conns ?w1 c) \<noteq> Some b"
    using pool_get_run [OF wf1] by metis
  let ?k0 = "rc4_NewCipher (rc4_key s)" and ?n = "c_conn (w_conns w c)"
  define w' where "w' = ?w1\<lparr>w_bufs := (w_bufs w)(b := x), w_pool := ps, w_next := Suc (Suc k),
    w_ciphers := (w_ciphers w)(k := ?k0, Suc k := ?k0),
    w_conns := (w_conns w)(c := (w_conns w c)\<lparr>c_id := i, c_secret := s, c_reuseBuffer := Some b,
      c_in := Some \<lparr>cr_rd = Some ?n, cr_cipher = k, cr_count = 0\<rparr>,
      c_out := Some \<lparr>cw_wr = Some (b, ?n), cw_cipher = Suc k, cw_count = 0\<rparr>, c_reused := False\<rparr>)\<rparr>"
  have run: "initNewConn c i s w = (Ok (), w')"
    using pg by (simp add: initNewConn_def newCipherConnReader_def newCipherConnWriter_def alloc_cipher_def
        monad_simps SetReader_def SetWriter_def w'_def)
  show thesis
  proof (rule that [OF run])
    show "streams w' c ?k0 [] [] 0"
      using x by (simp add: streams_def sends_def receives_def out_cipher_def in_cipher_def w'_def)
    show "wf_world w'"
      by (rule wf_world_take [OF wf1 x(1,3-7) fresh, where c = c]) (simp_all add: w'_def)
  qed (simp_all add: w'_def)
qed

section \<open>The two handshakes\<close>

text \<open>The request of a client, for a public key.\<close>

definition new_request :: "Config \<Rightarrow> u64 \<Rightarrow> newConnReq" where
  "new_request cf kx = \<lparr>nq_id = 0, nq_key = toLeu64 kx, nq_targetServer = cf_TargetServer cf, nq_flag = cf_Flag cf\<rparr>"

text \<open>What the two ends agree on.\<close>

definition established :: "'srv world \<Rightarrow> nat \<Rightarrow> int \<Rightarrow> leu64 \<Rightarrow> bool" where
  "established w c i s \<longleftrightarrow> streams w c (rc4_NewCipher (rc4_key s)) [] [] 0 \<and> c_id (w_conns w c) = i \<and>
     c_secret (w_conns w c) = s \<and> \<not> c_reused (w_conns w c) \<and> wf_world w"

lemma new_request_short:
  assumes "length (cf_TargetServer cf) < 60000" "int64 (cf_Flag cf)"
  shows "length (newConnReq_marshal (new_request cf kx)) < 65536"
  using assms length_itoa [OF assms(2)] length_itoa [of 0]
  by (simp add: newConnReq_marshal_def new_request_def length_b64encodeLeu64 del: str_bytes_append)

lemma newConnResp_short: "int64 (np_id r) \<Longrightarrow> wf_leu64 (np_key r) \<Longrightarrow> length (newConnResp_marshal r) < 65536"
  using length_itoa [of "np_id r"] by (simp add: newConnResp_marshal_def length_b64encodeLeu64 del: str_bytes_append)

lemma serverNewHandshake_run:
  assumes wf: "wf_world w" and good: "nc_good (net_of w c)" and y: "PrivateKey (w_rand w) (w_rpos w) = Some (y, j)"
    and ky: "PublicKey y = Some (Ok ky)" and t: "Secret y (Uint64 (nq_key nq)) = Some (Ok t)"
  obtains w' where "serverNewHandshake ops c nq w = (Ok (), w')"
    "established w' c (fst (op_AcquireID ops (w_server w))) (toLeu64 t)"
    "nc_tx (net_of w' c) = nc_tx (net_of w c) @
       frame (newConnResp_marshal \<lparr>np_id = fst (op_AcquireID ops (w_server w)), np_key = toLeu64 ky\<rparr>)"
    "nc_rx (net_of w' c) = nc_rx (net_of w c)" "w_server w' = snd (op_AcquireID ops (w_server w))"
    "cf_TargetServer (c_config (w_conns w' c)) = nq_targetServer nq" "cf_Flag (c_config (w_conns w' c)) = nq_flag nq"
proof -
  let ?i = "fst (op_AcquireID ops (w_server w))" and ?s' = "snd (op_AcquireID ops (w_server w))"
  let ?resp = "frame (newConnResp_marshal \<lparr>np_id = ?i, np_key = toLeu64 ky\<rparr>)"
  let ?w1 = "w\<lparr>w_rpos := j, w_server := ?s'\<rparr>"
  let ?w2 = "sent_on c ?resp (c_resend (w_conns w c)) ?w1"
  have g: "nc_good (net_of ?w1 c)" using good by (simp add: net_of_def)
  have "wf_world ?w2" unfolding sent_on_session by (rule wf_world_cong [OF wf]) simp_all
  then obtain w3 where w3: "initNewConn c ?i (toLeu64 t) ?w2 = (Ok (), w3)"
    "streams w3 c (rc4_NewCipher (rc4_key (toLeu64 t))) [] [] 0"
    "c_id (w_conns w3 c) = ?i" "c_secret (w_conns w3 c) = toLeu64 t" "\<not> c_reused (w_conns w3 c)"
    "c_conn (w_conns w3 c) = c_conn (w_conns ?w2 c)" "w_nets w3 = w_nets ?w2" "w_server w3 = w_server ?w2" "wf_world w3"
    using initNewConn_run by metis
  let ?f = "\<lambda>cc. cc\<lparr>c_config := (c_config cc)\<lparr>cf_TargetServer := nq_targetServer nq, cf_Flag := nq_flag nq\<rparr>\<rparr>"
  let ?w4 = "w3\<lparr>w_conns := (w_conns w3)(c := ?f (w_conns w3 c))\<rparr>"
  have run: "serverNewHandshake ops c nq w = (Ok (), ?w4)"
    by (simp add: serverNewHandshake_def draw_PrivateKey_def AcquireID_srv_def monad_simps y ky t
        writeRecord_sent [OF g, simplified] w3(1))
  have "streams ?w4 c (rc4_NewCipher (rc4_key (toLeu64 t))) [] [] 0"
    using w3(2) by (simp add: streams_def sends_def receives_def out_cipher_def in_cipher_def)
  moreover have "wf_world ?w4" by (rule wf_world_upd_conn [OF w3(9)]) simp
  ultimately have "established ?w4 c ?i (toLeu64 t)" using w3 by (simp add: established_def)
  moreover have "net_of ?w4 c = net_of ?w2 c" using w3(6,7) by (simp add: net_of_def)
  moreover have "nc_tx (net_of ?w2 c) = nc_tx (net_of w c) @ ?resp" "nc_rx (net_of ?w2 c) = nc_rx (net_of w c)"
    by (simp_all, simp_all add: net_of_def)
  ultimately show thesis using w3 by (intro that [OF run]) simp_all
qed

lemma clientNewHandshake_run:
  assumes wf: "wf_world w" and good: "nc_good (net_of w c)" and x: "PrivateKey (w_rand w) (w_rpos w) = Some (x, j)"
    and kx: "PublicKey x = Some (Ok kx)" and t: "Secret x (Uint64 (np_key np)) = Some (Ok t)"
    and np: "np_id np \<noteq> 0" "int64 (np_id np)" "wf_leu64 (np_key np)"
    and rx: "concat (nc_rx (net_of w c)) = frame (newConnResp_marshal np) @ rest"
  obtains w' where "clientNewHandshake c w = (Ok (), w')" "established w' c (np_id np) (toLeu64 t)"
    "nc_tx (net_of w' c) = nc_tx (net_of w c) @ frame (newConnReq_marshal (new_request (c_config (w_conns w c)) kx))"
    "concat (nc_rx (net_of w' c)) = rest"
proof -
  let ?rq = "frame (newConnReq_marshal (new_request (c_config (w_conns w c)) kx))"
  let ?w1 = "w\<lparr>w_rpos := j\<rparr>"
  let ?w2 = "sent_on c ?rq (c_resend (w_conns w c)) ?w1"
  have g: "nc_good (net_of ?w1 c)" using good by (simp add: net_of_def)
  have "nc_good (net_of ?w2 c)" using g by simp
  then have "\<not> nc_closed (net_of ?w2 c)" unfolding nc_good_def by blast
  moreover have "concat (nc_rx (net_of ?w2 c)) = frame (newConnResp_marshal np) @ rest"
    using rx by (simp, simp add: net_of_def)
  ultimately obtain xs where xs: "readRecord c newConnResp_unmarshal ?w2 = (Ok np, rx_on c xs ?w2)" "concat xs = rest"
    using readRecord_ok [OF _ _ newConnResp_short [OF np(2,3)], of ?w2 c rest newConnResp_unmarshal]
      newConnResp_roundtrip [OF np(2,3)] unfolding rx_on_def by metis
  have "wf_world (rx_on c xs ?w2)" unfolding rx_on_session sent_on_session by (rule wf_world_cong [OF wf]) simp_all
  then obtain w3 where w3: "initNewConn c (np_id np) (toLeu64 t) (rx_on c xs ?w2) = (Ok (), w3)"
    "streams w3 c (rc4_NewCipher (rc4_key (toLeu64 t))) [] [] 0"
    "c_id (w_conns w3 c) = np_id np" "c_secret (w_conns w3 c) = toLeu64 t" "\<not> c_reused (w_conns w3 c)"
    "c_conn (w_conns w3 c) = c_conn (w_conns (rx_on c xs ?w2) c)" "w_nets w3 = w_nets (rx_on c xs ?w2)" "wf_world w3"
    using initNewConn_run by metis
  have run: "clientNewHandshake c w = (Ok (), w3)"
    using np(1) by (simp add: clientNewHandshake_def draw_PrivateKey_def monad_simps x kx t xs(1) w3(1)
        writeRecord_sent [OF g, simplified] flip: new_request_def)
  have "net_of w3 c = net_of (rx_on c xs ?w2) c" using w3(6,7) by (simp add: net_of_def)
  moreover have "nc_tx (net_of ?w2 c) = nc_tx (net_of w c) @ ?rq" by (simp, simp add: net_of_def)
  ultimately show thesis
    using w3 xs(2) by (intro that [OF run]) (simp_all add: established_def)
qed

lemma serverHandshake_new:
  assumes "\<not> nc_closed (net_of w c)" "CHR 0x0A \<notin> set (cf_TargetServer cf)" "length (cf_TargetServer cf) < 60000"
    "int64 (cf_Flag cf)" and rx: "concat (nc_rx (net_of w c)) = frame (newConnReq_marshal (new_request cf kx)) @ p"
  obtains xs where "serverHandshake ops c w = serverNewHandshake ops c (new_request cf kx) (rx_on c xs w)" "concat xs = p"
proof -
  have "serverReq_unmarshal (newConnReq_marshal (new_request cf kx)) = Ok (NewReq (new_request cf kx))"
    using assms by (simp add: serverReq_new newConnReq_roundtrip new_request_def map_res_def)
  then obtain xs where "readRecord c serverReq_unmarshal w = (Ok (NewReq (new_request cf kx)), rx_on c xs w)" "concat xs = p"
    using readRecord_ok [OF assms(1) rx new_request_short [OF assms(3,4)], of serverReq_unmarshal]
    unfolding rx_on_def by metis
  then show thesis using that by (simp add: serverHandshake_def bindM_app)
qed

section \<open>Properties\<close>

text \<open>C2. A new connection is set up alike at both ends. When the request of a client (with a private key \<open>x\<close>,
  drawn by \<open>PrivateKey\<close>) arrives at the server, the server answers with an id and its public key and
  both handshakes succeed, whatever pieces the reply arrives in: the two ends hold the same id and the same
  secret, \<open>5^(x*y) mod (2^64 - 59)\<close>, their counts are 0, all four cipher states are those of the same key, and
  the server knows the target and the flag the client asked for.\<close>

theorem new_session_agreement:
  assumes cl: "wf_world wc" "nc_good (net_of wc cc)" "c_id (w_conns wc cc) = 0"
      "PrivateKey (w_rand wc) (w_rpos wc) = Some (x, jx)" "PublicKey x = Some (Ok kx)"
      "CHR 0x0A \<notin> set (cf_TargetServer (c_config (w_conns wc cc)))"
      "length (cf_TargetServer (c_config (w_conns wc cc))) < 60000" "int64 (cf_Flag (c_config (w_conns wc cc)))"
    and sv: "wf_world ws" "nc_good (net_of ws sc)" "PrivateKey (w_rand ws) (w_rpos ws) = Some (y, jy)"
      "op_AcquireID ops (w_server ws) = (i, s')" "i \<noteq> 0" "int64 i"
    and wire: "concat (nc_rx (net_of ws sc)) = frame (newConnReq_marshal (new_request (c_config (w_conns wc cc)) kx)) @ p"
  shows "\<exists>ws' toC t. unat t = 5 ^ (unat x * unat y) mod (2 ^ 64 - 59) \<and>
     serverHandshake ops sc ws = (Ok (), ws') \<and> established ws' sc i (toLeu64 t) \<and> w_server ws' = s' \<and>
     cf_TargetServer (c_config (w_conns ws' sc)) = cf_TargetServer (c_config (w_conns wc cc)) \<and>
     cf_Flag (c_config (w_conns ws' sc)) = cf_Flag (c_config (w_conns wc cc)) \<and>
     concat (nc_rx (net_of ws' sc)) = p \<and> nc_tx (net_of ws' sc) = nc_tx (net_of ws sc) @ toC \<and>
     (\<forall>xs q. concat xs = toC @ q \<longrightarrow> (\<exists>wc'. clientHandshake cc (rx_on cc xs wc) = (Ok (), wc') \<and>
        established wc' cc i (toLeu64 t) \<and> concat (nc_rx (net_of wc' cc)) = q \<and>
        nc_tx (net_of wc' cc) = nc_tx (net_of wc cc) @
          frame (newConnReq_marshal (new_request (c_config (w_conns wc cc)) kx))))"
proof -
  let ?cf = "c_config (w_conns wc cc)"
  have nz: "x \<noteq> 0" "y \<noteq> 0" using PrivateKey_nonzero cl(4) sv(3) by fastforce+
  obtain kx' ky t where t: "PublicKey x = Some (Ok kx')" "PublicKey y = Some (Ok ky)" "Secret x ky = Some (Ok t)"
    "Secret y kx' = Some (Ok t)" "unat t = unat dh64_g ^ (unat x * unat y) mod dh64_P"
    using Secret_commutes [OF nz] by metis
  have [simp]: "kx' = kx" using t(1) cl(5) by simp
  have tt: "unat t = 5 ^ (unat x * unat y) mod (2 ^ 64 - 59)" using t(5) by (simp add: dh64_g_def dh64_P_def)
  obtain xs where sh: "serverHandshake ops sc ws = serverNewHandshake ops sc (new_request ?cf kx) (rx_on sc xs ws)" "concat xs = p"
    using serverHandshake_new [OF _ cl(6-8) wire] sv(2) unfolding nc_good_def by metis
  let ?w = "rx_on sc xs ws"
  have sec: "Secret y (Uint64 (nq_key (new_request ?cf kx))) = Some (Ok t)" using t(4) by (simp add: new_request_def)
  obtain ws' where ws': "serverNewHandshake ops sc (new_request ?cf kx) ?w = (Ok (), ws')"
    "established ws' sc (fst (op_AcquireID ops (w_server ?w))) (toLeu64 t)"
    "nc_tx (net_of ws' sc) = nc_tx (net_of ?w sc) @
       frame (newConnResp_marshal \<lparr>np_id = fst (op_AcquireID ops (w_server ?w)), np_key = toLeu64 ky\<rparr>)"
    "nc_rx (net_of ws' sc) = nc_rx (net_of ?w sc)" "w_server ws' = snd (op_AcquireID ops (w_server ?w))"
    "cf_TargetServer (c_config (w_conns ws' sc)) = nq_targetServer (new_request ?cf kx)"
    "cf_Flag (c_config (w_conns ws' sc)) = nq_flag (new_request ?cf kx)"
    by (rule serverNewHandshake_run [of ?w sc y jy ky "new_request ?cf kx" t ops, rotated 5])
      (use sv t(2) sec in simp_all)
  let ?toC = "frame (newConnResp_marshal \<lparr>np_id = i, np_key = toLeu64 ky\<rparr>)"
  have client: "\<exists>wc'. clientHandshake cc (rx_on cc ys wc) = (Ok (), wc') \<and> established wc' cc i (toLeu64 t) \<and>
        concat (nc_rx (net_of wc' cc)) = q \<and> nc_tx (net_of wc' cc) = nc_tx (net_of wc cc) @ frame (newConnReq_marshal (new_request ?cf kx))"
    if ys: "concat ys = ?toC @ q" for ys q
  proof -
    let ?v = "rx_on cc ys wc"
    obtain wc' where "clientNewHandshake cc ?v = (Ok (), wc')" "established wc' cc i (toLeu64 t)"
      "nc_tx (net_of wc' cc) = nc_tx (net_of ?v cc) @ frame (newConnReq_marshal (new_request (c_config (w_conns ?v cc)) kx))"
      "concat (nc_rx (net_of wc' cc)) = q"
      by (rule clientNewHandshake_run [of ?v cc x jx kx "\<lparr>np_id = i, np_key = toLeu64 ky\<rparr>" t q, rotated 9])
        (use cl sv t(3) ys in simp_all)
    then show ?thesis using cl(3) by (auto simp: clientHandshake_def monad_simps)
  qed
  show ?thesis
    using tt sh ws' sv(4) client
    by (intro exI [of _ ws'] exI [of _ ?toC] exI [of _ t]) (simp add: new_request_def)
qed

lemma PublicKey_3: "PublicKey 3 = Some (Ok 125)"
proof -
  obtain k where k: "PublicKey 3 = Some (Ok k)" "unat k = unat dh64_g ^ unat (3 :: u64) mod dh64_P"
    using PublicKey_nat [of 3] by auto
  then have "unat k = unat (125 :: u64)" by (simp add: dh64_g_def dh64_P_def)
  then have "k = 125" by (simp only: word_unat_eq_iff)
  with k show ?thesis by simp
qed

theorem new_session_agreement_witness:
  "\<exists>ws' t. unat t = 5 ^ 9 \<and>
     serverHandshake ex_ops 1 (ex_world (rc4_NewCipher [9]) [1] [] 0 0 [frame (newConnReq_marshal (new_request
        (c_config (w_conns (ex_world (rc4_NewCipher [9]) [1] [] 0 0 []) 1)) 125))]) = (Ok (), ws') \<and>
     established ws' 1 1 (toLeu64 t)"
proof -
  let ?wc = "ex_world (rc4_NewCipher [9]) [1] [] 0 0 []"
  let ?ws = "ex_world (rc4_NewCipher [9]) [1] [] 0 0 [frame (newConnReq_marshal (new_request (c_config (w_conns ?wc 1)) 125))]"
  have pk: "PrivateKey (w_rand (ex_world (rc4_NewCipher [9]) [1] [] 0 0 rx)) (w_rpos (ex_world (rc4_NewCipher [9]) [1] [] 0 0 rx)) = Some (3, 1)" for rx
    using PrivateKey_from [of "\<lambda>_. 3" 0 0] by (simp add: ex_defs)
  have wf: "wf_world (ex_world (rc4_NewCipher [9]) [1] [] 0 0 rx)" and
    good: "nc_good (net_of (ex_world (rc4_NewCipher [9]) [1] [] 0 0 rx) 1)" for rx by simp_all
  have cf: "c_id (w_conns ?wc 1) = 0" "CHR 0x0A \<notin> set (cf_TargetServer (c_config (w_conns ?wc 1)))"
    "length (cf_TargetServer (c_config (w_conns ?wc 1))) < 60000" "int64 (cf_Flag (c_config (w_conns ?wc 1)))"
    by (simp_all add: ex_defs)
  have op: "op_AcquireID ex_ops (w_server ?ws) = (1, ())" "(1 :: int) \<noteq> 0" "int64 1"
    by (simp_all add: ex_ops_def int64_def)
  have wire: "concat (nc_rx (net_of ?ws 1)) = frame (newConnReq_marshal (new_request (c_config (w_conns ?wc 1)) 125)) @ []" by simp
  have "unat (3 :: u64) * unat (3 :: u64) = 9" by simp
  then show ?thesis
    using new_session_agreement [OF wf good cf(1) pk PublicKey_3 cf(2-4) wf good pk op wire] by auto
qed

text \<open>A client that sends the public key 0 crashes the handler: \<open>dh64.Secret\<close> panics, after the id was
  allocated and the reply was sent. The id is not released, the connection is neither frozen nor closed,
  and its handshake is not marked as done.\<close>

theorem zero_key_leaks_id:
  assumes "nc_good (net_of w c)" "PrivateKey (w_rand w) (w_rpos w) = Some (y, j)" "nq_key nq = toLeu64 0"
  shows "\<exists>m w'. serverNewHandshake ops c nq w = (Panic m, w') \<and> w_server w' = snd (op_AcquireID ops (w_server w)) \<and>
    nc_good (net_of w' c) \<and> c_frozen (w_conns w' c) = c_frozen (w_conns w c) \<and> c_id (w_conns w' c) = c_id (w_conns w c)"
proof -
  have "y \<noteq> 0" using PrivateKey_nonzero [OF assms(2)] by simp
  then obtain ky where ky: "PublicKey y = Some (Ok ky)" using PublicKey_nat by blast
  let ?w1 = "w\<lparr>w_rpos := j, w_server := snd (op_AcquireID ops (w_server w))\<rparr>"
  have g: "nc_good (net_of ?w1 c)" using assms(1) by (simp add: net_of_def)
  show ?thesis
    using assms(2,3) g by (simp add: serverNewHandshake_def draw_PrivateKey_def AcquireID_srv_def monad_simps ky
        writeRecord_sent [OF g, simplified] Secret_def)
qed

theorem zero_key_leaks_id_witness:
  "\<exists>m w'. serverNewHandshake ex_ops 1 \<lparr>nq_id = 0, nq_key = toLeu64 0, nq_targetServer = [], nq_flag = 0\<rparr>
      (ex_world (rc4_NewCipher [9]) [1] [] 0 0 []) = (Panic m, w') \<and> nc_good (net_of w' 1)"
proof -
  have "PrivateKey (w_rand (ex_world (rc4_NewCipher [9]) [1] [] 0 0 [])) (w_rpos (ex_world (rc4_NewCipher [9]) [1] [] 0 0 [])) = Some (3, 1)"
    using PrivateKey_from [of "\<lambda>_. 3" 0 0] by (simp add: ex_defs)
  from zero_key_leaks_id [OF _ this, of 1 "\<lparr>nq_id = 0, nq_key = toLeu64 0, nq_targetServer = [], nq_flag = 0\<rparr>" ex_ops]
  show ?thesis by auto
qed

end
