(* ===== verification/Upstream.thy ===== *)
theory Upstream
  imports Go_Net Scp_Connect
begin

text \<open>
  The package \<open>upstream\<close>: the table of backend hosts (\<open>upstream.go\<close>), the choice of a host for a client, the
  connection to it, and the hook that announces the client's address (\<open>hooks.go\<close>, \<open>sproto_hook.go\<close>).

  The record \<open>upstreams\<close> is the state of the package. Hosts are reached through pointers (a host is in the
  group of all hosts and in the group of its name, and \<open>NewConn\<close> shuffles its addresses in place), so they
  live in a store and the groups hold addresses of it. A value of \<open>atomic.Value\<close> that was never stored is
  \<open>None\<close>, and loading it panics.

  What is not code of the repository is the record \<open>net_env\<close>: the resolver, the dialler (which gives the
  network connection as it will behave), regular expressions and the encoder of \<open>sproto\<close> messages.
\<close>

section \<open>State\<close>

record ResolveRule =
  rr_Prefix :: string
  rr_Suffix :: string
  rr_Port :: string
  rr_Pattern :: string
  rr_rePattern :: "(string \<Rightarrow> bool) option"

record Option =
  opt_Net :: string
  opt_Resolv :: "ResolveRule option"

record Host =
  h_Name :: string
  h_Addr :: string
  h_Weight :: int
  h_addrs :: "string list"

record hostGroup =
  hg_hosts :: "nat list"
  hg_weight :: int

record upstreams =
  u_option :: "Option option"
  u_allHosts :: "hostGroup option"
  u_byNameHosts :: "(string \<rightharpoonup> hostGroup) option"
  u_store :: "nat \<Rightarrow> Host"
  u_next :: nat
  u_rng :: rng
  u_packHeader :: "byte list option"

record net_env =
  regexp_Compile :: "string \<Rightarrow> (string \<Rightarrow> bool) res"
  LookupHost :: "string \<Rightarrow> string list res"
  ResolveTCPAddr :: "string \<Rightarrow> string res"
  DialTCP :: "string \<Rightarrow> netconn res"
  net_Dial :: "string \<Rightarrow> netconn res"
  sproto_Package :: "u32 \<Rightarrow> byte list"
  sproto_AnnounceAddr :: "string \<Rightarrow> string \<Rightarrow> byte list"
  sproto_Pack :: "byte list \<Rightarrow> byte list"
  RemoteAddr :: "nat \<Rightarrow> string"
  LocalAddr :: "nat \<Rightarrow> string"

definition defaultWeight :: int where
  "defaultWeight = 100"

section \<open>Rules\<close>

definition Normalize :: "net_env \<Rightarrow> ResolveRule \<Rightarrow> ResolveRule res" where
  "Normalize env r =
     bind_res (if rr_Pattern r \<noteq> [] then map_res (\<lambda>re. r\<lparr>rr_rePattern := Some re\<rparr>) (regexp_Compile env (rr_Pattern r))
               else Ok r) (\<lambda>r.
     if rr_Port r = [] then Fail ErrNoPort else Ok r)"

definition FullName :: "ResolveRule \<Rightarrow> string \<Rightarrow> string" where
  "FullName r name = JoinHostPort (rr_Prefix r @ name @ rr_Suffix r) (rr_Port r)"

definition Validate :: "ResolveRule \<Rightarrow> string \<Rightarrow> bool" where
  "Validate r name = (case rr_rePattern r of None \<Rightarrow> True | Some re \<Rightarrow> re name)"

section \<open>The table of hosts\<close>

definition SetOption :: "Option \<Rightarrow> upstreams \<Rightarrow> upstreams" where
  "SetOption opt u = u\<lparr>u_option := Some opt\<rparr>"

fun resolve_all :: "net_env \<Rightarrow> string \<Rightarrow> string list \<Rightarrow> string list res" where
  "resolve_all env service [] = Ok []"
| "resolve_all env service (addr # addrs) =
     bind_res (ResolveTCPAddr env (JoinHostPort addr service)) (\<lambda>a.
     bind_res (resolve_all env service addrs) (\<lambda>as. Ok (a # as)))"

definition lookupTCPAddrs :: "net_env \<Rightarrow> string \<Rightarrow> string list res" where
  "lookupTCPAddrs env hostport =
     bind_res (SplitHostPort hostport) (\<lambda>(host, service).
     bind_res (LookupHost env host) (\<lambda>addrs. resolve_all env service addrs))"

definition emptyGroup :: hostGroup where
  "emptyGroup = \<lparr>hg_hosts = [], hg_weight = 0\<rparr>"

definition group_add :: "nat \<Rightarrow> Host \<Rightarrow> hostGroup \<Rightarrow> hostGroup" where
  "group_add a h g = \<lparr>hg_hosts = hg_hosts g @ [a], hg_weight = hg_weight g + h_Weight h\<rparr>"

text \<open>The tables under construction: the store, its next free address, all hosts, hosts by name.\<close>

type_synonym tables = "(nat \<Rightarrow> Host) \<times> nat \<times> hostGroup \<times> (string \<rightharpoonup> hostGroup)"

text \<open>The body of the loop of \<open>UpdateHosts\<close>.\<close>

definition update_host :: "net_env \<Rightarrow> Host \<Rightarrow> tables \<Rightarrow> tables res" where
  "update_host env host = (\<lambda>(store, next, allHosts, byNameHosts).
     bind_res (lookupTCPAddrs env (h_Addr host)) (\<lambda>addrs.
     let h = host\<lparr>h_addrs := addrs\<rparr>;
         h = (if h_Weight h \<le> 0 then h\<lparr>h_Weight := defaultWeight\<rparr> else h);
         byNameHosts = (if h_Name h \<noteq> [] then
             byNameHosts(h_Name h \<mapsto> group_add next h (case byNameHosts (h_Name h) of None \<Rightarrow> emptyGroup | Some hg \<Rightarrow> hg))
           else byNameHosts)
     in Ok (store(next := h), Suc next, group_add next h allHosts, byNameHosts)))"

fun update_loop :: "net_env \<Rightarrow> Host list \<Rightarrow> tables \<Rightarrow> tables res" where
  "update_loop env [] t = Ok t"
| "update_loop env (host # hosts) t = bind_res (update_host env host t) (update_loop env hosts)"

definition UpdateHosts :: "net_env \<Rightarrow> Option \<Rightarrow> Host list \<Rightarrow> (upstreams, unit) M" where
  "UpdateHosts env opt hosts u =
     (if opt_Resolv opt = None \<and> hosts = [] then (Fail ErrNoHost, u)
      else case update_loop env hosts (u_store u, u_next u, emptyGroup, Map.empty) of
        Ok (store, next, allHosts, byNameHosts) \<Rightarrow>
          (Ok (), u\<lparr>u_store := store, u_next := next, u_allHosts := Some allHosts, u_byNameHosts := Some byNameHosts\<rparr>)
      | Fail e \<Rightarrow> (Fail e, u) | Panic m \<Rightarrow> (Panic m, u) | Hang \<Rightarrow> (Hang, u))"

section \<open>The choice of a host\<close>

definition rand_Intn :: "int \<Rightarrow> (upstreams, int) M" where
  "rand_Intn n u = (case Intn n (u_rng u) of (r, g) \<Rightarrow> (r, u\<lparr>u_rng := g\<rparr>))"

fun choose_loop :: "(nat \<Rightarrow> Host) \<Rightarrow> nat list \<Rightarrow> int \<Rightarrow> nat option" where
  "choose_loop store [] v = None"
| "choose_loop store (a # as) v =
     (if v \<le> h_Weight (store a) then Some a else choose_loop store as (v - h_Weight (store a)))"

definition chooseByLocalHosts :: "hostGroup option \<Rightarrow> (upstreams, nat option) M" where
  "chooseByLocalHosts gr =
     (case gr of None \<Rightarrow> retM None | Some g \<Rightarrow>
      if hg_hosts g = [] then retM None
      else bindM (rand_Intn (hg_weight g)) (\<lambda>v. getM (\<lambda>u. choose_loop (u_store u) (hg_hosts g) v)))"

definition new_host :: "Host \<Rightarrow> (upstreams, nat) M" where
  "new_host h u = (Ok (u_next u), u\<lparr>u_store := (u_store u)(u_next u := h), u_next := Suc (u_next u)\<rparr>)"

definition chooseByResolver :: "net_env \<Rightarrow> string \<Rightarrow> ResolveRule \<Rightarrow> (upstreams, nat option) M" where
  "chooseByResolver env name rule =
     bindM (if Validate rule name then
        (let hostport = FullName rule name in
         case lookupTCPAddrs env hostport of
           Ok addrs \<Rightarrow> bindM (new_host \<lparr>h_Name = name, h_Addr = hostport, h_Weight = 0, h_addrs = addrs\<rparr>) (\<lambda>a. retM [a])
         | Fail e \<Rightarrow> retM [] | Panic m \<Rightarrow> panicM m | Hang \<Rightarrow> liftM Hang)
      else retM []) (\<lambda>hosts.
     if hosts = [] then retM None
     else bindM (rand_Intn (int (length hosts))) (\<lambda>v. retM (Some (hosts ! nat v))))"

text \<open>\<open>Load().(T)\<close>.\<close>

definition load :: "(upstreams \<Rightarrow> 'a option) \<Rightarrow> (upstreams, 'a) M" where
  "load f = bindM (getM f) (\<lambda>x. case x of
     None \<Rightarrow> panicM ''interface conversion: interface is nil'' | Some v \<Rightarrow> retM v)"

definition GetPreferredHost :: "net_env \<Rightarrow> string \<Rightarrow> (upstreams, nat option) M" where
  "GetPreferredHost env name =
     bindM (load u_byNameHosts) (\<lambda>mapHosts.
     bindM (chooseByLocalHosts (mapHosts name)) (\<lambda>h.
     if h \<noteq> None then retM h
     else bindM (load u_option) (\<lambda>opt. case opt_Resolv opt of
       None \<Rightarrow> retM h | Some rule \<Rightarrow> chooseByResolver env name rule)))"

definition GetRandomHost :: "(upstreams, nat option) M" where
  "GetRandomHost = bindM (load u_allHosts) (\<lambda>g. chooseByLocalHosts (Some g))"

definition GetHost :: "net_env \<Rightarrow> string \<Rightarrow> (upstreams, nat option) M" where
  "GetHost env preferred =
     bindM (if preferred \<noteq> [] then GetPreferredHost env preferred else retM None) (\<lambda>h.
     if h = None then GetRandomHost else retM h)"

section \<open>Connecting\<close>

text \<open>The state of a call that works on connections and on the table of hosts.\<close>

definition onW :: "('srv world, 'a) M \<Rightarrow> ('srv world \<times> upstreams, 'a) M" where
  "onW m = (\<lambda>(w, u). case m w of (r, w') \<Rightarrow> (r, w', u))"

definition onU :: "(upstreams, 'a) M \<Rightarrow> ('srv world \<times> upstreams, 'a) M" where
  "onU m = (\<lambda>(w, u). case m u of (r, u') \<Rightarrow> (r, w, u'))"

text \<open>A \<open>net.Conn\<close> as \<open>upgradeConn\<close> returns it: the nil interface, a TCP connection, or an \<open>*scp.Conn\<close>.\<close>

datatype upconn = NilConn | TcpConn nat | ScpConn nat

definition upconn_Close :: "upconn \<Rightarrow> ('srv world, unit) M" where
  "upconn_Close conn = (case conn of
     NilConn \<Rightarrow> panicM ''invalid memory address or nil pointer dereference''
   | TcpConn n \<Rightarrow> bindM (on_net n nc_Close) (\<lambda>_. retM ())
   | ScpConn c \<Rightarrow> Conn_Close c)"

definition upconn_Write :: "'srv SCPServer_ops \<Rightarrow> upconn \<Rightarrow> byte list \<Rightarrow> ('srv world, nat \<times> goerr option) M" where
  "upconn_Write ops conn p = (case conn of
     NilConn \<Rightarrow> panicM ''invalid memory address or nil pointer dereference''
   | TcpConn n \<Rightarrow> on_net n (nc_Write p)
   | ScpConn c \<Rightarrow> Conn_Write ops c p)"

text \<open>A nil \<open>*net.TCPConn\<close>: every operation fails with \<open>EINVAL\<close>.\<close>

definition nil_tcp :: netconn where
  "nil_tcp = \<lparr>nc_rx = [], nc_rx_err = ErrNet ''invalid argument'', nc_tx = [], nc_room = Some 0,
     nc_wr_err = ErrNet ''invalid argument'', nc_closed = False, nc_close_err = Some (ErrNet ''invalid argument''),
     nc_deadline = None\<rparr>"

definition alloc_net :: "netconn \<Rightarrow> ('srv world, nat) M" where
  "alloc_net x w = (Ok (w_next w), w\<lparr>w_nets := (w_nets w)(w_next w := x), w_next := Suc (w_next w)\<rparr>)"

text \<open>The loop over the addresses: \<open>tcpConn\<close> and \<open>err\<close> after it.\<close>

fun dial_loop :: "net_env \<Rightarrow> string list \<Rightarrow> netconn \<times> goerr option \<Rightarrow> (netconn \<times> goerr option) res" where
  "dial_loop env [] ce = Ok ce"
| "dial_loop env (addr # addrs) ce =
     (case DialTCP env addr of
        Ok c \<Rightarrow> Ok (c, None)
      | Fail e \<Rightarrow> dial_loop env addrs (nil_tcp, Some e)
      | Panic m \<Rightarrow> Panic m | Hang \<Rightarrow> Hang)"

definition shuffle_addrs :: "nat \<Rightarrow> (upstreams, string list) M" where
  "shuffle_addrs a u =
     (case Shuffle (h_addrs (u_store u a)) (u_rng u) of (addrs, g) \<Rightarrow>
        (Ok addrs, u\<lparr>u_store := (u_store u)(a := (u_store u a)\<lparr>h_addrs := addrs\<rparr>), u_rng := g\<rparr>))"

text \<open>The named results: the connection and the error.\<close>

definition upgradeConn :: "'srv SCPServer_ops \<Rightarrow> string \<Rightarrow> nat \<Rightarrow> nat \<Rightarrow> ('srv world, upconn \<times> goerr option) M" where
  "upgradeConn ops network localConn remoteConn =
     (if network = ''scp'' then
        bindM (conn_of remoteConn) (\<lambda>rc.
        bindM (Client localConn (Some \<lparr>cf_Flag = SCPFlagForbidForwardIP, cf_TargetServer = cf_TargetServer (c_config rc),
          cf_ConnForReused = None, cf_ScpServer = False\<rparr>)) (\<lambda>scon.
        bindM (Handshake ops scon) (\<lambda>err. case err of
          Some e \<Rightarrow> retM (NilConn, Some e)
        | None \<Rightarrow> retM (ScpConn scon, None))))
      else retM (TcpConn localConn, None))"

section \<open>Hooks\<close>

type_synonym 'srv hook = "upconn \<Rightarrow> nat \<Rightarrow> ('srv world \<times> upstreams, goerr option) M"

definition setHook :: "'srv hook \<Rightarrow> 'srv hook option \<Rightarrow> 'srv hook option res" where
  "setHook hook installed = (if installed \<noteq> None then Panic ''setHook again'' else Ok (Some hook))"

definition OnAfterConnected :: "'srv hook option \<Rightarrow> upconn \<Rightarrow> nat \<Rightarrow> ('srv world \<times> upstreams, goerr option) M" where
  "OnAfterConnected upstreamHook local remote =
     (case upstreamHook of None \<Rightarrow> retM None | Some hook \<Rightarrow> hook local remote)"

text \<open>The hook of \<open>sproto_hook.go\<close>; \<open>optSproto\<close> is the flag \<open>-sproto\<close>, \<open>parsed\<close> is \<open>flag.Parsed()\<close>.\<close>

definition sprotoHook_init :: "net_env \<Rightarrow> int \<Rightarrow> (upstreams, unit) M" where
  "sprotoHook_init env optSproto =
     modM (\<lambda>u. if u_packHeader u \<noteq> None then u
                else u\<lparr>u_packHeader := Some (sproto_Package env (word_of_int optSproto))\<rparr>)"

definition AfterConnected :: "net_env \<Rightarrow> 'srv SCPServer_ops \<Rightarrow> int \<Rightarrow> bool \<Rightarrow> 'srv hook" where
  "AfterConnected env ops optSproto parsed local remote =
     (if \<not> parsed then retM None
      else if optSproto = -1 then retM None
      else bindM (onW (conn_of remote)) (\<lambda>rc.
        if ForbidForwardIP rc then retM None
        else bindM (onU (bindM (getM u_packHeader) (\<lambda>ph. if ph = None then sprotoHook_init env optSproto else retM ()))) (\<lambda>_.
          bindM (onU (getM (\<lambda>u. the (u_packHeader u)))) (\<lambda>packHeader.
          let aa = sproto_AnnounceAddr env (RemoteAddr env (c_conn rc)) (LocalAddr env (c_conn rc));
              data = sproto_Pack env (packHeader @ aa)
          in bindM (onW (upconn_Write ops local (be_put16 (word_of_nat (length data)) @ data))) (\<lambda>ne. retM (snd ne))))))"

section \<open>NewConn\<close>

text \<open>The part of \<open>NewConn\<close> after the addresses are shuffled.\<close>

definition NewConn_dial :: "net_env \<Rightarrow> 'srv SCPServer_ops \<Rightarrow> 'srv hook option \<Rightarrow> nat \<Rightarrow> string list \<Rightarrow>
    ('srv world \<times> upstreams, upconn \<times> goerr option) M" where
  "NewConn_dial env ops upstreamHook remoteConn addrs =
     bindM (liftM (dial_loop env addrs (nil_tcp, None))) (\<lambda>(tcpConn, err). case err of
       Some e \<Rightarrow> retM (NilConn, Some e)
     | None \<Rightarrow>
         bindM (onW (alloc_net tcpConn)) (\<lambda>n.
         bindM (onU (load u_option)) (\<lambda>opt.
         bindM (onW (upgradeConn ops (opt_Net opt) n remoteConn)) (\<lambda>(conn, err). case err of
           Some e \<Rightarrow> bindM (onW (upconn_Close conn)) (\<lambda>_. retM (conn, Some e))
         | None \<Rightarrow> bindM (OnAfterConnected upstreamHook conn remoteConn) (\<lambda>err. retM (conn, err))))))"

definition NewConn :: "net_env \<Rightarrow> 'srv SCPServer_ops \<Rightarrow> 'srv hook option \<Rightarrow> nat \<Rightarrow>
    ('srv world \<times> upstreams, upconn \<times> goerr option) M" where
  "NewConn env ops upstreamHook remoteConn =
     bindM (onW (conn_of remoteConn)) (\<lambda>rc.
     let tserver = cf_TargetServer (c_config rc) in
     bindM (onU (GetHost env tserver)) (\<lambda>host. case host of
       None \<Rightarrow> retM (NilConn, Some ErrNoHost)
     | Some a \<Rightarrow> bindM (onU (shuffle_addrs a)) (NewConn_dial env ops upstreamHook remoteConn)))"

section \<open>What the tables should be\<close>

abbreviation weights :: "(nat \<Rightarrow> Host) \<Rightarrow> nat list \<Rightarrow> int" where
  "weights store as \<equiv> sum_list (map (\<lambda>a. h_Weight (store a)) as)"

text \<open>The group of a name: the hosts of that name in the order of the configuration.\<close>

definition named :: "(nat \<Rightarrow> Host) \<Rightarrow> nat list \<Rightarrow> string \<Rightarrow> hostGroup option" where
  "named store as n =
     (let hs = filter (\<lambda>a. h_Name (store a) = n) as
      in if n = [] \<or> hs = [] then None else Some \<lparr>hg_hosts = hs, hg_weight = weights store hs\<rparr>)"

definition tables_ok :: "tables \<Rightarrow> bool" where
  "tables_ok = (\<lambda>(store, next, allHosts, byNameHosts).
     (\<forall>a \<in> set (hg_hosts allHosts). a < next \<and> 0 < h_Weight (store a)) \<and> distinct (hg_hosts allHosts) \<and>
     hg_weight allHosts = weights store (hg_hosts allHosts) \<and> byNameHosts = named store (hg_hosts allHosts))"

text \<open>The entry of the configuration that a stored host stands for.\<close>

definition host_key :: "Host \<Rightarrow> string \<times> string \<times> int" where
  "host_key h = (h_Name h, h_Addr h, if h_Weight h \<le> 0 then defaultWeight else h_Weight h)"

lemma tables_ok_init: "tables_ok (store, next, emptyGroup, Map.empty)"
  by (auto simp: tables_ok_def emptyGroup_def named_def)

lemma weights_fresh: "\<forall>a \<in> set as. a < n \<Longrightarrow> weights (store(n := h)) as = weights store as"
  by (induction as) auto

lemma filter_fresh:
  fixes n :: nat
  shows "\<forall>a \<in> set as. a < n \<Longrightarrow> filter (\<lambda>a. h_Name ((store(n := h)) a) = x) as = filter (\<lambda>a. h_Name (store a) = x) as"
  by (induction as) auto

lemma named_fresh:
  assumes "\<forall>a \<in> set as. a < n"
  shows "named (store(n := h)) (as @ [n]) x =
    (if h_Name h = x \<and> x \<noteq> [] then
       Some (group_add n h (case named store as x of None \<Rightarrow> emptyGroup | Some g \<Rightarrow> g))
     else named store as x)"
proof -
  have "\<forall>a \<in> set (filter (\<lambda>a. h_Name (store a) = x) as). a < n" using assms by simp
  from weights_fresh [OF this, of store h] filter_fresh [OF assms, of store h x]
  show ?thesis by (auto simp: named_def Let_def group_add_def emptyGroup_def)
qed

lemma update_host_ok:
  assumes "update_host env host (store, next, allHosts, byNameHosts) = Ok t" "tables_ok (store, next, allHosts, byNameHosts)"
  obtains h where "t = (store(next := h), Suc next, group_add next h allHosts, named (store(next := h)) (hg_hosts allHosts @ [next]))"
    "host_key h = host_key host" "0 < h_Weight h" "tables_ok t"
proof -
  have ok: "\<forall>a \<in> set (hg_hosts allHosts). a < next \<and> 0 < h_Weight (store a)" "distinct (hg_hosts allHosts)"
    "hg_weight allHosts = weights store (hg_hosts allHosts)" "byNameHosts = named store (hg_hosts allHosts)"
    using assms(2) by (auto simp: tables_ok_def)
  then have lt: "\<forall>a \<in> set (hg_hosts allHosts). a < next" by blast
  obtain addrs where "lookupTCPAddrs env (h_Addr host) = Ok addrs"
    using assms(1) by (auto simp: update_host_def bind_res_def split: res.splits)
  moreover define h where "h = (if h_Weight host \<le> 0 then host\<lparr>h_addrs := addrs, h_Weight := defaultWeight\<rparr> else host\<lparr>h_addrs := addrs\<rparr>)"
  moreover have n: "h_Name h = h_Name host" by (simp add: h_def)
  ultimately have t: "t = (store(next := h), Suc next, group_add next h allHosts, named (store(next := h)) (hg_hosts allHosts @ [next]))"
    using assms(1) unfolding ok(4)
    by (auto simp: update_host_def bind_res_def Let_def fun_eq_iff named_fresh [OF lt] split: if_splits)
  have w: "0 < h_Weight h" "host_key h = host_key host" by (auto simp: h_def host_key_def defaultWeight_def)
  have "tables_ok t"
    unfolding t tables_ok_def using ok w lt weights_fresh [OF lt, of store h] by (auto simp: group_add_def)
  with t w that show thesis by blast
qed

lemma update_loop_ok:
  assumes "update_loop env hosts (store, next, allHosts, byNameHosts) = Ok (store', next', allHosts', byNameHosts')"
    "tables_ok (store, next, allHosts, byNameHosts)"
  shows "tables_ok (store', next', allHosts', byNameHosts') \<and>
    map (\<lambda>a. host_key (store' a)) (hg_hosts allHosts') = map (\<lambda>a. host_key (store a)) (hg_hosts allHosts) @ map host_key hosts"
  using assms
proof (induction hosts arbitrary: store "next" allHosts byNameHosts)
  case Nil
  then show ?case by simp
next
  case (Cons host hosts)
  obtain t where t: "update_host env host (store, next, allHosts, byNameHosts) = Ok t"
    "update_loop env hosts t = Ok (store', next', allHosts', byNameHosts')"
    using Cons.prems(1) by (auto simp: bind_res_def split: res.splits)
  obtain h where h: "t = (store(next := h), Suc next, group_add next h allHosts, named (store(next := h)) (hg_hosts allHosts @ [next]))"
    "host_key h = host_key host" "tables_ok t"
    using update_host_ok [OF t(1) Cons.prems(2)] by blast
  have "map (\<lambda>a. host_key ((store(next := h)) a)) (hg_hosts allHosts) = map (\<lambda>a. host_key (store a)) (hg_hosts allHosts)"
    using Cons.prems(2) by (intro map_cong) (auto simp: tables_ok_def)
  with Cons.IH [OF t(2) [unfolded h(1)] h(3) [unfolded h(1)]] h(2) show ?case
    by (simp add: group_add_def)
qed

section \<open>The choice\<close>

lemma choose_loop_in: "choose_loop store as v = Some a \<Longrightarrow> a \<in> set as"
  by (induction store as v rule: choose_loop.induct) (auto split: if_splits)

lemma choose_loop_total: "as \<noteq> [] \<Longrightarrow> v \<le> weights store as \<Longrightarrow> \<exists>a. choose_loop store as v = Some a"
proof (induction store as v rule: choose_loop.induct)
  case (2 store a as v)
  then show ?case by (cases "as = []") auto
qed simp

lemma weights_nonneg: "\<forall>a \<in> set as. 0 < h_Weight (store a) \<Longrightarrow> 0 \<le> weights store as"
  by (induction as) auto

text \<open>Which values of \<open>rand.Intn\<close> choose the host at position \<open>i\<close>.\<close>

lemma choose_loop_iff:
  assumes "\<forall>a \<in> set as. 0 < h_Weight (store a)" "distinct as" "i < length as"
  shows "choose_loop store as v = Some (as ! i) \<longleftrightarrow>
    (i = 0 \<or> weights store (take i as) < v) \<and> v \<le> weights store (take (Suc i) as)"
  using assms
proof (induction as arbitrary: i v)
  case (Cons a as)
  have pos: "0 \<le> weights store (take k as)" for k
    using Cons.prems(1) by (intro weights_nonneg) (auto dest: in_set_takeD)
  show ?case
  proof (cases i)
    case 0
    then show ?thesis using Cons.prems(2) choose_loop_in [of store as] by auto
  next
    case (Suc j)
    have j: "j < length as" "as ! j \<noteq> a" using Cons.prems(2,3) Suc by auto
    show ?thesis
      using Cons.IH [of j "v - h_Weight (store a)"] Cons.prems j pos [of j] Suc by (auto simp: not_le)
  qed
qed simp

lemma rand_Intn_run:
  assumes "0 < n"
  obtains v g where "rand_Intn n u = (Ok v, u\<lparr>u_rng := g\<rparr>)" "0 \<le> v" "v < n"
  by (rule Intn_range [OF assms, of "u_rng u"]) (simp add: rand_Intn_def that)

definition group_ok :: "(nat \<Rightarrow> Host) \<Rightarrow> hostGroup \<Rightarrow> bool" where
  "group_ok store g \<longleftrightarrow> (\<forall>a \<in> set (hg_hosts g). 0 < h_Weight (store a)) \<and> hg_weight g = weights store (hg_hosts g)"

text \<open>A group that is not empty always yields one of its hosts.\<close>

lemma chooseByLocalHosts_run:
  assumes "group_ok (u_store u) g" "hg_hosts g \<noteq> []"
  obtains a r where "chooseByLocalHosts (Some g) u = (Ok (Some a), u\<lparr>u_rng := r\<rparr>)" "a \<in> set (hg_hosts g)"
proof -
  obtain x xs where "hg_hosts g = x # xs" using assms(2) by (cases "hg_hosts g") auto
  with assms weights_nonneg [of xs "u_store u"] have "0 < hg_weight g" by (auto simp: group_ok_def)
  then obtain v r where v: "rand_Intn (hg_weight g) u = (Ok v, u\<lparr>u_rng := r\<rparr>)" "v < hg_weight g"
    using rand_Intn_run by metis
  have "v \<le> weights (u_store u) (hg_hosts g)" using v(2) assms(1) by (simp add: group_ok_def)
  then obtain a where "choose_loop (u_store u) (hg_hosts g) v = Some a" using choose_loop_total assms(2) by blast
  then show thesis
    using that [of a r] assms(2) v(1) choose_loop_in by (simp add: chooseByLocalHosts_def monad_simps)
qed

text \<open>The package after a successful \<open>UpdateHosts\<close> and \<open>SetOption\<close>.\<close>

definition installed :: "upstreams \<Rightarrow> hostGroup \<Rightarrow> Option \<Rightarrow> bool" where
  "installed u g opt \<longleftrightarrow> u_allHosts u = Some g \<and> u_option u = Some opt \<and>
     u_byNameHosts u = Some (named (u_store u) (hg_hosts g)) \<and> group_ok (u_store u) g \<and>
     (\<forall>a \<in> set (hg_hosts g). a < u_next u)"

lemma named_ok:
  assumes "named store as n = Some g" "\<forall>a \<in> set as. 0 < h_Weight (store a)"
  shows "group_ok store g" "hg_hosts g \<noteq> []" "\<And>a. a \<in> set (hg_hosts g) \<longleftrightarrow> a \<in> set as \<and> h_Name (store a) = n"
  using assms by (auto simp: named_def Let_def group_ok_def split: if_splits)

lemma GetRandomHost_run:
  assumes "installed u g opt"
  obtains r u' where "GetRandomHost u = (Ok r, u')" "u_store u' = u_store u"
    "r = None \<longleftrightarrow> hg_hosts g = []" "\<And>a. r = Some a \<Longrightarrow> a \<in> set (hg_hosts g)"
proof (cases "hg_hosts g = []")
  case True
  then show thesis using assms that [of None u]
    by (simp add: GetRandomHost_def load_def monad_simps installed_def chooseByLocalHosts_def)
next
  case False
  have "group_ok (u_store u) g" using assms by (simp add: installed_def)
  then obtain a r where "chooseByLocalHosts (Some g) u = (Ok (Some a), u\<lparr>u_rng := r\<rparr>)" "a \<in> set (hg_hosts g)"
    using chooseByLocalHosts_run False by metis
  then show thesis using assms False that [of "Some a" "u\<lparr>u_rng := r\<rparr>"]
    by (simp add: GetRandomHost_def load_def monad_simps installed_def)
qed

text \<open>A resolver that answers (with addresses or an error) gives a host of the name asked for or none.\<close>

lemma chooseByResolver_run:
  assumes "no_panic (lookupTCPAddrs env (FullName rule name))"
  obtains r u' where "chooseByResolver env name rule u = (Ok r, u')"
    "\<And>a. r = Some a \<Longrightarrow> a = u_next u \<and> h_Name (u_store u' a) = name"
    "\<And>a. a < u_next u \<Longrightarrow> u_store u' a = u_store u a" "u_allHosts u' = u_allHosts u" "u_option u' = u_option u"
    "u_byNameHosts u' = u_byNameHosts u" "r = None \<Longrightarrow> u' = u"
proof (cases "Validate rule name \<and> (\<exists>as. lookupTCPAddrs env (FullName rule name) = Ok as)")
  case True
  then obtain as where as: "Validate rule name" "lookupTCPAddrs env (FullName rule name) = Ok as" by blast
  let ?u = "u\<lparr>u_store := (u_store u)(u_next u := \<lparr>h_Name = name, h_Addr = FullName rule name, h_Weight = 0, h_addrs = as\<rparr>),
    u_next := Suc (u_next u)\<rparr>"
  obtain v g where v: "rand_Intn 1 ?u = (Ok v, ?u\<lparr>u_rng := g\<rparr>)" "0 \<le> v" "v < 1" using rand_Intn_run [of 1 ?u] by auto
  then have "chooseByResolver env name rule u = (Ok (Some (u_next u)), ?u\<lparr>u_rng := g\<rparr>)"
    using as by (simp add: chooseByResolver_def new_host_def monad_simps Let_def)
  then show thesis using that by simp
next
  case False
  have "chooseByResolver env name rule u = (Ok None, u)"
    using False assms by (cases "lookupTCPAddrs env (FullName rule name)")
      (auto simp: chooseByResolver_def monad_simps Let_def)
  then show thesis by (rule that) simp_all
qed

text \<open>What a successful \<open>UpdateHosts\<close> installs.\<close>

lemma UpdateHosts_installs:
  assumes "UpdateHosts env opt hosts u = (Ok (), u')"
  obtains g where "installed (SetOption opt u') g opt"
    "map (\<lambda>a. host_key (u_store u' a)) (hg_hosts g) = map host_key hosts"
proof -
  obtain store "next" g m where l: "update_loop env hosts (u_store u, u_next u, emptyGroup, Map.empty) = Ok (store, next, g, m)"
    and u': "u' = u\<lparr>u_store := store, u_next := next, u_allHosts := Some g, u_byNameHosts := Some m\<rparr>"
    using assms by (auto simp: UpdateHosts_def split: if_splits res.splits)
  have ok: "tables_ok (store, next, g, m)" "map (\<lambda>a. host_key (store a)) (hg_hosts g) = map host_key hosts"
    using update_loop_ok [OF l tables_ok_init] by (simp_all add: emptyGroup_def)
  have "installed (SetOption opt u') g opt"
    using ok(1) by (auto simp: tables_ok_def installed_def SetOption_def u' group_ok_def)
  with ok(2) that show thesis by (simp add: u')
qed

lemma UpdateHosts_fails: "UpdateHosts env opt hosts u = (r, u') \<Longrightarrow> r \<noteq> Ok () \<Longrightarrow> u' = u"
  by (auto simp: UpdateHosts_def split: if_splits res.splits)

lemma named_iff:
  "named store as n = Some hg \<longleftrightarrow> n \<noteq> [] \<and> hg_hosts hg = filter (\<lambda>a. h_Name (store a) = n) as \<and>
     hg_hosts hg \<noteq> [] \<and> hg_weight hg = weights store (hg_hosts hg)"
  by (cases hg) (auto simp: named_def Let_def)

section \<open>Properties\<close>


definition ex_env :: net_env where
  "ex_env = \<lparr>regexp_Compile = (\<lambda>p. Ok (\<lambda>s. True)), LookupHost = (\<lambda>h. Ok [h]), ResolveTCPAddr = (\<lambda>s. Ok s),
     DialTCP = (\<lambda>a. Ok (ex_net [])), net_Dial = (\<lambda>a. Ok (ex_net [])), sproto_Package = (\<lambda>t. [0]), sproto_AnnounceAddr = (\<lambda>r l. [1]), sproto_Pack = (\<lambda>b. b),
     RemoteAddr = (\<lambda>n. ''r''), LocalAddr = (\<lambda>n. ''l'')\<rparr>"

definition ex_upstreams :: upstreams where
  "ex_upstreams = \<lparr>u_option = None, u_allHosts = None, u_byNameHosts = None,
     u_store = (\<lambda>_. \<lparr>h_Name = [], h_Addr = [], h_Weight = 0, h_addrs = []\<rparr>), u_next = 0,
     u_rng = \<lparr>rng_seq = (\<lambda>n. n), rng_pos = 0\<rparr>, u_packHeader = None\<rparr>"

lemma ex_update:
  obtains u' where "UpdateHosts ex_env \<lparr>opt_Net = ''tcp'', opt_Resolv = None\<rparr>
    [\<lparr>h_Name = ''a'', h_Addr = ''h:1'', h_Weight = 0, h_addrs = []\<rparr>] ex_upstreams = (Ok (), u')"
  by (simp add: UpdateHosts_def update_host_def lookupTCPAddrs_def SplitHostPort_def last_byte_def ex_env_def Let_def)


lemma weights_take_less:
  assumes "\<forall>a \<in> set as. 0 < h_Weight (store a)" "i < length as"
  shows "weights store (take i as) < weights store (take (Suc i) as)"
    "weights store (take (Suc i) as) \<le> weights store as"
    "weights store (take (Suc i) as) = weights store as \<longleftrightarrow> Suc i = length as"
proof -
  have t: "take (Suc i) as = take i as @ [as ! i]" using assms(2) by (rule take_Suc_conv_app_nth)
  show "weights store (take i as) < weights store (take (Suc i) as)" using assms by (simp add: t)
  have "as = take (Suc i) as @ drop (Suc i) as" by simp
  then have s: "weights store as = weights store (take (Suc i) as) + weights store (drop (Suc i) as)"
    by (metis map_append sum_list_append)
  have pos: "\<forall>a \<in> set (drop (Suc i) as). 0 < h_Weight (store a)" using assms(1) by (auto dest: in_set_dropD)
  then show "weights store (take (Suc i) as) \<le> weights store as" using s weights_nonneg by fastforce
  have "0 < weights store (drop (Suc i) as)" if ne: "Suc i \<noteq> length as"
  proof -
    obtain x xs where "drop (Suc i) as = x # xs" using assms(2) ne by (cases "drop (Suc i) as") auto
    with pos weights_nonneg [of xs store] show ?thesis by fastforce
  qed
  then show "weights store (take (Suc i) as) = weights store as \<longleftrightarrow> Suc i = length as" using s assms(2) by fastforce
qed

lemma card_values:
  fixes p q W :: int
  assumes "0 \<le> p" "p < q" "q \<le> W" "q = W \<longleftrightarrow> l" "z \<Longrightarrow> p = 0"
  shows "int (card {v \<in> {0..<W}. (z \<or> p < v) \<and> v \<le> q}) = q - p + (if z then 1 else 0) - (if l then 1 else 0)"
proof -
  have "{v \<in> {0..<W}. (z \<or> p < v) \<and> v \<le> q} = {if z then 0 else p + 1 .. if l then q - 1 else q}"
    using assms by auto
  then show ?thesis using assms by auto
qed

text \<open>The weighted choice is off by one. Of the values \<open>rand.Intn\<close> can return for a group of hosts with positive
  weights, the first host is chosen for one more than its weight and the last for one less, because the loop
  compares with \<open>>=\<close> where the weight is exclusive; every value chooses some host. With two hosts of weight 1 the
  second is never chosen.\<close>

theorem weighted_choice_share:
  assumes "\<forall>a \<in> set as. 0 < h_Weight (store a)" "distinct as" "i < length as"
  shows "int (card {v \<in> {0..<weights store as}. choose_loop store as v = Some (as ! i)}) =
    h_Weight (store (as ! i)) + (if i = 0 then 1 else 0) - (if Suc i = length as then 1 else 0)"
proof -
  let ?P = "\<lambda>k. weights store (take k as)"
  note lt = weights_take_less [OF assms(1,3)]
  have w: "?P (Suc i) = ?P i + h_Weight (store (as ! i))"
    using take_Suc_conv_app_nth [OF assms(3)] by simp
  have p: "0 \<le> ?P i" using assms(1) by (intro weights_nonneg) (auto dest: in_set_takeD)
  have "int (card {v \<in> {0..<weights store as}. (i = 0 \<or> ?P i < v) \<and> v \<le> ?P (Suc i)}) =
      ?P (Suc i) - ?P i + (if i = 0 then 1 else 0) - (if Suc i = length as then 1 else 0)"
    by (rule card_values [OF p lt]) simp
  then show ?thesis by (simp only: choose_loop_iff [OF assms] w)
qed

theorem weighted_choice_share_witness:
  "card {v \<in> {0..<2}. choose_loop (\<lambda>a. \<lparr>h_Name = [], h_Addr = [], h_Weight = 1, h_addrs = []\<rparr>) [0, 1] v = Some 1} = 0"
  using weighted_choice_share [of "[0, 1]" "\<lambda>a. \<lparr>h_Name = [], h_Addr = [], h_Weight = 1, h_addrs = []\<rparr>" 1] by simp

text \<open>C22. \<open>GetHost\<close> returns a host whenever there is one. With the tables installed, a name that is in the table gives
  a host of that name; any other name (and the empty one) gives a host of that name from the resolver or any
  of the configured hosts; nil is returned only when no host is configured. It does not panic.\<close>

theorem GetHost_finds:
  assumes inst: "installed u g opt" and dns: "\<forall>hp. no_panic (lookupTCPAddrs env hp)"
  shows "\<exists>r u'. GetHost env name u = (Ok r, u') \<and>
    (\<forall>hg. named (u_store u) (hg_hosts g) name = Some hg \<longrightarrow> (\<exists>a \<in> set (hg_hosts hg). r = Some a)) \<and>
    (r = None \<longrightarrow> hg_hosts g = []) \<and>
    (\<forall>a. r = Some a \<longrightarrow> a \<in> set (hg_hosts g) \<or> h_Name (u_store u' a) = name)"
proof (cases "named (u_store u) (hg_hosts g) name")
  case (Some hg)
  have pos: "\<forall>a \<in> set (hg_hosts g). 0 < h_Weight (u_store u a)" using inst by (simp add: installed_def group_ok_def)
  note hg = named_ok [OF Some pos]
  obtain a r where a: "chooseByLocalHosts (Some hg) u = (Ok (Some a), u\<lparr>u_rng := r\<rparr>)" "a \<in> set (hg_hosts hg)"
    using chooseByLocalHosts_run [OF hg(1,2)] by metis
  have "name \<noteq> []" using Some by (auto simp: named_def)
  then have "GetHost env name u = (Ok (Some a), u\<lparr>u_rng := r\<rparr>)"
    using inst Some a(1) by (simp add: GetHost_def GetPreferredHost_def load_def monad_simps installed_def)
  then show ?thesis using Some a(2) hg(3) by auto
next
  case None
  obtain r1 u1 where 1: "(if name \<noteq> [] then GetPreferredHost env name else retM None) u = (Ok r1, u1)"
    "\<And>a. r1 = Some a \<Longrightarrow> h_Name (u_store u1 a) = name" "r1 = None \<Longrightarrow> u1 = u"
  proof (cases "name = [] \<or> opt_Resolv opt = None")
    case True
    then have "(if name \<noteq> [] then GetPreferredHost env name else retM None) u = (Ok None, u)"
      using None inst by (auto simp: GetPreferredHost_def load_def monad_simps installed_def chooseByLocalHosts_def)
    then show thesis by (rule that) simp_all
  next
    case False
    then obtain rule where rule: "opt_Resolv opt = Some rule" by auto
    have np: "no_panic (lookupTCPAddrs env (FullName rule name))" using dns by simp
    obtain r2 u2 where 2: "chooseByResolver env name rule u = (Ok r2, u2)"
      "\<And>a. r2 = Some a \<Longrightarrow> a = u_next u \<and> h_Name (u_store u2 a) = name" "r2 = None \<Longrightarrow> u2 = u"
      using chooseByResolver_run [OF np, of u] by metis
    have "(if name \<noteq> [] then GetPreferredHost env name else retM None) u = (Ok r2, u2)"
      using False None inst rule 2(1)
      by (simp add: GetPreferredHost_def load_def monad_simps installed_def chooseByLocalHosts_def)
    then show thesis by (rule that) (use 2 in auto)
  qed
  show ?thesis
  proof (cases r1)
    case (Some a)
    then have "GetHost env name u = (Ok (Some a), u1)" using 1(1) by (simp add: GetHost_def monad_simps)
    then show ?thesis using None Some 1(2) by auto
  next
    case r1: None
    obtain r2 u2 where 2: "GetRandomHost u = (Ok r2, u2)" "r2 = None \<longleftrightarrow> hg_hosts g = []" "\<And>a. r2 = Some a \<Longrightarrow> a \<in> set (hg_hosts g)"
      using GetRandomHost_run [OF inst] by metis
    then have "GetHost env name u = (Ok r2, u2)" using 1 r1 by (simp add: GetHost_def monad_simps)
    then show ?thesis using None 2 by auto
  qed
qed

definition ex_installed :: upstreams where
  "ex_installed = (let st = (\<lambda>_. \<lparr>h_Name = ''a'', h_Addr = ''h:1'', h_Weight = 1, h_addrs = [''x'', ''y'']\<rparr>) in
     ex_upstreams\<lparr>u_store := st, u_next := 1, u_allHosts := Some \<lparr>hg_hosts = [0], hg_weight = 1\<rparr>,
       u_byNameHosts := Some (named st [0]), u_option := Some \<lparr>opt_Net = ''tcp'', opt_Resolv = None\<rparr>\<rparr>)"

lemma ex_installed_ok:
  "installed ex_installed \<lparr>hg_hosts = [0], hg_weight = 1\<rparr> \<lparr>opt_Net = ''tcp'', opt_Resolv = None\<rparr>"
  by (simp add: installed_def ex_installed_def Let_def group_ok_def)

lemma ex_env_answers: "no_panic (lookupTCPAddrs ex_env hp)"
proof -
  have "no_panic (SplitHostPort hp)" by (auto simp: SplitHostPort_def Let_def split: option.split)
  moreover have "resolve_all ex_env s as = Ok (map (\<lambda>a. JoinHostPort a s) as)" for s as
    by (induction as) (simp_all add: ex_env_def)
  ultimately show ?thesis by (auto simp: lookupTCPAddrs_def ex_env_def intro!: no_panic_bind)
qed

theorem GetHost_finds_witness:
  "\<exists>r u'. GetHost ex_env ''a'' ex_installed = (Ok r, u') \<and> r = Some 0"
  using GetHost_finds [OF ex_installed_ok, of ex_env "''a''"] ex_env_answers
  by (auto simp: named_def ex_installed_def Let_def)

lemma dial_loop_finds:
  assumes "\<forall>x. no_panic (DialTCP env x)" "x \<in> set addrs" "DialTCP env x = Ok c0"
  shows "\<exists>y c. y \<in> set addrs \<and> DialTCP env y = Ok c \<and> dial_loop env addrs ce = Ok (c, None)"
  using assms(2)
proof (induction addrs arbitrary: ce)
  case (Cons a as)
  show ?case
  proof (cases "DialTCP env a")
    case (Ok c)
    then show ?thesis by auto
  next
    case (Fail e)
    then have "x \<in> set as" using Cons.prems assms(3) by auto
    from Cons.IH [OF this, of "(nil_tcp, Some e)"] Fail show ?thesis by auto
  qed (use assms(1) in \<open>auto simp: no_panic_def\<close>)
qed simp

lemma dial_loop_fails:
  assumes "\<forall>x. no_panic (DialTCP env x)" "\<forall>x \<in> set addrs. \<forall>c. DialTCP env x \<noteq> Ok c" "addrs \<noteq> [] \<or> snd ce \<noteq> None"
  shows "\<exists>c e. dial_loop env addrs ce = Ok (c, Some e)"
  using assms(2,3)
proof (induction addrs arbitrary: ce)
  case Nil
  then show ?case by (cases ce) auto
next
  case (Cons a as)
  have "no_panic (DialTCP env a)" using assms(1) by blast
  then obtain e where "DialTCP env a = Fail e" using Cons.prems by (cases "DialTCP env a") auto
  then show ?case using Cons.IH [of "(nil_tcp, Some e)"] Cons.prems by simp
qed

lemma on_app [monad_simps]:
  "onW m (w, u) = (case m w of (r, w') \<Rightarrow> (r, w', u))" "onU m2 (w, u) = (case m2 u of (r, u') \<Rightarrow> (r, w, u'))"
  by (simp_all add: onW_def onU_def)

text \<open>\<open>NewConn\<close> up to the choice of the network connection.\<close>

lemma NewConn_dialled:
  assumes "GetHost env (cf_TargetServer (c_config (w_conns w remote))) u = (Ok (Some a), u1)"
  obtains addrs u2 where "set addrs = set (h_addrs (u_store u1 a))" "length addrs = length (h_addrs (u_store u1 a))"
    "u_option u2 = u_option u1" "NewConn env ops hook remote (w, u) = NewConn_dial env ops hook remote addrs (w, u2)"
proof -
  obtain addrs g where sh: "Shuffle (h_addrs (u_store u1 a)) (u_rng u1) = (addrs, g)" by fastforce
  let ?u2 = "u1\<lparr>u_store := (u_store u1)(a := (u_store u1 a)\<lparr>h_addrs := addrs\<rparr>), u_rng := g\<rparr>"
  have "shuffle_addrs a u1 = (Ok addrs, ?u2)" by (simp add: shuffle_addrs_def sh)
  then show thesis
    using Shuffle_set [of "h_addrs (u_store u1 a)" "u_rng u1"] assms
    by (intro that [of addrs ?u2]) (simp_all add: sh NewConn_def on_app conn_of_eq bindM_app Let_def)
qed



text \<open>C40. When the backend speaks \<open>scp\<close> and its handshake fails, \<open>NewConn\<close> crashes: \<open>upgradeConn\<close> returns the nil
  connection with the error, and \<open>NewConn\<close> calls \<open>Close\<close> on it. Neither the error nor the connection reaches the
  caller, and the network connection that was dialled stays as the handshake left it.\<close>

theorem failed_upgrade_panics:
  assumes host: "GetHost env (cf_TargetServer (c_config (w_conns w remote))) u = (Ok (Some a), u1)"
    and opt: "u_option u1 = Some opt" and dial: "\<forall>x. DialTCP env x = Ok c" and addrs: "h_addrs (u_store u1 a) \<noteq> []"
    and up: "upgradeConn ops (opt_Net opt) (w_next w) remote
      (w\<lparr>w_nets := (w_nets w)(w_next w := c), w_next := Suc (w_next w)\<rparr>) = (Ok (conn, Some e), w2)"
  shows "\<exists>m u'. NewConn env ops hook remote (w, u) = (Panic m, w2, u')"
proof -
  obtain as u2 where as: "length as = length (h_addrs (u_store u1 a))" "u_option u2 = u_option u1"
    and run: "NewConn env ops hook remote (w, u) = NewConn_dial env ops hook remote as (w, u2)"
    by (rule NewConn_dialled [OF host])
  have "conn = NilConn" using up by (auto simp: upgradeConn_def bindM_eq_Ok retM_def split: if_splits option.splits)
  moreover have "dial_loop env as (nil_tcp, None) = Ok (c, None)" using addrs as(1) dial by (cases as) auto
  ultimately show ?thesis
    using opt up as(2) by (simp add: run NewConn_dial_def monad_simps alloc_net_def load_def upconn_Close_def)
qed

text \<open>A backend that takes no bytes.\<close>

lemma ex_upgrade_fails:
  defines "w \<equiv> ex_world (rc4_NewCipher [9]) [1] [7] 1 0 []"
  obtains w2 where "upgradeConn ex_ops ''scp'' 9 0 (w\<lparr>w_nets := (w_nets w)(9 := nil_tcp), w_next := Suc 9\<rparr>) =
    (Ok (NilConn, Some (ErrNet ''invalid argument'')), w2)"
proof -
  have p: "PrivateKey (\<lambda>_. 3) 0 = Some (3, 1)" using PrivateKey_from [of "\<lambda>_. 3" 0 0] by simp
  show thesis
    by (rule that) (simp add: w_def upgradeConn_def Client_def alloc_conn_def zeroConn_def monad_simps Handshake_def
        handshake_once_def IsServerConn_def clientHandshake_def clientNewHandshake_def draw_PrivateKey_def
        ex_world_def p PublicKey_3 writeRecord_def nc_writeAll_def nc_Write_def nil_tcp_def Let_def upd_net_def)
qed

theorem failed_upgrade_panics_witness:
  "\<exists>m w' u'. NewConn (ex_env\<lparr>DialTCP := \<lambda>_. Ok nil_tcp\<rparr>) ex_ops None 0
     (ex_world (rc4_NewCipher [9]) [1] [7] 1 0 [], ex_installed\<lparr>u_option := Some \<lparr>opt_Net = ''scp'', opt_Resolv = None\<rparr>\<rparr>) =
     (Panic m, w', u')"
proof (rule ex_upgrade_fails)
  let ?w = "ex_world (rc4_NewCipher [9]) [1] [7] 1 0 []" and ?u = "ex_installed\<lparr>u_option := Some \<lparr>opt_Net = ''scp'', opt_Resolv = None\<rparr>\<rparr>"
  let ?env = "ex_env\<lparr>DialTCP := \<lambda>_. Ok nil_tcp\<rparr>"
  fix w2 assume up: "upgradeConn ex_ops ''scp'' 9 0 (?w\<lparr>w_nets := (w_nets ?w)(9 := nil_tcp), w_next := Suc 9\<rparr>) =
    (Ok (NilConn, Some (ErrNet ''invalid argument'')), w2)"
  have h: "GetHost ?env (cf_TargetServer (c_config (w_conns ?w 0))) ?u =
      (Ok (Some 0), ?u\<lparr>u_rng := \<lparr>rng_seq = (\<lambda>n. n), rng_pos = 1\<rparr>\<rparr>)" (is "_ = (_, ?u1)")
    by (simp add: GetHost_def GetRandomHost_def load_def monad_simps ex_defs ex_installed_def ex_upstreams_def Let_def
        chooseByLocalHosts_def rand_Intn_def Intn_def)
  have o: "u_option ?u1 = Some \<lparr>opt_Net = ''scp'', opt_Resolv = None\<rparr>" "h_addrs (u_store ?u1 0) \<noteq> []"
    by (simp_all add: ex_installed_def Let_def)
  have d: "\<forall>x. DialTCP ?env x = Ok nil_tcp" by simp
  have n: "w_next ?w = 9" by (simp add: ex_defs)
  have "upgradeConn ex_ops (opt_Net \<lparr>opt_Net = ''scp'', opt_Resolv = None\<rparr>) (w_next ?w) 0
      (?w\<lparr>w_nets := (w_nets ?w)(w_next ?w := nil_tcp), w_next := Suc (w_next ?w)\<rparr>) =
      (Ok (NilConn, Some (ErrNet ''invalid argument'')), w2)"
    unfolding n using up by simp
  from failed_upgrade_panics [OF h o(1) d o(2) this, of None] show ?thesis by blast
qed

end
