(* ===== verification/Scp_Session.thy ===== *)
theory Scp_Session
  imports Upstream
begin

text \<open>
  \<open>remoteconn.go\<close>: \<open>SCPConn\<close>, the connection to a client that survives the loss of its network connection. Readers and
  writers wait in \<open>acquireConn\<close> while the connection is broken, until \<open>ReplaceConn\<close> brings a new one or the
  timer closes the session. \<open>localconn.go\<close>, the same for the connection to a backend, is at the end.

  Each critical section (the code between \<open>Lock\<close> and \<open>Unlock\<close>, and from the return of \<open>connCond.Wait\<close> to the next
  wait or \<open>Unlock\<close>) is one function on the record \<open>mon\<close>, which holds the fields of the \<open>SCPConn\<close> and the goroutines
  of \<open>startWait\<close>. The system is the step relation \<open>sstep\<close>: any number of goroutines in \<open>Read\<close> and \<open>Write\<close>, the
  timers, calls of \<open>ReplaceConn\<close> and \<open>Close\<close> at any moment, and arbitrary changes of the connections by the rest of
  the program between the steps. Time is not modelled: a timer may fire at any moment.
\<close>

section \<open>State\<close>

record SCPConn =
  s_Conn :: nat
  s_connErr :: "goerr option"
  s_connClosed :: bool
  s_reuseCh :: "nat option"
  s_reuseTimeout :: int

text \<open>The goroutine of \<open>startWait\<close>: its channel \<open>done\<close> may be closed; it waits, or has taken the branch of the timeout
  (and is about to call \<open>Close\<close>), or is over.\<close>

datatype tstate = Waiting | Fired | Ended

record timer =
  tm_done :: bool
  tm_st :: tstate

record mon =
  m_s :: SCPConn
  m_timers :: "nat \<Rightarrow> timer"
  m_next :: nat

section \<open>The critical sections\<close>

definition setConnError :: "nat \<Rightarrow> goerr option \<Rightarrow> mon \<Rightarrow> mon" where
  "setConnError conn err m =
     (if err = None then m
      else if conn \<noteq> s_Conn (m_s m) then m
      else if s_connClosed (m_s m) then m
      else m\<lparr>m_s := (m_s m)\<lparr>s_connErr := err\<rparr>\<rparr>)"

definition startWait :: "mon \<Rightarrow> mon" where
  "startWait m =
     (if s_reuseCh (m_s m) \<noteq> None then m
      else let done = m_next m in
        m\<lparr>m_timers := (m_timers m)(done := \<lparr>tm_done = False, tm_st = Waiting\<rparr>), m_next := Suc done,
          m_s := (m_s m)\<lparr>s_reuseCh := Some done\<rparr>\<rparr>)"

text \<open>Closing a closed channel panics.\<close>

definition stopWait :: "mon \<Rightarrow> mon res" where
  "stopWait m = (case s_reuseCh (m_s m) of
     None \<Rightarrow> Ok m
   | Some ch \<Rightarrow>
       if tm_done (m_timers m ch) then Panic ''close of closed channel''
       else Ok (m\<lparr>m_timers := (m_timers m)(ch := (m_timers m ch)\<lparr>tm_done := True\<rparr>),
                 m_s := (m_s m)\<lparr>s_reuseCh := None\<rparr>\<rparr>))"

text \<open>\<open>acquireConn\<close> up to \<open>connCond.Wait\<close> or its return, and the same after the wait.\<close>

datatype acquired = Closed "goerr option" | Waits | Got nat

definition acquire_loop :: "mon \<Rightarrow> acquired \<times> mon" where
  "acquire_loop m =
     (if s_connClosed (m_s m) then (Closed (s_connErr (m_s m)), m)
      else if s_connErr (m_s m) \<noteq> None then (Waits, startWait m)
      else (Got (s_Conn (m_s m)), m))"

definition acquire_wake :: "mon \<Rightarrow> (acquired \<times> mon) res" where
  "acquire_wake m = map_res acquire_loop (stopWait m)"

definition ReplaceConn :: "nat \<Rightarrow> ('srv world \<times> mon, bool) M" where
  "ReplaceConn conn = (\<lambda>(w, m).
     if s_connClosed (m_s m) then (Ok False, w, m)
     else case Conn_Close (s_Conn (m_s m)) w of
       (Ok _, w') \<Rightarrow> (Ok True, w', m\<lparr>m_s := (m_s m)\<lparr>s_Conn := conn, s_connErr := None\<rparr>\<rparr>)
     | (Fail e, w') \<Rightarrow> (Fail e, w', m) | (Panic p, w') \<Rightarrow> (Panic p, w', m) | (Hang, w') \<Rightarrow> (Hang, w', m))"

text \<open>\<open>Close\<close> returns the error.\<close>

definition SCPConn_Close :: "('srv world \<times> mon, goerr option) M" where
  "SCPConn_Close = (\<lambda>(w, m).
     if s_connClosed (m_s m) then (Ok (s_connErr (m_s m)), w, m)
     else let m1 = m\<lparr>m_s := (m_s m)\<lparr>s_connClosed := True, s_connErr := Some ErrConnClosed\<rparr>\<rparr> in
       case Conn_Close (s_Conn (m_s m)) w of
         (Ok _, w') \<Rightarrow> (Ok None, w', m1)
       | (Fail e, w') \<Rightarrow> (Fail e, w', m1) | (Panic p, w') \<Rightarrow> (Panic p, w', m1) | (Hang, w') \<Rightarrow> (Hang, w', m1))"

definition NewSCPConn :: "nat \<Rightarrow> int \<Rightarrow> mon" where
  "NewSCPConn scon reuseTimeout =
     \<lparr>m_s = \<lparr>s_Conn = scon, s_connErr = None, s_connClosed = False, s_reuseCh = None, s_reuseTimeout = reuseTimeout\<rparr>,
      m_timers = (\<lambda>_. \<lparr>tm_done = False, tm_st = Ended\<rparr>), m_next = 0\<rparr>"

section \<open>Read and Write as steps\<close>

text \<open>A call under way: \<open>Read\<close> into \<open>n\<close> bytes, or \<open>Write\<close> of \<open>p\<close> with \<open>nn\<close> bytes accepted so far.\<close>

datatype job = JRead nat | JWrite "byte list" nat

datatype pc =
    Acquiring job
  | Blocked job bool
  | Use job nat
  | Failed job nat goerr "byte list" nat
  | Frozen job nat goerr "byte list" nat
  | Read_ret "byte list" "goerr option"
  | Write_ret nat "goerr option"
  | Crashed

text \<open>After \<open>acquireConn\<close>; without a connection and without an error the call would dereference nil.\<close>

fun resume_job :: "job \<Rightarrow> acquired \<Rightarrow> pc" where
  "resume_job j Waits = Blocked j False"
| "resume_job j (Got c) = Use j c"
| "resume_job (JRead n) (Closed e) = (if e = None then Crashed else Read_ret [] e)"
| "resume_job (JWrite p nn) (Closed e) = (if e = None then Crashed else Write_ret 0 e)"

text \<open>After \<open>conn.Read\<close> or \<open>conn.Write\<close> and the handling of its error: \<open>Read\<close> returns what it read and no
  error, \<open>Write\<close> goes round its loop until all is accepted.\<close>

fun finish_job :: "job \<Rightarrow> byte list \<Rightarrow> nat \<Rightarrow> pc" where
  "finish_job (JRead n) q k = Read_ret q None"
| "finish_job (JWrite p nn) q k =
     (if nn + k = length p then Write_ret (nn + k) None else Acquiring (JWrite p (nn + k)))"

text \<open>The call on the connection: the next control point and the world.\<close>

fun use_conn :: "'srv SCPServer_ops \<Rightarrow> job \<Rightarrow> nat \<Rightarrow> 'srv world \<Rightarrow> pc res \<times> 'srv world" where
  "use_conn ops (JRead n) c w = bindM (Conn_Read ops c n) (\<lambda>(q, e). retM (case e of
     Some err \<Rightarrow> Failed (JRead n) c err q (length q) | None \<Rightarrow> finish_job (JRead n) q (length q))) w"
| "use_conn ops (JWrite p nn) c w = bindM (Conn_Write ops c (drop nn p)) (\<lambda>(k, e). retM (case e of
     Some err \<Rightarrow> Failed (JWrite p nn) c err [] k | None \<Rightarrow> finish_job (JWrite p nn) [] k)) w"

record 'srv sys =
  sy_w :: "'srv world"
  sy_m :: mon
  sy_th :: "nat \<Rightarrow> pc option"

text \<open>\<open>connCond.Broadcast\<close>.\<close>

definition signalled :: "pc \<Rightarrow> pc" where
  "signalled p = (case p of Blocked j b \<Rightarrow> Blocked j True | _ \<Rightarrow> p)"

definition broadcast :: "(nat \<Rightarrow> pc option) \<Rightarrow> nat \<Rightarrow> pc option" where
  "broadcast th = (\<lambda>t. map_option signalled (th t))"

inductive sstep :: "'srv SCPServer_ops \<Rightarrow> 'srv sys \<Rightarrow> 'srv sys \<Rightarrow> bool" for ops where
  Call: "sy_th s t = None \<Longrightarrow> j = JRead n \<or> j = JWrite p 0 \<Longrightarrow>
    sstep ops s (s\<lparr>sy_th := (sy_th s)(t \<mapsto> Acquiring j)\<rparr>)"
| Enter: "sy_th s t = Some (Acquiring j) \<Longrightarrow> acquire_loop (sy_m s) = (a, m') \<Longrightarrow>
    sstep ops s (s\<lparr>sy_m := m', sy_th := (sy_th s)(t \<mapsto> resume_job j a)\<rparr>)"
| Wake: "sy_th s t = Some (Blocked j True) \<Longrightarrow> acquire_wake (sy_m s) = Ok (a, m') \<Longrightarrow>
    sstep ops s (s\<lparr>sy_m := m', sy_th := (sy_th s)(t \<mapsto> resume_job j a)\<rparr>)"
| Run: "sy_th s t = Some (Use j c) \<Longrightarrow> use_conn ops j c (sy_w s) = (Ok p', w') \<Longrightarrow>
    sstep ops s (s\<lparr>sy_w := w', sy_th := (sy_th s)(t \<mapsto> p')\<rparr>)"
| Freezes: "sy_th s t = Some (Failed j c e q k) \<Longrightarrow> Freeze c (sy_w s) = (Ok (), w') \<Longrightarrow>
    sstep ops s (s\<lparr>sy_w := w', sy_th := (sy_th s)(t \<mapsto> Frozen j c e q k)\<rparr>)"
| SetError: "sy_th s t = Some (Frozen j c e q k) \<Longrightarrow>
    sstep ops s (s\<lparr>sy_m := setConnError c (Some e) (sy_m s), sy_th := (sy_th s)(t \<mapsto> finish_job j q k)\<rparr>)"
| Return: "sy_th s t = Some (Read_ret q r) \<or> sy_th s t = Some (Write_ret k r) \<Longrightarrow>
    sstep ops s (s\<lparr>sy_th := (sy_th s)(t := None)\<rparr>)"
| Fire: "tm_st (m_timers (sy_m s) ch) = Waiting \<Longrightarrow>
    sstep ops s (s\<lparr>sy_m := (sy_m s)\<lparr>m_timers := (m_timers (sy_m s))(ch := (m_timers (sy_m s) ch)\<lparr>tm_st := Fired\<rparr>)\<rparr>\<rparr>)"
| Stop: "tm_st (m_timers (sy_m s) ch) = Waiting \<Longrightarrow> tm_done (m_timers (sy_m s) ch) \<Longrightarrow>
    sstep ops s (s\<lparr>sy_m := (sy_m s)\<lparr>m_timers := (m_timers (sy_m s))(ch := (m_timers (sy_m s) ch)\<lparr>tm_st := Ended\<rparr>)\<rparr>\<rparr>)"
| Timeout: "tm_st (m_timers (sy_m s) ch) = Fired \<Longrightarrow> SCPConn_Close (sy_w s, sy_m s) = (Ok r, w', m') \<Longrightarrow>
    sstep ops s \<lparr>sy_w = w', sy_m = m'\<lparr>m_timers := (m_timers m')(ch := (m_timers m' ch)\<lparr>tm_st := Ended\<rparr>)\<rparr>,
      sy_th = (if s_connClosed (m_s (sy_m s)) then sy_th s else broadcast (sy_th s))\<rparr>"
| Closes: "SCPConn_Close (sy_w s, sy_m s) = (Ok r, w', m') \<Longrightarrow>
    sstep ops s \<lparr>sy_w = w', sy_m = m', sy_th = (if s_connClosed (m_s (sy_m s)) then sy_th s else broadcast (sy_th s))\<rparr>"
| Replace: "ReplaceConn c (sy_w s, sy_m s) = (Ok b, w', m') \<Longrightarrow>
    sstep ops s \<lparr>sy_w = w', sy_m = m', sy_th = (if b then broadcast (sy_th s) else sy_th s)\<rparr>"
| World: "sstep ops s (s\<lparr>sy_w := w'\<rparr>)"

section \<open>The session with a backend\<close>

text \<open>\<open>reuseConn\<close>: a new connection to the backend's address that takes over \<open>connForReused\<close>. The results are the
  connection (nil on the first two errors) and the error.\<close>

definition reuseConn :: "net_env \<Rightarrow> 'srv SCPServer_ops \<Rightarrow> nat \<Rightarrow> ('srv world, nat option \<times> goerr option) M" where
  "reuseConn env ops connForReused =
     bindM (conn_of connForReused) (\<lambda>old.
     bindM (tryM (liftM (net_Dial env (RemoteAddr env (c_conn old))))) (\<lambda>dialled. case dialled of
       Inl err \<Rightarrow> retM (None, Some err)
     | Inr x \<Rightarrow>
         bindM (alloc_net x) (\<lambda>tcpConn.
         bindM (tryM (Client tcpConn (Some \<lparr>cf_Flag = 0, cf_TargetServer = cf_TargetServer (c_config old),
           cf_ConnForReused = Some connForReused, cf_ScpServer = False\<rparr>))) (\<lambda>client. case client of
           Inl err \<Rightarrow> retM (None, Some err)
         | Inr scon \<Rightarrow>
             bindM (Handshake ops scon) (\<lambda>err. case err of
               Some e \<Rightarrow> bindM (Conn_Close scon) (\<lambda>_. retM (Some scon, Some e))
             | None \<Rightarrow> retM (Some scon, None))))))"

text \<open>A call on the connections alone, in a session.\<close>

definition onS :: "('srv world, 'a) M \<Rightarrow> ('srv world \<times> mon, 'a) M" where
  "onS f = (\<lambda>(w, m). case f w of (r, w') \<Rightarrow> (r, w', m))"

definition LocalSCPConn_reuseConn :: "net_env \<Rightarrow> 'srv SCPServer_ops \<Rightarrow> ('srv world \<times> mon, unit) M" where
  "LocalSCPConn_reuseConn env ops =
     bindM (getM (\<lambda>(w, m). s_Conn (m_s m))) (\<lambda>conn.
     bindM (onS (reuseConn env ops conn)) (\<lambda>(scon, err).
     if err \<noteq> None then retM ()
     else bindM (deref scon) (\<lambda>c.
       bindM (ReplaceConn c) (\<lambda>ok. if \<not> ok then onS (Conn_Close c) else retM ()))))"

text \<open>The wait of a \<open>LocalSCPConn\<close>: the monitor, and the goroutine it starts. It is never called: \<open>acquireConn\<close> is a
  method of the embedded \<open>SCPConn\<close> and calls the \<open>startWait\<close> of that type.\<close>

definition LocalSCPConn_startWait :: "net_env \<Rightarrow> 'srv SCPServer_ops \<Rightarrow> mon \<Rightarrow> mon \<times> ('srv world \<times> mon, unit) M" where
  "LocalSCPConn_startWait env ops m = (startWait m, LocalSCPConn_reuseConn env ops)"

definition NewLocalSCPConn :: "nat \<Rightarrow> int \<Rightarrow> mon" where
  "NewLocalSCPConn scon reuseTimeout = NewSCPConn scon reuseTimeout"

section \<open>The invariant\<close>

definition mon_ok :: "mon \<Rightarrow> bool" where
  "mon_ok m \<longleftrightarrow> (s_connClosed (m_s m) \<longrightarrow> s_connErr (m_s m) = Some ErrConnClosed) \<and>
     (\<forall>ch. s_reuseCh (m_s m) = Some ch \<longrightarrow> \<not> tm_done (m_timers m ch) \<and>
        (tm_st (m_timers m ch) = Ended \<longrightarrow> s_connClosed (m_s m)))"

text \<open>A write is accepted as a whole or not at all.\<close>

definition job_ok :: "job \<Rightarrow> bool" where
  "job_ok j = (case j of JRead n \<Rightarrow> True | JWrite p nn \<Rightarrow> nn = 0)"

fun pc_ok :: "mon \<Rightarrow> pc \<Rightarrow> bool" where
  "pc_ok m (Acquiring j) = job_ok j"
| "pc_ok m (Blocked j b) = (job_ok j \<and> (\<not> b \<longrightarrow>
     \<not> s_connClosed (m_s m) \<and> s_connErr (m_s m) \<noteq> None \<and> s_reuseCh (m_s m) \<noteq> None))"
| "pc_ok m (Use j c) = job_ok j"
| "pc_ok m (Failed j c e q k) = (job_ok j \<and> (case j of JRead n \<Rightarrow> True | JWrite p nn \<Rightarrow> k = 0 \<or> k = length p))"
| "pc_ok m (Frozen j c e q k) = (job_ok j \<and> (case j of JRead n \<Rightarrow> True | JWrite p nn \<Rightarrow> k = 0 \<or> k = length p))"
| "pc_ok m (Read_ret q r) = (r \<noteq> None \<longrightarrow> r = Some ErrConnClosed \<and> q = [])"
| "pc_ok m (Write_ret k r) = (r \<noteq> None \<longrightarrow> r = Some ErrConnClosed \<and> k = 0)"
| "pc_ok m Crashed = False"

definition sys_ok :: "'srv sys \<Rightarrow> bool" where
  "sys_ok s \<longleftrightarrow> mon_ok (sy_m s) \<and> (\<forall>t p. sy_th s t = Some p \<longrightarrow> pc_ok (sy_m s) p)"

lemma sys_okI:
  assumes "sys_ok s" "mon_ok m'" "\<And>p. pc_ok (sy_m s) p \<Longrightarrow> pc_ok m' p" "pc_ok m' p'"
  shows "sys_ok (s\<lparr>sy_w := w', sy_m := m', sy_th := (sy_th s)(t \<mapsto> p')\<rparr>)"
  using assms by (simp add: sys_ok_def)

lemma sys_okD: "sys_ok s \<Longrightarrow> sy_th s t = Some p \<Longrightarrow> pc_ok (sy_m s) p" "sys_ok s \<Longrightarrow> mon_ok (sy_m s)"
  by (simp_all add: sys_ok_def)

lemma startWait_ok: "mon_ok m \<Longrightarrow> mon_ok (startWait m)"
  by (auto simp: mon_ok_def startWait_def Let_def)

lemma startWait_fields [simp]:
  "s_connClosed (m_s (startWait m)) = s_connClosed (m_s m)" "s_connErr (m_s (startWait m)) = s_connErr (m_s m)"
  "s_Conn (m_s (startWait m)) = s_Conn (m_s m)" "\<exists>ch. s_reuseCh (m_s (startWait m)) = Some ch"
  by (auto simp: startWait_def Let_def)

lemma acquire_loop_ok:
  assumes "acquire_loop m = (a, m')" "mon_ok m" "job_ok j"
  shows "mon_ok m'" "pc_ok m' (resume_job j a)" "\<And>p. pc_ok m p \<Longrightarrow> pc_ok m' p"
proof -
  show "mon_ok m'" using assms startWait_ok by (auto simp: acquire_loop_def split: if_splits)
  show "pc_ok m' (resume_job j a)"
    using assms by (cases j) (auto simp: acquire_loop_def mon_ok_def job_ok_def split: if_splits)
  show "pc_ok m' p" if "pc_ok m p" for p
    using assms(1) that by (cases p) (auto simp: acquire_loop_def split: if_splits)
qed

text \<open>A thread that wakes cancels the timer and, if the connection is still broken, starts another one
  before anyone else can look.\<close>

lemma acquire_wake_ok:
  assumes "mon_ok m" "job_ok j"
  obtains a m' where "acquire_wake m = Ok (a, m')" "mon_ok m'" "pc_ok m' (resume_job j a)" "\<And>p. pc_ok m p \<Longrightarrow> pc_ok m' p"
proof -
  obtain m1 where m1: "stopWait m = Ok m1" using assms(1) by (cases "s_reuseCh (m_s m)") (auto simp: stopWait_def mon_ok_def)
  then have s1: "mon_ok m1" "s_connClosed (m_s m1) = s_connClosed (m_s m)" "s_connErr (m_s m1) = s_connErr (m_s m)"
    using assms(1) by (auto simp: stopWait_def mon_ok_def split: option.splits if_splits)
  obtain a m' where a: "acquire_loop m1 = (a, m')" by fastforce
  have "pc_ok m' p" if "pc_ok m p" for p
    using a that s1(2,3) by (cases p) (auto simp: acquire_loop_def split: if_splits)
  then show thesis
    using that acquire_loop_ok(1,2) [OF a s1(1) assms(2)] m1 a by (simp add: acquire_wake_def map_res_def)
qed

lemma Conn_Write_count:
  assumes "Conn_Write ops c b w = (Ok (k, e), w')"
  shows "k = length b \<or> k = 0 \<and> e \<noteq> None"
  using assms by (auto simp: Conn_Write_def bindM_eq_Ok out_Write_def Let_def retM_def split: option.splits)

lemma use_conn_ok:
  assumes "use_conn ops j c w = (Ok p', w')" "job_ok j"
  shows "pc_ok m p'"
proof (cases j)
  case (JRead n)
  then show ?thesis using assms by (auto simp: bindM_eq_Ok retM_def job_ok_def split: option.splits)
next
  case (JWrite p nn)
  with assms obtain k e where "Conn_Write ops c p w = (Ok (k, e), w')"
    "p' = (case e of Some err \<Rightarrow> Failed j c err [] k | None \<Rightarrow> finish_job j [] k)"
    by (auto simp: bindM_eq_Ok retM_def job_ok_def)
  with Conn_Write_count [OF this(1)] JWrite assms(2) show ?thesis
    by (auto simp: job_ok_def split: option.splits)
qed

lemma finish_job_ok:
  assumes "job_ok j" "case j of JRead n \<Rightarrow> True | JWrite p nn \<Rightarrow> k = 0 \<or> k = length p"
  shows "pc_ok m (finish_job j q k)"
  using assms by (cases j) (auto simp: job_ok_def)

lemma pc_ok_mono:
  assumes "pc_ok m p" "s_connClosed (m_s m') = s_connClosed (m_s m)" "s_reuseCh (m_s m') = s_reuseCh (m_s m)"
    "s_connErr (m_s m) \<noteq> None \<Longrightarrow> s_connErr (m_s m') \<noteq> None"
  shows "pc_ok m' p"
  using assms by (cases p) auto

lemma pc_ok_timers [simp]: "pc_ok (m\<lparr>m_timers := x\<rparr>) p = pc_ok m p"
  by (cases p) simp_all

lemma pc_ok_signalled: "pc_ok m p \<Longrightarrow> pc_ok m' (signalled p)"
  by (cases p) (auto simp: signalled_def)

lemma sys_ok_broadcast:
  assumes "sys_ok s" "mon_ok m'"
  shows "sys_ok \<lparr>sy_w = w', sy_m = m', sy_th = broadcast (sy_th s)\<rparr>"
  using assms by (auto simp: sys_ok_def broadcast_def intro: pc_ok_signalled)

lemma SCPConn_Close_run:
  assumes "SCPConn_Close (w, m) = (Ok r, w', m')"
  shows "s_connClosed (m_s m) \<Longrightarrow> w' = w \<and> m' = m"
    "\<not> s_connClosed (m_s m) \<Longrightarrow> m' = m\<lparr>m_s := (m_s m)\<lparr>s_connClosed := True, s_connErr := Some ErrConnClosed\<rparr>\<rparr>"
  using assms by (auto simp: SCPConn_Close_def Let_def split: prod.splits res.splits)

lemma ReplaceConn_run:
  assumes "ReplaceConn c (w, m) = (Ok b, w', m')"
  shows "b \<longleftrightarrow> \<not> s_connClosed (m_s m)" "\<not> b \<Longrightarrow> w' = w \<and> m' = m"
    "b \<Longrightarrow> m' = m\<lparr>m_s := (m_s m)\<lparr>s_Conn := c, s_connErr := None\<rparr>\<rparr>"
  using assms by (auto simp: ReplaceConn_def split: prod.splits res.splits if_splits)

lemma sstep_sys_ok:
  assumes "sstep ops s s'" "sys_ok s"
  shows "sys_ok s'"
  using assms
proof (induction rule: sstep.induct)
  case (Call s t j n p)
  then show ?case by (auto simp: sys_ok_def job_ok_def)
next
  case (Enter s t j a m')
  have j: "job_ok j" "mon_ok (sy_m s)" using sys_okD(1) [OF Enter.prems Enter(1)] sys_okD(2) [OF Enter.prems] by simp_all
  from sys_okI [OF Enter.prems acquire_loop_ok(1) [OF Enter(2) j(2,1)] acquire_loop_ok(3) [OF Enter(2) j(2,1)]
      acquire_loop_ok(2) [OF Enter(2) j(2,1)], where w' = "sy_w s" and t = t] show ?case by simp
next
  case (Wake s t j a m')
  have j: "mon_ok (sy_m s)" "job_ok j" using sys_okD(1) [OF Wake.prems Wake(1)] sys_okD(2) [OF Wake.prems] by simp_all
  have "mon_ok m'" "pc_ok m' (resume_job j a)" "\<And>p. pc_ok (sy_m s) p \<Longrightarrow> pc_ok m' p"
    using acquire_wake_ok [OF j] Wake(2) by (metis prod.inject res.inject(1))+
  from sys_okI [OF Wake.prems this(1,3,2), where w' = "sy_w s" and t = t] show ?case by simp
next
  case (Run s t j c p' w')
  have "job_ok j" using sys_okD(1) [OF Run.prems Run(1)] by simp
  from use_conn_ok [OF Run(2) this] Run.prems show ?case by (auto simp: sys_ok_def)
next
  case (Freezes s t j c e q k w')
  then show ?case using sys_okD(1) [OF Freezes.prems Freezes(1)] by (auto simp: sys_ok_def)
next
  case (SetError s t j c e q k)
  have "pc_ok (sy_m s) (Frozen j c e q k)" by (rule sys_okD(1) [OF SetError.prems SetError(1)])
  then have "pc_ok (setConnError c (Some e) (sy_m s)) (finish_job j q k)" by (intro finish_job_ok) auto
  moreover have "mon_ok (setConnError c (Some e) (sy_m s))"
    using SetError.prems by (auto simp: sys_ok_def mon_ok_def setConnError_def)
  moreover have "pc_ok (setConnError c (Some e) (sy_m s)) p" if "pc_ok (sy_m s) p" for p
    using that by (rule pc_ok_mono) (auto simp: setConnError_def)
  ultimately show ?case using sys_okI [OF SetError.prems, where w' = "sy_w s" and t = t] by simp
next
  case (Return s t q r k)
  then show ?case by (auto simp: sys_ok_def)
next
  case (Fire s ch)
  then show ?case by (auto simp: sys_ok_def mon_ok_def)
next
  case (Stop s ch)
  then show ?case by (auto simp: sys_ok_def mon_ok_def)
next
  case (Timeout s ch r w' m')
  show ?case
  proof (cases "s_connClosed (m_s (sy_m s))")
    case True
    then have "m' = sy_m s" using SCPConn_Close_run(1) [OF Timeout(2)] by simp
    with True Timeout.prems show ?thesis by (auto simp: sys_ok_def mon_ok_def)
  next
    case False
    from SCPConn_Close_run(2) [OF Timeout(2) False] Timeout.prems
    have "mon_ok (m'\<lparr>m_timers := (m_timers m')(ch := (m_timers m' ch)\<lparr>tm_st := Ended\<rparr>)\<rparr>)"
      by (auto simp: sys_ok_def mon_ok_def)
    from sys_ok_broadcast [OF Timeout.prems this] False show ?thesis by simp
  qed
next
  case (Closes s r w' m')
  show ?case
  proof (cases "s_connClosed (m_s (sy_m s))")
    case True
    then have "m' = sy_m s" using SCPConn_Close_run(1) [OF Closes(1)] by simp
    with True Closes.prems show ?thesis by (simp add: sys_ok_def)
  next
    case False
    from SCPConn_Close_run(2) [OF Closes(1) False] Closes.prems have "mon_ok m'" by (auto simp: sys_ok_def mon_ok_def)
    from sys_ok_broadcast [OF Closes.prems this] False show ?thesis by simp
  qed
next
  case (Replace c s b w' m')
  show ?case
  proof (cases b)
    case True
    from ReplaceConn_run(1,3) [OF Replace(1)] True Replace.prems have "mon_ok m'" by (auto simp: sys_ok_def mon_ok_def)
    from sys_ok_broadcast [OF Replace.prems this] True show ?thesis by simp
  next
    case False
    then have "m' = sy_m s" using ReplaceConn_run(2) [OF Replace(1)] by simp
    with False Replace.prems show ?thesis by (simp add: sys_ok_def)
  qed
next
  case (World s w')
  then show ?case by (simp add: sys_ok_def)
qed

section \<open>Runs\<close>

definition start_sys :: "'srv world \<Rightarrow> nat \<Rightarrow> int \<Rightarrow> 'srv sys" where
  "start_sys w c reuseTimeout = \<lparr>sy_w = w, sy_m = NewSCPConn c reuseTimeout, sy_th = Map.empty\<rparr>"

lemma reach_ok: "(sstep ops)\<^sup>*\<^sup>* (start_sys w c t) s \<Longrightarrow> sys_ok s"
proof (induction rule: rtranclp_induct)
  case base
  then show ?case by (simp add: sys_ok_def start_sys_def NewSCPConn_def mon_ok_def)
next
  case (step s s')
  then show ?case by (blast intro: sstep_sys_ok)
qed

lemma Freeze_Ok: "\<exists>w'. Freeze c w = (Ok (), w')"
  by (rule freeze_run [of c w]) (simp add: Freeze_def)

lemma Conn_Close_Ok: "\<exists>w'. Conn_Close c w = (Ok (), w')"
proof (rule freeze_run [of c w])
  fix e nt
  assume "freeze c w = (Ok (), w\<lparr>w_conns := (w_conns w)(c := (w_conns w c)\<lparr>c_frozen := True, c_connErr := e\<rparr>),
       w_nets := (w_nets w)(c_conn (w_conns w c) := nt)\<rparr>)"
  then show ?thesis by (auto simp: Conn_Close_def monad_simps pool_put_def split: option.split)
qed

lemma SCPConn_Close_closes:
  assumes "\<not> s_connClosed (m_s m)"
  obtains w' where "SCPConn_Close (w, m) =
    (Ok None, w', m\<lparr>m_s := (m_s m)\<lparr>s_connClosed := True, s_connErr := Some ErrConnClosed\<rparr>\<rparr>)"
  using Conn_Close_Ok [of "s_Conn (m_s m)" w] assms by (auto simp: SCPConn_Close_def Let_def)

lemma ReplaceConn_replaces:
  assumes "\<not> s_connClosed (m_s m)"
  obtains w' where "ReplaceConn c (w, m) = (Ok True, w', m\<lparr>m_s := (m_s m)\<lparr>s_Conn := c, s_connErr := None\<rparr>\<rparr>)"
  using Conn_Close_Ok [of "s_Conn (m_s m)" w] assms by (auto simp: ReplaceConn_def)

text \<open>A session that is closed stays closed, and a call on it returns the error.\<close>

lemma closed_stays:
  assumes "sstep ops s s'" "s_connClosed (m_s (sy_m s))"
  shows "s_connClosed (m_s (sy_m s')) \<and> s_Conn (m_s (sy_m s')) = s_Conn (m_s (sy_m s))"
  using assms
  by (induction rule: sstep.induct)
    (auto simp: acquire_loop_def acquire_wake_def stopWait_def map_res_def setConnError_def
      SCPConn_Close_def ReplaceConn_def split: if_splits option.splits)

text \<open>What a call returns when it finds the session closed.\<close>

definition closed_ret :: "job \<Rightarrow> pc" where
  "closed_ret j = (case j of JRead n \<Rightarrow> Read_ret [] (Some ErrConnClosed) | JWrite p nn \<Rightarrow> Write_ret 0 (Some ErrConnClosed))"

lemma wake_closed:
  assumes "mon_ok m" "s_connClosed (m_s m)"
  obtains m' where "acquire_wake m = Ok (Closed (Some ErrConnClosed), m')"
proof -
  have "job_ok (JRead 0)" by (simp add: job_ok_def)
  then obtain a m' where a: "acquire_wake m = Ok (a, m')" using acquire_wake_ok [OF assms(1)] by metis
  then have "a = Closed (Some ErrConnClosed)"
    using assms by (auto simp: acquire_wake_def map_res_def acquire_loop_def stopWait_def mon_ok_def split: option.splits if_splits)
  with a that show thesis by blast
qed

lemma wake_open:
  assumes "mon_ok m" "\<not> s_connClosed (m_s m)" "s_connErr (m_s m) = None"
  obtains m' where "acquire_wake m = Ok (Got (s_Conn (m_s m)), m')"
proof (cases "s_reuseCh (m_s m)")
  case None
  then show thesis using assms by (intro that [of m]) (simp add: acquire_wake_def map_res_def acquire_loop_def stopWait_def)
next
  case (Some ch)
  let ?m = "m\<lparr>m_timers := (m_timers m)(ch := (m_timers m ch)\<lparr>tm_done := True\<rparr>), m_s := (m_s m)\<lparr>s_reuseCh := None\<rparr>\<rparr>"
  have "\<not> tm_done (m_timers m ch)" using assms(1) Some by (simp add: mon_ok_def)
  then show thesis using assms Some by (intro that [of ?m]) (simp add: acquire_wake_def map_res_def acquire_loop_def stopWait_def)
qed

text \<open>What the reconnection to a backend does to the session: nothing, or the replacement of its connection. The new
  connection is a fresh one.\<close>

lemma LocalSCPConn_reuseConn_outcome:
  assumes "LocalSCPConn_reuseConn env ops (w, m) = (Ok (), w', m')"
  shows "m' = m \<or> \<not> s_connClosed (m_s m) \<and> (\<exists>c. m' = m\<lparr>m_s := (m_s m)\<lparr>s_Conn := c, s_connErr := None\<rparr>\<rparr>)"
proof -
  obtain scon err w1 where r: "reuseConn env ops (s_Conn (m_s m)) w = (Ok (scon, err), w1)"
    using assms by (auto simp: LocalSCPConn_reuseConn_def bindM_eq_Ok onS_def prim_simps split: prod.splits)
  show ?thesis
  proof (cases "err = None \<and> scon \<noteq> None")
    case True
    then obtain c where c: "scon = Some c" by auto
    obtain ok w2 m2 where rep: "ReplaceConn c (w1, m) = (Ok ok, w2, m2)" "m' = m2"
      using assms True
      by (auto simp: LocalSCPConn_reuseConn_def bindM_eq_Ok onS_def prim_simps r c deref_Some prod.case_eq_if
          split: if_splits)
    then show ?thesis using ReplaceConn_run [OF rep(1)] by (cases ok) auto
  next
    case False
    then show ?thesis
      using assms by (auto simp: LocalSCPConn_reuseConn_def bindM_eq_Ok onS_def prim_simps r deref_def split: if_splits)
  qed
qed

text \<open>When the session was closed meanwhile, \<open>reuseConn\<close> gives up without closing the socket it has just opened.\<close>

lemma reuseConn_leaks_socket:
  assumes "net_Dial env (RemoteAddr env (c_conn (w_conns w old))) = Ok x" "c_reuseBuffer (w_conns w old) = None"
    "\<not> nc_closed x" "old < w_next w" "c_conn (w_conns w old) < w_next w"
  shows "\<exists>w'. reuseConn env ops old w = (Ok (None, Some ErrNotAcceptable), w') \<and> w_nets w' (w_next w) = x"
proof -
  let ?w1 = "w\<lparr>w_nets := (w_nets w)(w_next w := x), w_next := Suc (w_next w)\<rparr>"
  let ?cf = "\<lparr>cf_Flag = 0, cf_TargetServer = cf_TargetServer (c_config (w_conns w old)), cf_ConnForReused = Some old, cf_ScpServer = False\<rparr>"
  let ?w2 = "?w1\<lparr>w_conns := (w_conns w)(Suc (w_next w) := zeroConn (w_next w) ?cf), w_next := Suc (Suc (w_next w))\<rparr>"
  obtain w3 where f: "freeze old ?w2 = (Ok (), w3)" "c_reuseBuffer (w_conns w3 old) = None" "w_nets w3 (w_next w) = x"
    by (rule freeze_run [of old ?w2]) (use assms that in auto)
  have "reuseConn env ops old w = (Ok (None, Some ErrNotAcceptable), w3)"
    using assms(1) f by (simp add: reuseConn_def alloc_net_def Client_def Let_def alloc_conn_def spawn_def monad_simps)
  with f(3) show ?thesis by blast
qed

section \<open>Properties\<close>

text \<open>C5. No lost wake-up. In every run, however the goroutines interleave, a reader or writer that waits for a new
  connection and has not been signalled waits on a session that is broken but not closed, and a timer that was not
  cancelled is running for it; a signalled one can always go on (no channel is closed twice); and no call
  proceeds without a connection.\<close>

theorem no_lost_wakeup:
  assumes "(sstep ops)\<^sup>*\<^sup>* (start_sys w c to) s" "sy_th s t = Some p"
  shows "p \<noteq> Crashed \<and>
    (\<forall>j. p = Blocked j False \<longrightarrow> \<not> s_connClosed (m_s (sy_m s)) \<and> s_connErr (m_s (sy_m s)) \<noteq> None \<and>
      (\<exists>ch. s_reuseCh (m_s (sy_m s)) = Some ch \<and> \<not> tm_done (m_timers (sy_m s) ch) \<and> tm_st (m_timers (sy_m s) ch) \<noteq> Ended)) \<and>
    (\<forall>j. p = Blocked j True \<longrightarrow> (\<exists>s'. sstep ops s s' \<and> sy_th s' t \<noteq> Some p))"
proof -
  have ok: "sys_ok s" using assms(1) by (rule reach_ok)
  note p = sys_okD(1) [OF ok assms(2)] and m = sys_okD(2) [OF ok]
  have wake: "\<exists>s'. sstep ops s s' \<and> sy_th s' t \<noteq> Some p" if "p = Blocked j True" for j
  proof -
    have "job_ok j" using p that by simp
    then obtain a m' where a: "acquire_wake (sy_m s) = Ok (a, m')" using acquire_wake_ok [OF m] by metis
    have "resume_job j a \<noteq> Blocked j True" by (cases a; cases j) auto
    with sstep.Wake [OF assms(2) [unfolded that] a] that show ?thesis by fastforce
  qed
  from p m wake show ?thesis by (cases p) (auto simp: mon_ok_def)
qed


text \<open>Schedules for the witnesses: a reader enters a session whose connection failed.\<close>

definition ex_w :: "unit world" where
  "ex_w = ex_world (rc4_NewCipher [9]) [1] [7] 1 0 []"

definition ex_broken :: "unit sys" where
  "ex_broken = \<lparr>sy_w = ex_w,
     sy_m = (NewSCPConn 0 30)\<lparr>m_s := (m_s (NewSCPConn 0 30))\<lparr>s_connErr := Some ErrEOF, s_reuseCh := Some 0\<rparr>,
       m_timers := (m_timers (NewSCPConn 0 30))(0 := \<lparr>tm_done = False, tm_st = Waiting\<rparr>), m_next := 1\<rparr>,
     sy_th = [0 \<mapsto> Blocked (JRead 8) False]\<rparr>"

lemma ex_broken_reachable:
  "(sstep ex_ops)\<^sup>*\<^sup>* (start_sys ex_w 0 30) ex_broken"
proof -
  let ?w = ex_w and ?m = "NewSCPConn 0 30"
  let ?m1 = "?m\<lparr>m_s := (m_s ?m)\<lparr>s_connErr := Some ErrEOF\<rparr>\<rparr>"
  define s where "s w m p = \<lparr>sy_w = w, sy_m = m, sy_th = [0 \<mapsto> p]\<rparr>" for w :: "unit world" and m p
  have "in_Read 0 8 ?w = (Fail ErrEOF, ?w)"
    by (simp add: in_Read_def monad_simps ex_w_def ex_defs nc_Read_def upd_net_def fun_upd_idem)
  moreover have "Handshake ex_ops 0 ?w = (Ok None, ?w)"
    by (simp add: Handshake_def handshake_once_def monad_simps ex_w_def) (simp add: ex_defs)
  ultimately have rd: "Conn_Read ex_ops 0 8 ?w = (Ok ([], Some ErrEOF), ?w)" by (simp add: Conn_Read_def monad_simps)
  obtain w1 where fz: "Freeze 0 ?w = (Ok (), w1)" using Freeze_Ok by blast
  have 1: "sstep ex_ops (start_sys ?w 0 30) (s ?w ?m (Acquiring (JRead 8)))"
    using sstep.Call [of "start_sys ?w 0 30" 0 "JRead 8" 8 "[]" ex_ops] by (simp add: start_sys_def s_def)
  have 2: "sstep ex_ops (s ?w ?m (Acquiring (JRead 8))) (s ?w ?m (Use (JRead 8) 0))"
    using sstep.Enter [of "s ?w ?m (Acquiring (JRead 8))" 0 "JRead 8" "Got 0" ?m ex_ops]
    by (simp add: s_def acquire_loop_def NewSCPConn_def)
  have 3: "sstep ex_ops (s ?w ?m (Use (JRead 8) 0)) (s ?w ?m (Failed (JRead 8) 0 ErrEOF [] 0))"
    using sstep.Run [of "s ?w ?m (Use (JRead 8) 0)" 0 "JRead 8" 0 ex_ops "Failed (JRead 8) 0 ErrEOF [] 0" ?w]
    by (simp add: s_def monad_simps rd)
  have 4: "sstep ex_ops (s ?w ?m (Failed (JRead 8) 0 ErrEOF [] 0)) (s w1 ?m (Frozen (JRead 8) 0 ErrEOF [] 0))"
    using sstep.Freezes [of "s ?w ?m (Failed (JRead 8) 0 ErrEOF [] 0)" 0 "JRead 8" 0 ErrEOF "[]" 0 w1 ex_ops] fz by (simp add: s_def)
  have 5: "sstep ex_ops (s w1 ?m (Frozen (JRead 8) 0 ErrEOF [] 0)) (s w1 ?m1 (Read_ret [] None))"
    using sstep.SetError [of "s w1 ?m (Frozen (JRead 8) 0 ErrEOF [] 0)" 0 "JRead 8" 0 ErrEOF "[]" 0 ex_ops]
    by (simp add: s_def setConnError_def NewSCPConn_def)
  have 6: "sstep ex_ops (s w1 ?m1 (Read_ret [] None)) \<lparr>sy_w = w1, sy_m = ?m1, sy_th = Map.empty\<rparr>"
    using sstep.Return [of "s w1 ?m1 (Read_ret [] None)" 0 "[]" None 0 ex_ops] by (simp add: s_def)
  have 7: "sstep ex_ops \<lparr>sy_w = w1, sy_m = ?m1, sy_th = Map.empty\<rparr> (s w1 ?m1 (Acquiring (JRead 8)))"
    using sstep.Call [of "\<lparr>sy_w = w1, sy_m = ?m1, sy_th = Map.empty\<rparr>" 0 "JRead 8" 8 "[]" ex_ops] by (simp add: s_def)
  have 8: "sstep ex_ops (s w1 ?m1 (Acquiring (JRead 8))) (ex_broken\<lparr>sy_w := w1\<rparr>)"
    using sstep.Enter [of "s w1 ?m1 (Acquiring (JRead 8))" 0 "JRead 8" Waits "startWait ?m1" ex_ops]
    by (simp add: s_def acquire_loop_def NewSCPConn_def startWait_def Let_def ex_broken_def)
  have 9: "sstep ex_ops (ex_broken\<lparr>sy_w := w1\<rparr>) ex_broken"
    using sstep.World [of ex_ops "ex_broken\<lparr>sy_w := w1\<rparr>" ?w] by (simp add: ex_broken_def)
  show ?thesis using 1 2 3 4 5 6 7 8 9 by (meson converse_rtranclp_into_rtranclp rtranclp.rtrancl_refl)
qed

lemma ex_broken_th: "sy_th ex_broken 0 = Some (Blocked (JRead 8) False)"
  by (simp add: ex_broken_def)


theorem no_lost_wakeup_witness:
  "\<exists>ch. s_reuseCh (m_s (sy_m ex_broken)) = Some ch \<and> tm_st (m_timers (sy_m ex_broken) ch) \<noteq> Ended"
  using no_lost_wakeup [OF ex_broken_reachable ex_broken_th] by auto

text \<open>C9. \<open>ReplaceConn\<close> resumes. When it returns true, every reader and writer that waited is signalled and its next step is to
  go on with the new connection, and an error that a call still under way then reports for the old connection is
  ignored.\<close>

theorem replace_resumes:
  assumes "(sstep ops)\<^sup>*\<^sup>* (start_sys w c0 to) s" "ReplaceConn c (sy_w s, sy_m s) = (Ok True, w', m')"
  shows "\<exists>s1. sstep ops s s1 \<and> sy_m s1 = m' \<and> s_Conn (m_s m') = c \<and> s_connErr (m_s m') = None \<and>
    (\<forall>t j b. sy_th s t = Some (Blocked j b) \<longrightarrow> (\<exists>s2. sstep ops s1 s2 \<and> sy_th s2 t = Some (Use j c))) \<and>
    (\<forall>e. s_Conn (m_s (sy_m s)) \<noteq> c \<longrightarrow> setConnError (s_Conn (m_s (sy_m s))) e m' = m')"
proof -
  let ?s1 = "\<lparr>sy_w = w', sy_m = m', sy_th = broadcast (sy_th s)\<rparr>"
  have st: "sstep ops s ?s1" using sstep.Replace [OF assms(2), of ops] by simp
  have nc: "\<not> s_connClosed (m_s (sy_m s))" "m' = (sy_m s)\<lparr>m_s := (m_s (sy_m s))\<lparr>s_Conn := c, s_connErr := None\<rparr>\<rparr>"
    using ReplaceConn_run [OF assms(2)] by simp_all
  have ok: "mon_ok m'" using sstep_sys_ok [OF st reach_ok [OF assms(1)]] by (auto dest: sys_okD(2))
  have "\<exists>s2. sstep ops ?s1 s2 \<and> sy_th s2 t = Some (Use j c)" if "sy_th s t = Some (Blocked j b)" for t j b
  proof -
    have th: "sy_th ?s1 t = Some (Blocked j True)" using that by (simp add: broadcast_def signalled_def)
    obtain m2 where "acquire_wake m' = Ok (Got c, m2)" using wake_open [OF ok] nc by auto
    from sstep.Wake [OF th, of "Got c" m2 ops] this show ?thesis by (intro exI conjI) (auto intro: exI)
  qed
  with st nc show ?thesis by (intro exI [of _ ?s1]) (auto simp: setConnError_def)
qed

theorem replace_resumes_witness:
  "\<exists>s1 s2. sstep ex_ops ex_broken s1 \<and> sstep ex_ops s1 s2 \<and> sy_th s2 0 = Some (Use (JRead 8) 1)"
proof -
  have "\<not> s_connClosed (m_s (sy_m ex_broken))" by (simp add: ex_broken_def NewSCPConn_def)
  then obtain w' m' where "ReplaceConn 1 (sy_w ex_broken, sy_m ex_broken) = (Ok True, w', m')"
    using ReplaceConn_replaces by blast
  from replace_resumes [OF ex_broken_reachable this] ex_broken_th show ?thesis by metis
qed

text \<open>A timer that fired is not stopped by a resume. If the timer of the session has fired and its goroutine has not yet
  taken the mutex when \<open>ReplaceConn\<close> succeeds, the resumed session is closed all the same.\<close>

theorem late_timer_closes_resumed:
  assumes "\<not> s_connClosed (m_s (sy_m s))" "tm_st (m_timers (sy_m s) ch) = Fired"
  shows "\<exists>s1 s2. sstep ops s s1 \<and> s_Conn (m_s (sy_m s1)) = c \<and> s_connErr (m_s (sy_m s1)) = None \<and>
    \<not> s_connClosed (m_s (sy_m s1)) \<and> sstep ops s1 s2 \<and> s_connClosed (m_s (sy_m s2)) \<and> s_Conn (m_s (sy_m s2)) = c"
proof -
  obtain w1 where r: "ReplaceConn c (sy_w s, sy_m s) =
      (Ok True, w1, (sy_m s)\<lparr>m_s := (m_s (sy_m s))\<lparr>s_Conn := c, s_connErr := None\<rparr>\<rparr>)" (is "_ = (_, _, ?m1)")
    using ReplaceConn_replaces [OF assms(1)] by blast
  define s1 where "s1 = \<lparr>sy_w = w1, sy_m = ?m1, sy_th = broadcast (sy_th s)\<rparr>"
  have st1: "sstep ops s s1" using sstep.Replace [OF r, of ops] by (simp add: s1_def)
  have open1: "\<not> s_connClosed (m_s (sy_m s1))" using assms(1) by (simp add: s1_def)
  have f1: "tm_st (m_timers (sy_m s1) ch) = Fired" using assms(2) by (simp add: s1_def)
  obtain w2 where cl: "SCPConn_Close (sy_w s1, sy_m s1) =
      (Ok None, w2, (sy_m s1)\<lparr>m_s := (m_s (sy_m s1))\<lparr>s_connClosed := True, s_connErr := Some ErrConnClosed\<rparr>\<rparr>)"
    using SCPConn_Close_closes [OF open1] by blast
  show ?thesis
    by (intro exI conjI) (rule st1, simp add: s1_def, simp add: s1_def, rule open1, rule sstep.Timeout [OF f1 cl], simp_all add: s1_def)
qed

theorem late_timer_closes_resumed_witness:
  "\<exists>s s1 s2. (sstep ex_ops)\<^sup>*\<^sup>* (start_sys ex_w 0 30) s \<and> sstep ex_ops s s1 \<and> s_Conn (m_s (sy_m s1)) = 1 \<and>
    \<not> s_connClosed (m_s (sy_m s1)) \<and> sstep ex_ops s1 s2 \<and> s_connClosed (m_s (sy_m s2))"
proof -
  let ?s = "ex_broken\<lparr>sy_m := (sy_m ex_broken)\<lparr>m_timers := (m_timers (sy_m ex_broken))(0 := (m_timers (sy_m ex_broken) 0)\<lparr>tm_st := Fired\<rparr>)\<rparr>\<rparr>"
  have "tm_st (m_timers (sy_m ex_broken) 0) = Waiting" by (simp add: ex_broken_def)
  then have "(sstep ex_ops)\<^sup>*\<^sup>* (start_sys ex_w 0 30) ?s"
    by (rule rtranclp.rtrancl_into_rtrancl [OF ex_broken_reachable sstep.Fire])
  moreover have "\<not> s_connClosed (m_s (sy_m ?s))" "tm_st (m_timers (sy_m ?s) 0) = Fired"
    by (simp_all add: ex_broken_def NewSCPConn_def)
  ultimately show ?thesis using late_timer_closes_resumed [of ?s 0 ex_ops 1] by blast
qed

text \<open>C10. A write enters the session exactly once. On a connection without an error the bytes are appended to the stream of the
  session and \<open>Write\<close> reports their number whether or not the network failed, so they are not written again; on a
  connection with an error (frozen, taken over) the stream is unchanged, and \<open>Write\<close> starts again with all bytes
  on the connection it acquires next.\<close>

theorem session_write_once:
  assumes "streams w c k0 out inp n" "c_handshaked (w_conns w c)" "p \<noteq> []"
  shows "\<exists>r w'. use_conn ops (JWrite p 0) c w = (Ok r, w') \<and>
    (if c_connErr (w_conns w c) = None
     then streams w' c k0 (out @ p) inp n \<and>
       (r = Write_ret (length p) None \<or>
        (\<exists>e. r = Failed (JWrite p 0) c e [] (length p) \<and> finish_job (JWrite p 0) [] (length p) = Write_ret (length p) None))
     else streams w' c k0 out inp n \<and>
       (\<exists>e. r = Failed (JWrite p 0) c e [] 0 \<and> finish_job (JWrite p 0) [] 0 = Acquiring (JWrite p 0)))"
proof -
  show ?thesis
  proof (cases "c_connErr (w_conns w c)")
    case None
    obtain e w' where "Conn_Write ops c p w = (Ok (length p, e), w')" "streams w' c k0 (out @ p) inp n"
      using Conn_Write_streams [OF assms(1,2) None] by metis
    then show ?thesis using None by (cases e) (simp_all add: monad_simps)
  next
    case (Some e)
    obtain d where "Conn_Write ops c p w = (Ok (0, Some e), upd_net (c_conn (w_conns w c)) (\<lambda>y. y\<lparr>nc_deadline := d\<rparr>) w)"
      using Conn_refuses [OF assms(2) Some] by metis
    then show ?thesis using Some assms(1,3) by (simp add: monad_simps)
  qed
qed

theorem session_write_once_witness:
  "\<exists>r w'. use_conn ex_ops (JWrite [3] 0) 0 ex_w = (Ok r, w') \<and> streams w' 0 (rc4_NewCipher [9]) [1, 3] [7] 1"
proof -
  have "streams ex_w 0 (rc4_NewCipher [9]) [1] [7] 1" "c_handshaked (w_conns ex_w 0)" "c_connErr (w_conns ex_w 0) = None"
    unfolding ex_w_def by simp_all
  then show ?thesis using session_write_once [of ex_w 0 "rc4_NewCipher [9]" "[1]" "[7]" 1 "[3]" ex_ops] by auto
qed

end
