(* ===== verification/Scp_Pump.thy ===== *)
theory Scp_Pump
  imports Scp_Session
begin

text \<open>
  \<open>pump\<close> and \<open>connPair.Pump\<close> of \<open>server.go\<close>: two goroutines that copy bytes, one from the client's session to the backend
  and one back, until a read or a write fails.

  \<open>pump_step\<close> is one step of one goroutine: a read, a write, or one of the two calls of \<open>Close\<close> at the end.
  \<open>pair_step\<close> interleaves both goroutines with the environment (the session is resumed, or closed by its timer). A call
  of the session that has to wait for a new connection, or to write again on it, does not return yet: its result is
  \<open>None\<close> and the goroutine tries again. (A round of the loop of \<open>SCPConn.Write\<close> that does not end it has accepted no
  byte, because \<open>Conn.Write\<close> accepts all or nothing, so that it goes on with the same slice.) The locale \<open>duplex\<close> states what the copying relies on; it is interpreted
  on the session of \<open>remoteconn.go\<close> and a TCP connection to the backend.
\<close>

section \<open>The session as a connection\<close>

text \<open>A call of \<open>Read\<close> or of the body of the loop of \<open>Write\<close>: the critical sections of \<open>Scp_Session\<close> in sequence.\<close>

definition session_round :: "'srv SCPServer_ops \<Rightarrow> job \<Rightarrow> ('srv world \<times> mon, pc) M" where
  "session_round ops j = (\<lambda>(w, m).
     case acquire_loop m of (a, m1) \<Rightarrow>
     case resume_job j a of
       Use j c \<Rightarrow>
         (case use_conn ops j c w of
            (Ok p, w1) \<Rightarrow>
              (case p of
                 Failed j c e q k \<Rightarrow>
                   (case Freeze c w1 of
                      (Ok _, w2) \<Rightarrow> (Ok (finish_job j q k), w2, setConnError c (Some e) m1)
                    | (Fail e, w2) \<Rightarrow> (Fail e, w2, m1) | (Panic x, w2) \<Rightarrow> (Panic x, w2, m1) | (Hang, w2) \<Rightarrow> (Hang, w2, m1))
               | p \<Rightarrow> (Ok p, w1, m1))
          | (Fail e, w1) \<Rightarrow> (Fail e, w1, m1) | (Panic x, w1) \<Rightarrow> (Panic x, w1, m1) | (Hang, w1) \<Rightarrow> (Hang, w1, m1))
     | p \<Rightarrow> (Ok p, w, m1))"

definition session_Read :: "'srv SCPServer_ops \<Rightarrow> nat \<Rightarrow> ('srv world \<times> mon, (byte list \<times> goerr option) option) M" where
  "session_Read ops n = bindM (session_round ops (JRead n)) (\<lambda>p.
     retM (case p of Read_ret q r \<Rightarrow> Some (q, r) | _ \<Rightarrow> None))"

definition session_Write :: "'srv SCPServer_ops \<Rightarrow> byte list \<Rightarrow> ('srv world \<times> mon, (nat \<times> goerr option) option) M" where
  "session_Write ops b = bindM (session_round ops (JWrite b 0)) (\<lambda>p.
     retM (case p of Write_ret k r \<Rightarrow> Some (k, r) | _ \<Rightarrow> None))"

text \<open>A TCP connection to a backend.\<close>

definition tcp_Read :: "nat \<Rightarrow> nat \<Rightarrow> ('srv world, (byte list \<times> goerr option) option) M" where
  "tcp_Read c n = bindM (tryM (on_net_res c (nc_Read n))) (\<lambda>r.
     retM (Some (case r of Inl e \<Rightarrow> ([], Some e) | Inr q \<Rightarrow> (q, None))))"

definition tcp_Write :: "nat \<Rightarrow> byte list \<Rightarrow> ('srv world, (nat \<times> goerr option) option) M" where
  "tcp_Write c b = bindM (on_net c (nc_Write b)) (\<lambda>r. retM (Some r))"

definition tcp_Close :: "nat \<Rightarrow> ('srv world, unit) M" where
  "tcp_Close c = bindM (on_net c nc_Close) (\<lambda>_. retM ())"

section \<open>Pumps\<close>

definition NetBufferSize :: nat where
  "NetBufferSize = 32 * 1024"

datatype ppc = Reading | Writing "byte list" "goerr option" | CloseSrc goerr | CloseDst goerr | Reported goerr

record pumpst =
  pm_pc :: ppc
  pm_written :: int
  pm_packets :: int

definition pump_start :: pumpst where
  "pump_start = \<lparr>pm_pc = Reading, pm_written = 0, pm_packets = 0\<rparr>"

text \<open>Where the loop goes on after a read and, if it gave bytes, a write: an error of either ends it.\<close>

definition after_round :: "goerr option \<Rightarrow> ppc" where
  "after_round err = (case err of None \<Rightarrow> Reading | Some e \<Rightarrow> CloseSrc e)"

definition pump_step :: "(nat \<Rightarrow> ('s, (byte list \<times> goerr option) option) M) \<Rightarrow> (byte list \<Rightarrow> ('s, (nat \<times> goerr option) option) M) \<Rightarrow>
    ('s, unit) M \<Rightarrow> ('s, unit) M \<Rightarrow> pumpst \<Rightarrow> ('s, pumpst) M" where
  "pump_step src_Read dst_Write src_Close dst_Close p = (case pm_pc p of
     Reading \<Rightarrow>
       bindM (src_Read NetBufferSize) (\<lambda>r. retM (case r of
         None \<Rightarrow> p
       | Some (data, er) \<Rightarrow> p\<lparr>pm_pc := (if 0 < length data then Writing data er else after_round er)\<rparr>))
   | Writing data er \<Rightarrow>
       bindM (dst_Write data) (\<lambda>r. retM (case r of
         None \<Rightarrow> p
       | Some (nw, ew) \<Rightarrow>
           (if 0 < nw then p\<lparr>pm_packets := pm_packets p + 1, pm_written := pm_written p + int nw\<rparr> else p)
             \<lparr>pm_pc := after_round (if ew \<noteq> None then ew else er)\<rparr>))
   | CloseSrc e \<Rightarrow> bindM src_Close (\<lambda>_. retM (p\<lparr>pm_pc := CloseDst e\<rparr>))
   | CloseDst e \<Rightarrow> bindM dst_Close (\<lambda>_. retM (p\<lparr>pm_pc := Reported e\<rparr>))
   | Reported e \<Rightarrow> retM p)"

text \<open>The two connections of a pair, and the state of \<open>Pump\<close>.\<close>

record 's pair_ops =
  remote_Read :: "nat \<Rightarrow> ('s, (byte list \<times> goerr option) option) M"
  remote_Write :: "byte list \<Rightarrow> ('s, (nat \<times> goerr option) option) M"
  remote_Close :: "('s, unit) M"
  local_Read :: "nat \<Rightarrow> ('s, (byte list \<times> goerr option) option) M"
  local_Write :: "byte list \<Rightarrow> ('s, (nat \<times> goerr option) option) M"
  local_Close :: "('s, unit) M"

record 's pairst =
  pr_s :: 's
  pr_c2s :: pumpst
  pr_s2c :: pumpst

definition c2s :: "'s pair_ops \<Rightarrow> pumpst \<Rightarrow> ('s, pumpst) M" where
  "c2s ops = pump_step (remote_Read ops) (local_Write ops) (remote_Close ops) (local_Close ops)"

definition s2c :: "'s pair_ops \<Rightarrow> pumpst \<Rightarrow> ('s, pumpst) M" where
  "s2c ops = pump_step (local_Read ops) (remote_Write ops) (local_Close ops) (remote_Close ops)"

inductive pair_step :: "'s pair_ops \<Rightarrow> ('s \<Rightarrow> 's \<Rightarrow> bool) \<Rightarrow> 's pairst \<Rightarrow> 's pairst \<Rightarrow> bool" for ops env where
  C2S: "c2s ops (pr_c2s x) (pr_s x) = (Ok p', s') \<Longrightarrow> pair_step ops env x (x\<lparr>pr_s := s', pr_c2s := p'\<rparr>)"
| S2C: "s2c ops (pr_s2c x) (pr_s x) = (Ok p', s') \<Longrightarrow> pair_step ops env x (x\<lparr>pr_s := s', pr_s2c := p'\<rparr>)"
| Env: "env (pr_s x) s' \<Longrightarrow> pair_step ops env x (x\<lparr>pr_s := s'\<rparr>)"

section \<open>The contract of two connections\<close>

text \<open>\<open>rel s ci lo li co\<close>: in the state \<open>s\<close> the client's connection will still give the bytes \<open>ci\<close> and has taken \<open>co\<close>, the backend's
  will still give \<open>li\<close> and has taken \<open>lo\<close>.\<close>

locale duplex =
  fixes ops :: "'s pair_ops" and env :: "'s \<Rightarrow> 's \<Rightarrow> bool"
    and rel :: "'s \<Rightarrow> byte list \<Rightarrow> byte list \<Rightarrow> byte list \<Rightarrow> byte list \<Rightarrow> bool"
  assumes remote_Read: "rel s ci lo li co \<Longrightarrow> remote_Read ops n s = (Ok r, s') \<Longrightarrow>
      (case r of None \<Rightarrow> rel s' ci lo li co
       | Some (q, e) \<Rightarrow> \<exists>rest. ci = q @ rest \<and> length q \<le> n \<and> rel s' rest lo li co)"
    and local_Read: "rel s ci lo li co \<Longrightarrow> local_Read ops n s = (Ok r, s') \<Longrightarrow>
      (case r of None \<Rightarrow> rel s' ci lo li co
       | Some (q, e) \<Rightarrow> \<exists>rest. li = q @ rest \<and> length q \<le> n \<and> rel s' ci lo rest co)"
    and local_Write: "rel s ci lo li co \<Longrightarrow> local_Write ops b s = (Ok r', s') \<Longrightarrow>
      (case r' of None \<Rightarrow> rel s' ci lo li co
       | Some (k, e) \<Rightarrow> k \<le> length b \<and> rel s' ci (lo @ take k b) li co \<and> (e = None \<longrightarrow> k = length b))"
    and remote_Write: "rel s ci lo li co \<Longrightarrow> remote_Write ops b s = (Ok r', s') \<Longrightarrow>
      (case r' of None \<Rightarrow> rel s' ci lo li co
       | Some (k, e) \<Rightarrow> k \<le> length b \<and> rel s' ci lo li (co @ take k b) \<and> (e = None \<longrightarrow> k = length b))"
    and closes: "rel s ci lo li co \<Longrightarrow> remote_Close ops s = (Ok u, s') \<Longrightarrow> rel s' ci lo li co"
      "rel s ci lo li co \<Longrightarrow> local_Close ops s = (Ok u, s') \<Longrightarrow> rel s' ci lo li co"
    and env: "rel s ci lo li co \<Longrightarrow> env s s' \<Longrightarrow> rel s' ci lo li co"

text \<open>One direction: \<open>i0\<close> was to be read and \<open>o0\<close> taken at the start, \<open>i\<close> and \<open>o\<close> are so now.\<close>

definition dir_ok :: "pumpst \<Rightarrow> byte list \<Rightarrow> byte list \<Rightarrow> byte list \<Rightarrow> byte list \<Rightarrow> bool" where
  "dir_ok p i0 o0 i out \<longleftrightarrow> (\<exists>x lost. out = o0 @ x \<and> i0 = x @ lost @ i \<and> pm_written p = int (length x) \<and> length lost \<le> NetBufferSize \<and>
     (case pm_pc p of Reading \<Rightarrow> lost = [] | Writing data er \<Rightarrow> lost = data | _ \<Rightarrow> True))"

lemma dir_okE:
  assumes "dir_ok p i0 o0 i out"
  obtains x lost where "out = o0 @ x" "i0 = x @ lost @ i" "pm_written p = int (length x)" "length lost \<le> NetBufferSize"
    "pm_pc p = Reading \<Longrightarrow> lost = []"
proof -
  obtain x lost where d: "out = o0 @ x" "i0 = x @ lost @ i" "pm_written p = int (length x)" "length lost \<le> NetBufferSize"
    "case pm_pc p of Reading \<Rightarrow> lost = [] | Writing data er \<Rightarrow> lost = data | _ \<Rightarrow> True" using assms by (auto simp: dir_ok_def)
  show thesis by (rule that [OF d(1-4)]) (use d(5) in simp)
qed

text \<open>A step of one pump, given what its reads and writes do.\<close>

lemma pump_step_dir:
  assumes "pump_step rd wr c1 c2 p s = (Ok p', s')" "dir_ok p i0 o0 i out" "R s i out"
    and rd: "\<And>r s'. rd NetBufferSize s = (Ok r, s') \<Longrightarrow> (case r of None \<Rightarrow> R s' i out
       | Some (q, e) \<Rightarrow> \<exists>rest. i = q @ rest \<and> length q \<le> NetBufferSize \<and> R s' rest out)"
    and wr: "\<And>b r s'. wr b s = (Ok r, s') \<Longrightarrow> (case r of None \<Rightarrow> R s' i out
       | Some (k, e) \<Rightarrow> k \<le> length b \<and> R s' i (out @ take k b) \<and> (e = None \<longrightarrow> k = length b))"
    and cl: "\<And>u s'. c1 s = (Ok u, s') \<Longrightarrow> R s' i out" "\<And>u s'. c2 s = (Ok u, s') \<Longrightarrow> R s' i out"
  shows "\<exists>i' out'. R s' i' out' \<and> dir_ok p' i0 o0 i' out'"
proof -
  obtain x lost where d: "out = o0 @ x" "i0 = x @ lost @ i" "pm_written p = int (length x)" "length lost \<le> NetBufferSize"
    "case pm_pc p of Reading \<Rightarrow> lost = [] | Writing data er \<Rightarrow> lost = data | _ \<Rightarrow> True" using assms(2) by (auto simp: dir_ok_def)
  show ?thesis
  proof (cases "pm_pc p")
    case Reading
    then obtain r where r: "rd NetBufferSize s = (Ok r, s')" "p' = (case r of None \<Rightarrow> p
        | Some (data, er) \<Rightarrow> p\<lparr>pm_pc := (if 0 < length data then Writing data er else after_round er)\<rparr>)"
      using assms(1) by (auto simp: pump_step_def bindM_eq_Ok prim_simps)
    show ?thesis
    proof (cases r)
      case None
      then show ?thesis using rd [OF r(1)] r(2) assms(2) by auto
    next
      case (Some qe)
      then obtain q e where qe: "r = Some (q, e)" by fastforce
      then obtain rest where rest: "i = q @ rest" "length q \<le> NetBufferSize" "R s' rest out" using rd [OF r(1)] by auto
      have "dir_ok p' i0 o0 rest out"
        unfolding dir_ok_def
        by (rule exI [of _ x], rule exI [of _ q]) (use d rest qe r(2) Reading in \<open>auto simp: after_round_def split: option.split\<close>)
      with rest(3) show ?thesis by blast
    qed
  next
    case (Writing data er)
    then obtain r where r: "wr data s = (Ok r, s')" "p' = (case r of None \<Rightarrow> p | Some (nw, ew) \<Rightarrow>
        (if 0 < nw then p\<lparr>pm_packets := pm_packets p + 1, pm_written := pm_written p + int nw\<rparr> else p)
          \<lparr>pm_pc := after_round (if ew \<noteq> None then ew else er)\<rparr>)"
      using assms(1) by (auto simp: pump_step_def bindM_eq_Ok prim_simps)
    show ?thesis
    proof (cases r)
      case None
      then show ?thesis using wr [OF r(1)] r(2) assms(2) by auto
    next
      case (Some ke)
      then obtain k e where ke: "r = Some (k, e)" by fastforce
      then have k: "k \<le> length data" "R s' i (out @ take k data)" "e = None \<Longrightarrow> k = length data" using wr [OF r(1)] by auto
      have lost: "lost = data" using d(5) Writing by simp
      have "i0 = (x @ take k data) @ drop k data @ i" using d(2) lost by simp
      moreover have "length (drop k data) \<le> NetBufferSize" using d(4) lost by simp
      moreover have "pm_written p' = int (length (x @ take k data))" using d(3) k(1) r(2) ke by simp
      moreover have "case pm_pc p' of Reading \<Rightarrow> drop k data = [] | Writing b r \<Rightarrow> drop k data = b | _ \<Rightarrow> True"
        using k(3) r(2) ke by (auto simp: after_round_def split: option.split if_splits)
      ultimately have "dir_ok p' i0 o0 i (out @ take k data)" unfolding dir_ok_def using d(1) by (metis append.assoc)
      with k(2) show ?thesis by blast
    qed
  next
    case (CloseSrc e)
    then have "R s' i out" "p' = p\<lparr>pm_pc := CloseDst e\<rparr>" using assms(1) cl(1) by (auto simp: pump_step_def bindM_eq_Ok prim_simps)
    moreover from this(2) have "dir_ok p' i0 o0 i out" using d unfolding dir_ok_def by (intro exI [of _ x] exI [of _ lost]) simp
    ultimately show ?thesis by blast
  next
    case (CloseDst e)
    then have "R s' i out" "p' = p\<lparr>pm_pc := Reported e\<rparr>" using assms(1) cl(2) by (auto simp: pump_step_def bindM_eq_Ok prim_simps)
    moreover from this(2) have "dir_ok p' i0 o0 i out" using d unfolding dir_ok_def by (intro exI [of _ x] exI [of _ lost]) simp
    ultimately show ?thesis by blast
  next
    case (Reported e)
    then show ?thesis using assms(1,2,3) by (auto simp: pump_step_def prim_simps)
  qed
qed

context duplex
begin

lemma step_forwards:
  assumes "pair_step ops env x x'" "rel (pr_s x) ci lo li co" "dir_ok (pr_c2s x) ci0 lo0 ci lo" "dir_ok (pr_s2c x) li0 co0 li co"
  shows "\<exists>ci lo li co. rel (pr_s x') ci lo li co \<and> dir_ok (pr_c2s x') ci0 lo0 ci lo \<and> dir_ok (pr_s2c x') li0 co0 li co"
  using assms(1)
proof cases
  case (C2S p' s')
  have "\<exists>i o'. rel s' i o' li co \<and> dir_ok p' ci0 lo0 i o'"
    by (rule pump_step_dir [OF C2S(2) [unfolded c2s_def] assms(3), where R = "\<lambda>s i out. rel s i out li co"])
      (rule assms(2) remote_Read [OF assms(2)] local_Write [OF assms(2)] closes(1) [OF assms(2)] closes(2) [OF assms(2)]; assumption)+
  with C2S(1) assms(4) show ?thesis by auto
next
  case (S2C p' s')
  have "\<exists>i o'. rel s' ci lo i o' \<and> dir_ok p' li0 co0 i o'"
    by (rule pump_step_dir [OF S2C(2) [unfolded s2c_def] assms(4), where R = "\<lambda>s i out. rel s ci lo i out"])
      (rule assms(2) local_Read [OF assms(2)] remote_Write [OF assms(2)] closes(2) [OF assms(2)] closes(1) [OF assms(2)]; assumption)+
  with S2C(1) assms(3) show ?thesis by auto
next
  case (Env s')
  with env [OF assms(2) Env(2)] assms(3,4) show ?thesis by auto
qed

lemma run_forwards:
  assumes "(pair_step ops env)\<^sup>*\<^sup>* \<lparr>pr_s = s, pr_c2s = pump_start, pr_s2c = pump_start\<rparr> x" "rel s ci0 lo0 li0 co0"
  shows "\<exists>ci lo li co. rel (pr_s x) ci lo li co \<and> dir_ok (pr_c2s x) ci0 lo0 ci lo \<and> dir_ok (pr_s2c x) li0 co0 li co"
  using assms(1)
proof (induction rule: rtranclp_induct)
  case base
  then show ?case using assms(2) by (auto simp: dir_ok_def pump_start_def)
next
  case (step x x')
  then show ?case using step_forwards by blast
qed

end

section \<open>A session and a TCP connection\<close>

definition session_pair :: "'srv SCPServer_ops \<Rightarrow> nat \<Rightarrow> ('srv world \<times> mon) pair_ops" where
  "session_pair sops n = \<lparr>remote_Read = session_Read sops, remote_Write = session_Write sops,
     remote_Close = bindM SCPConn_Close (\<lambda>_. retM ()),
     local_Read = (\<lambda>k. onS (tcp_Read n k)), local_Write = (\<lambda>b. onS (tcp_Write n b)), local_Close = onS (tcp_Close n)\<rparr>"

text \<open>The connection \<open>c\<close> of a session whose client sends the plaintext \<open>inp\<close>: its stream is at \<open>ci\<close> and \<open>co\<close>, and while it has no
  error, what it still receives is the rest of the client's ciphertext. \<open>n\<close> is the backend's connection.\<close>

definition conn_rel :: "rc4 \<Rightarrow> byte list \<Rightarrow> nat \<Rightarrow> 'srv world \<Rightarrow> nat \<Rightarrow> byte list \<Rightarrow> byte list \<Rightarrow> bool" where
  "conn_rel k0 inp n w c ci co \<longleftrightarrow> n \<noteq> c_conn (w_conns w c) \<and> c_handshaked (w_conns w c) \<and>
     (\<exists>k. streams w c k0 co inp k \<and> ci = drop k inp \<and>
        (c_connErr (w_conns w c) = None \<longrightarrow> concat (nc_rx (net_of w c)) = drop k (fst (XORKeyStream k0 inp))))"

definition session_rel :: "rc4 \<Rightarrow> byte list \<Rightarrow> nat \<Rightarrow> 'srv world \<times> mon \<Rightarrow> byte list \<Rightarrow> byte list \<Rightarrow> byte list \<Rightarrow> byte list \<Rightarrow> bool" where
  "session_rel k0 inp n = (\<lambda>(w, m) ci lo li co. lo = nc_tx (w_nets w n) \<and> li = concat (nc_rx (w_nets w n)) \<and>
     (s_connClosed (m_s m) \<or> conn_rel k0 inp n w (s_Conn (m_s m)) ci co))"

text \<open>What may happen to the session from outside: it is closed, or \<open>ReplaceConn\<close> gives it a connection that took it over, on which
  the client sends again what is missing (as the reuse handshakes do).\<close>

definition resumed :: "rc4 \<Rightarrow> byte list \<Rightarrow> nat \<Rightarrow> 'srv world \<times> mon \<Rightarrow> 'srv world \<times> mon \<Rightarrow> bool" where
  "resumed k0 inp n = (\<lambda>(w, m) (w', m'). \<exists>c. m' = m\<lparr>m_s := (m_s m)\<lparr>s_Conn := c, s_connErr := None\<rparr>\<rparr> \<and> w_nets w' n = w_nets w n \<and>
     (\<forall>ci co. conn_rel k0 inp n w (s_Conn (m_s m)) ci co \<longrightarrow> conn_rel k0 inp n w' c ci co))"

definition session_env :: "rc4 \<Rightarrow> byte list \<Rightarrow> nat \<Rightarrow> 'srv world \<times> mon \<Rightarrow> 'srv world \<times> mon \<Rightarrow> bool" where
  "session_env k0 inp n s s' \<longleftrightarrow> (\<exists>r. SCPConn_Close s = (Ok r, s')) \<or> resumed k0 inp n s s'"

lemma conn_rel_shell:
  assumes "conn_rel k0 inp n w c ci co" "same_shell c w w'" "streams w' c k0 co' inp k" "ci' = drop k inp"
    "c_connErr (w_conns w c) = None \<Longrightarrow> concat (nc_rx (net_of w' c)) = drop k (fst (XORKeyStream k0 inp))"
  shows "conn_rel k0 inp n w' c ci' co'" "w_nets w' n = w_nets w n"
  using assms unfolding conn_rel_def same_shell_def by auto

lemma conn_rel_read:
  assumes "conn_rel k0 inp n w c ci co"
  obtains q e w' rest where "Conn_Read ops c m w = (Ok (q, e), w')" "ci = q @ rest" "length q \<le> m"
    "conn_rel k0 inp n w' c rest co" "w_nets w' n = w_nets w n"
proof -
  obtain k where k: "streams w c k0 co inp k" "ci = drop k inp"
    "c_connErr (w_conns w c) = None \<Longrightarrow> concat (nc_rx (net_of w c)) = drop k (fst (XORKeyStream k0 inp))"
    and hs: "c_handshaked (w_conns w c)" using assms by (auto simp: conn_rel_def)
  show thesis
  proof (cases "c_connErr (w_conns w c)")
    case None
    then have wire: "concat (nc_rx (net_of w c)) @ [] = drop k (fst (XORKeyStream k0 inp))" using k(3) by simp
    obtain q e w' where q: "Conn_Read ops c m w = (Ok (q, e), w')" "q = take (length q) (drop k inp)" "length q \<le> m"
      "streams w' c k0 co inp (k + length q)" "concat (nc_rx (net_of w' c)) @ [] = drop (k + length q) (fst (XORKeyStream k0 inp))"
      "same_shell c w w'"
      using Conn_Read_streams [OF k(1) hs None wire] by metis
    have "ci = q @ drop (k + length q) inp"
      using q(2) k(2) by (metis append_take_drop_id drop_drop add.commute)
    moreover have "conn_rel k0 inp n w' c (drop (k + length q) inp) co" "w_nets w' n = w_nets w n"
      using conn_rel_shell [OF assms q(6,4) refl] q(5) by simp_all
    ultimately show thesis using that q(1,3) by blast
  next
    case (Some err)
    obtain d where d: "Conn_Read ops c m w = (Ok ([], Some err), upd_net (c_conn (w_conns w c)) (\<lambda>y. y\<lparr>nc_deadline := d\<rparr>) w)"
      (is "_ = (_, ?w)") using Conn_refuses [OF hs Some] by metis
    have "streams ?w c k0 co inp k" using k(1) by simp
    from conn_rel_shell [OF assms same_shell_upd_net this k(2)] Some d show thesis by (intro that [of "[]" "Some err" ?w ci]) auto
  qed
qed

lemma conn_rel_write:
  assumes "conn_rel k0 inp n w c ci co"
  obtains j e w' where "Conn_Write ops c p w = (Ok (j, e), w')" "j = length p \<or> j = 0 \<and> e \<noteq> None"
    "conn_rel k0 inp n w' c ci (co @ take j p)" "w_nets w' n = w_nets w n"
proof -
  obtain k where k: "streams w c k0 co inp k" "ci = drop k inp"
    "c_connErr (w_conns w c) = None \<Longrightarrow> concat (nc_rx (net_of w c)) = drop k (fst (XORKeyStream k0 inp))"
    and hs: "c_handshaked (w_conns w c)" using assms by (auto simp: conn_rel_def)
  show thesis
  proof (cases "c_connErr (w_conns w c)")
    case None
    obtain e w' where w': "Conn_Write ops c p w = (Ok (length p, e), w')" "streams w' c k0 (co @ p) inp k" "same_shell c w w'"
      "nc_rx (net_of w' c) = nc_rx (net_of w c)"
      using Conn_Write_streams [OF k(1) hs None] by metis
    from conn_rel_shell [OF assms w'(3,2) k(2)] w'(1,4) k(3) show thesis by (intro that [of "length p" e w']) auto
  next
    case (Some err)
    obtain d where d: "Conn_Write ops c p w = (Ok (0, Some err), upd_net (c_conn (w_conns w c)) (\<lambda>y. y\<lparr>nc_deadline := d\<rparr>) w)"
      (is "_ = (_, ?w)") using Conn_refuses [OF hs Some] by metis
    have "streams ?w c k0 co inp k" using k(1) by simp
    from conn_rel_shell [OF assms same_shell_upd_net this k(2)] Some d show thesis by (intro that [of 0 "Some err" ?w]) auto
  qed
qed

lemma conn_rel_freeze:
  assumes "conn_rel k0 inp n w c ci co"
  obtains w' where "Freeze c w = (Ok (), w')" "conn_rel k0 inp n w' c ci co" "w_nets w' n = w_nets w n"
proof (rule freeze_run [of c w])
  fix e nt
  assume f: "freeze c w = (Ok (), w\<lparr>w_conns := (w_conns w)(c := (w_conns w c)\<lparr>c_frozen := True, c_connErr := e\<rparr>),
       w_nets := (w_nets w)(c_conn (w_conns w c) := nt)\<rparr>)" (is "_ = (_, ?w)")
    "c_frozen (w_conns w c) \<Longrightarrow> e = c_connErr (w_conns w c) \<and> nt = net_of w c"
    "\<not> c_frozen (w_conns w c) \<Longrightarrow> e \<noteq> None \<and> nt = snd (nc_Close (net_of w c))"
  have "streams ?w c k0 co inp k = streams w c k0 co inp k" for k
    by (simp add: streams_def sends_def receives_def out_cipher_def in_cipher_def)
  then have "conn_rel k0 inp n ?w c ci co"
    using assms f(2,3) by (cases "c_frozen (w_conns w c)") (auto simp: conn_rel_def net_of_def)
  then show thesis using that [of ?w] f(1) assms by (simp add: Freeze_def conn_rel_def)
qed

text \<open>The backend's connection is another one.\<close>

lemma conn_rel_backend:
  "conn_rel k0 inp n w c ci co \<Longrightarrow> conn_rel k0 inp n (upd_net n f w) c ci co"
  by (auto simp: conn_rel_def net_of_def)

lemma session_rel_open:
  "\<not> s_connClosed (m_s m) \<Longrightarrow> session_rel k0 inp n (w, m) ci lo li co \<longleftrightarrow>
     lo = nc_tx (w_nets w n) \<and> li = concat (nc_rx (w_nets w n)) \<and> conn_rel k0 inp n w (s_Conn (m_s m)) ci co"
  by (simp add: session_rel_def)

lemma session_rel_mon:
  "session_rel k0 inp n (w, m) ci lo li co \<Longrightarrow> s_connClosed (m_s m') = s_connClosed (m_s m) \<Longrightarrow>
     s_Conn (m_s m') = s_Conn (m_s m) \<Longrightarrow> session_rel k0 inp n (w, m') ci lo li co"
  by (simp add: session_rel_def)

lemma setConnError_fields [simp]:
  "s_connClosed (m_s (setConnError c e m)) = s_connClosed (m_s m)" "s_Conn (m_s (setConnError c e m)) = s_Conn (m_s m)"
  by (simp_all add: setConnError_def)

text \<open>A round of a session that is closed, waits, or has a connection.\<close>

lemma session_round_cases:
  assumes "session_round ops j (w, m) = (Ok p, w', m')"
  obtains (Closed) "s_connClosed (m_s m)" "w' = w" "m' = m" "p = resume_job j (Closed (s_connErr (m_s m)))"
  | (Waits) "\<not> s_connClosed (m_s m)" "w' = w" "m' = startWait m" "p = Blocked j False"
  | (Runs) c p1 w1 where "\<not> s_connClosed (m_s m)" "c = s_Conn (m_s m)" "use_conn ops j c w = (Ok p1, w1)"
      "(\<exists>j' c' e q k. p1 = Failed j' c' e q k \<and> Freeze c' w1 = (Ok (), w') \<and> m' = setConnError c' (Some e) m \<and> p = finish_job j' q k) \<or>
       (\<forall>j' c' e q k. p1 \<noteq> Failed j' c' e q k) \<and> w' = w1 \<and> m' = m \<and> p = p1"
proof -
  consider (a) "s_connClosed (m_s m)" | (b) "\<not> s_connClosed (m_s m)" "s_connErr (m_s m) \<noteq> None"
    | (c) "\<not> s_connClosed (m_s m)" "s_connErr (m_s m) = None" by blast
  then show thesis
  proof cases
    case a
    then have "session_round ops j (w, m) = (Ok (resume_job j (Closed (s_connErr (m_s m)))), w, m)"
      by (cases j) (auto simp: session_round_def acquire_loop_def)
    then show thesis using assms a Closed by simp
  next
    case b
    then show thesis using assms Waits by (simp add: session_round_def acquire_loop_def)
  next
    case c
    obtain r1 w1 where u: "use_conn ops j (s_Conn (m_s m)) w = (r1, w1)" by fastforce
    obtain p1 where p1: "r1 = Ok p1"
      using assms c u by (cases r1) (auto simp: session_round_def acquire_loop_def)
    show thesis
    proof (rule Runs [OF c(1) refl])
      show "use_conn ops j (s_Conn (m_s m)) w = (Ok p1, w1)" using u p1 by simp
      show "(\<exists>j' c' e q k. p1 = Failed j' c' e q k \<and> Freeze c' w1 = (Ok (), w') \<and> m' = setConnError c' (Some e) m \<and> p = finish_job j' q k) \<or>
          (\<forall>j' c' e q k. p1 \<noteq> Failed j' c' e q k) \<and> w' = w1 \<and> m' = m \<and> p = p1"
        using assms c u p1 by (cases p1) (auto simp: session_round_def acquire_loop_def split: prod.splits res.splits)
    qed
  qed
qed

lemma session_Read_law:
  assumes "session_rel k0 inp n s ci lo li co" "session_Read ops b s = (Ok r, s')"
  shows "case r of None \<Rightarrow> session_rel k0 inp n s' ci lo li co
    | Some (q, e) \<Rightarrow> \<exists>rest. ci = q @ rest \<and> length q \<le> b \<and> session_rel k0 inp n s' rest lo li co"
proof -
  obtain w m where s: "s = (w, m)" by fastforce
  obtain p w' m' where p: "session_round ops (JRead b) (w, m) = (Ok p, w', m')" "s' = (w', m')"
    "r = (case p of Read_ret q r \<Rightarrow> Some (q, r) | _ \<Rightarrow> None)"
    using assms(2) by (auto simp: session_Read_def bindM_eq_Ok prim_simps s)
  show ?thesis
    using p(1)
  proof (cases rule: session_round_cases)
    case Closed
    then show ?thesis using assms(1) p(2,3) by (cases "s_connErr (m_s m)") (auto simp: s session_rel_def)
  next
    case Waits
    then show ?thesis using p(2,3) session_rel_mon [OF assms(1) [unfolded s], of "startWait m"] by simp
  next
    case (Runs c p1 w1)
    have cr: "conn_rel k0 inp n w c ci co" "lo = nc_tx (w_nets w n)" "li = concat (nc_rx (w_nets w n))"
      using assms(1) Runs(1,2) by (simp_all add: s session_rel_open)
    obtain q e w2 rest where q: "Conn_Read ops c b w = (Ok (q, e), w2)" "ci = q @ rest" "length q \<le> b"
      "conn_rel k0 inp n w2 c rest co" "w_nets w2 n = w_nets w n" using conn_rel_read [OF cr(1)] by metis
    have w1: "w1 = w2" "p1 = (case e of Some err \<Rightarrow> Failed (JRead b) c err q (length q) | None \<Rightarrow> Read_ret q None)"
      using Runs(3) q(1) by (auto simp: monad_simps split: option.split)
    obtain w3 where w3: "Freeze c w2 = (Ok (), w3)" "conn_rel k0 inp n w3 c rest co" "w_nets w3 n = w_nets w2 n"
      using conn_rel_freeze [OF q(4)] by metis
    have "p = Read_ret q None \<and> conn_rel k0 inp n w' c rest co \<and> w_nets w' n = w_nets w n \<and> s_Conn (m_s m') = c \<and> \<not> s_connClosed (m_s m')"
      using Runs w1 w3 q(4,5) by (cases e) auto
    then show ?thesis using p(2,3) q(2,3) cr(2,3) by (simp add: session_rel_open)
  qed
qed

lemma session_Write_law:
  assumes "session_rel k0 inp n s ci lo li co" "session_Write ops b s = (Ok r, s')"
  shows "case r of None \<Rightarrow> session_rel k0 inp n s' ci lo li co
    | Some (k, e) \<Rightarrow> k \<le> length b \<and> session_rel k0 inp n s' ci lo li (co @ take k b) \<and> (e = None \<longrightarrow> k = length b)"
proof -
  obtain w m where s: "s = (w, m)" by fastforce
  obtain p w' m' where p: "session_round ops (JWrite b 0) (w, m) = (Ok p, w', m')" "s' = (w', m')"
    "r = (case p of Write_ret k r \<Rightarrow> Some (k, r) | _ \<Rightarrow> None)"
    using assms(2) by (auto simp: session_Write_def bindM_eq_Ok prim_simps s)
  show ?thesis
    using p(1)
  proof (cases rule: session_round_cases)
    case Closed
    then show ?thesis using assms(1) p(2,3) by (cases "s_connErr (m_s m)") (auto simp: s session_rel_def)
  next
    case Waits
    then show ?thesis using p(2,3) session_rel_mon [OF assms(1) [unfolded s], of "startWait m"] by simp
  next
    case (Runs c p1 w1)
    have cr: "conn_rel k0 inp n w c ci co" "lo = nc_tx (w_nets w n)" "li = concat (nc_rx (w_nets w n))"
      using assms(1) Runs(1,2) by (simp_all add: s session_rel_open)
    obtain j e w2 where j: "Conn_Write ops c b w = (Ok (j, e), w2)" "j = length b \<or> j = 0 \<and> e \<noteq> None"
      "conn_rel k0 inp n w2 c ci (co @ take j b)" "w_nets w2 n = w_nets w n" using conn_rel_write [OF cr(1)] by metis
    have w1: "w1 = w2" "p1 = (case e of Some err \<Rightarrow> Failed (JWrite b 0) c err [] j | None \<Rightarrow> finish_job (JWrite b 0) [] j)"
      using Runs(3) j(1) by (auto simp: monad_simps)
    obtain w3 where w3: "Freeze c w2 = (Ok (), w3)" "conn_rel k0 inp n w3 c ci (co @ take j b)" "w_nets w3 n = w_nets w2 n"
      using conn_rel_freeze [OF j(3)] by metis
    have "p = finish_job (JWrite b 0) [] j \<and> conn_rel k0 inp n w' c ci (co @ take j b) \<and> w_nets w' n = w_nets w n \<and>
        s_Conn (m_s m') = c \<and> \<not> s_connClosed (m_s m')"
      using Runs w1 w3 j(3,4) by (cases e) (auto split: if_splits)
    then show ?thesis using p(2,3) j(2) cr(2,3) by (auto simp: session_rel_open)
  qed
qed

text \<open>The backend's side.\<close>

lemma backend_law:
  assumes "session_rel k0 inp n (w, m) ci lo li co"
  shows "session_rel k0 inp n (upd_net n f w, m) ci (nc_tx (f (w_nets w n))) (concat (nc_rx (f (w_nets w n)))) co"
  using assms by (auto simp: session_rel_def conn_rel_backend)

lemma SCPConn_Close_law:
  assumes "session_rel k0 inp n s ci lo li co" "SCPConn_Close s = (Ok r, s')"
  shows "session_rel k0 inp n s' ci lo li co"
proof -
  obtain w m where s: "s = (w, m)" by fastforce
  obtain w' m' where s': "s' = (w', m')" by fastforce
  show ?thesis
  proof (cases "s_connClosed (m_s m)")
    case True
    then show ?thesis using assms by (auto simp: s SCPConn_Close_def)
  next
    case False
    let ?c = "s_Conn (m_s m)"
    have ne: "n \<noteq> c_conn (w_conns w ?c)" using assms(1) False by (simp add: s session_rel_open conn_rel_def)
    have "w_nets w' n = w_nets w n"
    proof (rule freeze_run [of ?c w])
      fix e nt
      assume "freeze ?c w = (Ok (), w\<lparr>w_conns := (w_conns w)(?c := (w_conns w ?c)\<lparr>c_frozen := True, c_connErr := e\<rparr>),
         w_nets := (w_nets w)(c_conn (w_conns w ?c) := nt)\<rparr>)"
      then show ?thesis using assms(2) False ne
        by (auto simp: s s' SCPConn_Close_def Let_def Conn_Close_def monad_simps pool_put_def split: option.splits if_splits)
    qed
    moreover have "s_connClosed (m_s m')" using SCPConn_Close_run(2) [OF assms(2) [unfolded s s'] False] by simp
    ultimately show ?thesis using assms(1) by (simp add: s s' session_rel_def)
  qed
qed

interpretation sp: duplex "session_pair sops n" "session_env k0 inp n" "session_rel k0 inp n"
  for sops :: "'srv SCPServer_ops" and n :: nat and k0 :: rc4 and inp :: "byte list"
proof
  fix s s' :: "'srv world \<times> mon" and ci lo li co b k u r r'
  assume rel: "session_rel k0 inp n s ci lo li co"
  obtain w m where s: "s = (w, m)" by fastforce
  note bk = backend_law [OF rel [unfolded s]]
  have tx: "nc_tx (snd (nc_Read k x)) = nc_tx x" "nc_rx (snd (nc_Write b x)) = nc_rx x" "nc_tx (snd (nc_Close x)) = nc_tx x"
    "nc_rx (snd (nc_Close x)) = nc_rx x" for k b x
    by (simp_all add: nc_Read_def nc_Write_def nc_Close_def split: list.split option.split)
  have lo: "lo = nc_tx (w_nets w n)" "li = concat (nc_rx (w_nets w n))" using rel by (simp_all add: s session_rel_def)
  show "case r of None \<Rightarrow> session_rel k0 inp n s' ci lo li co
      | Some (q, e) \<Rightarrow> \<exists>rest. ci = q @ rest \<and> length q \<le> k \<and> session_rel k0 inp n s' rest lo li co"
    if "remote_Read (session_pair sops n) k s = (Ok r, s')"
    using session_Read_law [OF rel] that by (simp add: session_pair_def)
  show "case r' of None \<Rightarrow> session_rel k0 inp n s' ci lo li co
      | Some (k, e) \<Rightarrow> k \<le> length b \<and> session_rel k0 inp n s' ci lo li (co @ take k b) \<and> (e = None \<longrightarrow> k = length b)"
    if "remote_Write (session_pair sops n) b s = (Ok r', s')"
    using session_Write_law [OF rel] that by (simp add: session_pair_def)
  show "case r of None \<Rightarrow> session_rel k0 inp n s' ci lo li co
      | Some (q, e) \<Rightarrow> \<exists>rest. li = q @ rest \<and> length q \<le> k \<and> session_rel k0 inp n s' ci lo rest co"
    if st: "local_Read (session_pair sops n) k s = (Ok r, s')"
  proof -
    obtain x nt where x: "nc_Read k (w_nets w n) = (x, nt)" by fastforce
    have s': "s' = (upd_net n (\<lambda>y. snd (nc_Read k y)) w, m)" "r = Some (case x of Ok q \<Rightarrow> (q, None) | Fail e \<Rightarrow> ([], Some e) | _ \<Rightarrow> ([], None))"
      using st x by (cases x; auto simp: session_pair_def onS_def tcp_Read_def monad_simps s nc_Read_def split: list.splits if_splits)+
    have "session_rel k0 inp n s' ci lo (concat (nc_rx nt)) co"
      using bk [of "\<lambda>y. snd (nc_Read k y)"] tx(1) [of k "w_nets w n"] x lo(1) by (simp add: s'(1))
    moreover have "li = (case x of Ok q \<Rightarrow> q | _ \<Rightarrow> []) @ concat (nc_rx nt)" "length (case x of Ok q \<Rightarrow> q | _ \<Rightarrow> []) \<le> k"
      using x lo(2) by (auto simp: nc_Read_def split: if_splits list.splits)
    ultimately show ?thesis by (cases x) (auto simp: s'(2))
  qed
  show "case r' of None \<Rightarrow> session_rel k0 inp n s' ci lo li co
      | Some (k, e) \<Rightarrow> k \<le> length b \<and> session_rel k0 inp n s' ci (lo @ take k b) li co \<and> (e = None \<longrightarrow> k = length b)"
    if st: "local_Write (session_pair sops n) b s = (Ok r', s')"
  proof -
    obtain j e nt where x: "nc_Write b (w_nets w n) = ((j, e), nt)" by (metis prod.collapse)
    have s': "s' = (upd_net n (\<lambda>y. snd (nc_Write b y)) w, m)" "r' = Some (j, e)"
      using st x by (auto simp: session_pair_def onS_def tcp_Write_def monad_simps s)
    have "j \<le> length b" "nc_tx nt = lo @ take j b" "e = None \<Longrightarrow> j = length b"
      using nc_Write_prefix [OF x] lo(1) by auto
    then show ?thesis
      using bk [of "\<lambda>y. snd (nc_Write b y)"] tx(2) [of b "w_nets w n"] x lo(2) by (simp add: s')
  qed
  show "session_rel k0 inp n s' ci lo li co" if "remote_Close (session_pair sops n) s = (Ok u, s')"
    using that SCPConn_Close_law [OF rel] by (auto simp: session_pair_def bindM_eq_Ok prim_simps)
  show "session_rel k0 inp n s' ci lo li co" if "local_Close (session_pair sops n) s = (Ok u, s')"
    using that bk [of "\<lambda>y. snd (nc_Close y)"] tx(3,4) [of "w_nets w n"] lo
    by (auto simp: session_pair_def onS_def tcp_Close_def monad_simps s)
  show "session_rel k0 inp n s' ci lo li co" if "session_env k0 inp n s s'"
  proof (cases "\<exists>r. SCPConn_Close s = (Ok r, s')")
    case True
    then show ?thesis using SCPConn_Close_law [OF rel] by blast
  next
    case False
    then have "resumed k0 inp n s s'" using that by (simp add: session_env_def)
    then show ?thesis using rel by (auto simp: resumed_def session_rel_def s)
  qed
qed

section \<open>Properties\<close>

text \<open>The bytes are passed on in order, without gaps and without repetition, in both directions at once. In any interleaving of the two
  goroutines, while the session loses its connection and is resumed any number of times: what the backend has received
  is a prefix of what the client sent, as long as \<open>written\<close> says, and what the session has accepted for the client is a prefix
  of what the backend sent; what was read but not passed on is at most one buffer, and only the buffer in flight while the
  pump still runs.\<close>

theorem pump_forwards_in_order:
  assumes "(pair_step (session_pair sops n) (session_env k0 inp n))\<^sup>*\<^sup>* \<lparr>pr_s = (w, m), pr_c2s = pump_start, pr_s2c = pump_start\<rparr> x"
    "\<not> s_connClosed (m_s m)" "conn_rel k0 inp n w (s_Conn (m_s m)) ci co" "pr_s x = (w', m')"
  shows "\<exists>up lost rest. nc_tx (w_nets w' n) = nc_tx (w_nets w n) @ up \<and> ci = up @ lost @ rest \<and>
      pm_written (pr_c2s x) = int (length up) \<and> length lost \<le> NetBufferSize \<and> (pm_pc (pr_c2s x) = Reading \<longrightarrow> lost = []) \<and>
    (\<exists>down lost'. concat (nc_rx (w_nets w n)) = down @ lost' @ concat (nc_rx (w_nets w' n)) \<and>
      pm_written (pr_s2c x) = int (length down) \<and> length lost' \<le> NetBufferSize \<and> (pm_pc (pr_s2c x) = Reading \<longrightarrow> lost' = []) \<and>
      (\<not> s_connClosed (m_s m') \<longrightarrow> conn_rel k0 inp n w' (s_Conn (m_s m')) rest (co @ down)))"
proof -
  let ?lo = "nc_tx (w_nets w n)" and ?li = "concat (nc_rx (w_nets w n))"
  have "session_rel k0 inp n (w, m) ci ?lo ?li co" using assms(2,3) by (simp add: session_rel_open)
  from sp.run_forwards [OF assms(1) this] obtain ci' lo' li' co' where
    r: "session_rel k0 inp n (w', m') ci' lo' li' co'" "dir_ok (pr_c2s x) ci ?lo ci' lo'" "dir_ok (pr_s2c x) ?li co li' co'"
    unfolding assms(4) by blast
  obtain up lost where up: "lo' = ?lo @ up" "ci = up @ lost @ ci'" "pm_written (pr_c2s x) = int (length up)" "length lost \<le> NetBufferSize"
    "pm_pc (pr_c2s x) = Reading \<Longrightarrow> lost = []" using dir_okE [OF r(2)] by blast
  obtain down lost' where down: "co' = co @ down" "?li = down @ lost' @ li'" "pm_written (pr_s2c x) = int (length down)"
    "length lost' \<le> NetBufferSize" "pm_pc (pr_s2c x) = Reading \<Longrightarrow> lost' = []" using dir_okE [OF r(3)] by blast
  have f: "nc_tx (w_nets w' n) = lo'" "concat (nc_rx (w_nets w' n)) = li'"
    "\<not> s_connClosed (m_s m') \<Longrightarrow> conn_rel k0 inp n w' (s_Conn (m_s m')) ci' (co @ down)"
    using r(1) down(1) by (auto simp: session_rel_def)
  have "\<exists>down lost'. ?li = down @ lost' @ concat (nc_rx (w_nets w' n)) \<and>
      pm_written (pr_s2c x) = int (length down) \<and> length lost' \<le> NetBufferSize \<and> (pm_pc (pr_s2c x) = Reading \<longrightarrow> lost' = []) \<and>
      (\<not> s_connClosed (m_s m') \<longrightarrow> conn_rel k0 inp n w' (s_Conn (m_s m')) ci' (co @ down))"
    using down f by (intro exI [of _ down] exI [of _ lost']) simp
  then show ?thesis using up f(1) by (intro exI [of _ up] exI [of _ lost] exI [of _ ci']) simp
qed

theorem pump_forwards_in_order_witness:
  "\<exists>x w' m' up lost rest. (pair_step (session_pair ex_ops 5) (session_env (rc4_NewCipher [9]) [7, 8] 5))\<^sup>*\<^sup>*
      \<lparr>pr_s = (ex_world (rc4_NewCipher [9]) [1] [7, 8] 1 0 [drop 1 (fst (XORKeyStream (rc4_NewCipher [9]) [7, 8]))], NewSCPConn 0 30),
       pr_c2s = pump_start, pr_s2c = pump_start\<rparr> x \<and> pr_s x = (w', m') \<and> pm_pc (pr_s2c x) \<noteq> Reading \<and>
    nc_tx (w_nets w' 5) = up \<and> [8] = up @ lost @ rest"
proof -
  let ?k = "rc4_NewCipher [9]"
  define ct where "ct = drop 1 (fst (XORKeyStream ?k [7, 8]))"
  define w where "w = ex_world ?k [1] [7, 8] 1 0 [ct]"
  have l: "length ct = 1" by (simp add: ct_def)
  have st: "streams w 0 ?k [1] [7, 8] 1" unfolding w_def by (rule ex_world_streams) simp_all
  have wd: "c_conn (w_conns w 0) = 0" "c_handshaked (w_conns w 0)" "concat (nc_rx (net_of w 0)) = ct" "w_nets w 5 = ex_net [ct]"
    by (simp_all add: w_def del: XORKeyStream_Cons) (simp add: ex_world_def)
  have cr: "conn_rel ?k [7, 8] 5 w 0 [8] [1]"
    unfolding conn_rel_def using st wd by (simp del: XORKeyStream_Cons add: ct_def) (rule exI [of _ 1], simp del: XORKeyStream_Cons)
  have rd: "fst (nc_Read NetBufferSize (ex_net [ct])) = Ok ct" using l by (simp add: nc_Read_def ex_net_def NetBufferSize_def)
  let ?start = "\<lparr>pr_s = (w, NewSCPConn 0 30), pr_c2s = pump_start, pr_s2c = pump_start\<rparr>"
  let ?fin = "?start\<lparr>pr_s := (upd_net 5 (\<lambda>y. snd (nc_Read NetBufferSize y)) w, NewSCPConn 0 30), pr_s2c := pump_start\<lparr>pm_pc := Writing ct None\<rparr>\<rparr>"
  let ?w1 = "upd_net 5 (\<lambda>y. snd (nc_Read NetBufferSize y)) w"
  have "s2c (session_pair ex_ops 5) pump_start (w, NewSCPConn 0 30) = (Ok (pump_start\<lparr>pm_pc := Writing ct None\<rparr>), ?w1, NewSCPConn 0 30)"
    using rd l by (auto simp: s2c_def pump_step_def pump_start_def session_pair_def onS_def tcp_Read_def monad_simps wd(4))
  from pair_step.S2C [of "session_pair ex_ops 5" ?start, simplified, OF this]
  have r: "(pair_step (session_pair ex_ops 5) (session_env ?k [7, 8] 5))\<^sup>*\<^sup>* ?start
      (?start\<lparr>pr_s := (?w1, NewSCPConn 0 30), pr_s2c := pump_start\<lparr>pm_pc := Writing ct None\<rparr>\<rparr>)" by (intro r_into_rtranclp) simp
  have o: "\<not> s_connClosed (m_s (NewSCPConn 0 30))" "s_Conn (m_s (NewSCPConn 0 30)) = 0" by (simp_all add: NewSCPConn_def)
  have "pr_s ?fin = (?w1, NewSCPConn 0 30)" by simp
  from pump_forwards_in_order [OF r o(1) _ this] cr obtain up lost rest where
    "nc_tx (w_nets ?w1 5) = nc_tx (w_nets w 5) @ up" "[8] = up @ lost @ rest" unfolding o(2) by blast
  moreover have "nc_tx (w_nets w 5) = []" by (simp add: wd(4) ex_net_def)
  ultimately show ?thesis
    using r unfolding w_def ct_def by (intro exI [of _ ?fin] exI [of _ ?w1] exI [of _ "NewSCPConn 0 30"] exI [of _ up] exI [of _ lost] exI [of _ rest])
      (simp add: pump_start_def w_def ct_def del: XORKeyStream_Cons)
qed

end
