(* ===== verification/Pump_Buffers.thy ===== *)
theory Pump_Buffers
  imports Scp_Pump
begin

text \<open>
  The goroutines of \<open>pump\<close> (\<open>server.go\<close>) for all pairs at once, with what \<open>Scp_Pump\<close> leaves out: the buffer each of them takes from the
  pool \<open>copyPool\<close> and gives back, and the channels on which they report to \<open>Pump\<close>.

  The buffers are arrays at addresses of one store (\<open>ch_mem\<close>), shared by all goroutines of the program; a goroutine holds the address it
  got from the pool. \<open>Read\<close> fills the buffer, \<open>Write\<close> sends what is in it when it is called. \<open>sync.Pool\<close> may return any of its
  elements or a new one. A send on an unbuffered channel and its receive are one step of both sides.

  \<open>psys_step\<close> interleaves the goroutines of any number of pairs. It refines \<open>pair_step\<close>, in which a goroutine carries the bytes themselves.
\<close>

section \<open>The pool of copy buffers\<close>

record copy_heap =
  ch_mem :: "nat \<Rightarrow> byte list"
  ch_pool :: "nat list"
  ch_next :: nat

definition copyPool :: copy_heap where
  "copyPool = \<lparr>ch_mem = (\<lambda>_. []), ch_pool = [], ch_next = 0\<rparr>"

definition copyPool_Get :: "nat \<Rightarrow> copy_heap \<Rightarrow> nat \<times> copy_heap" where
  "copyPool_Get pick h =
     (if pick < length (ch_pool h) then (ch_pool h ! pick, h\<lparr>ch_pool := take pick (ch_pool h) @ drop (Suc pick) (ch_pool h)\<rparr>)
      else (ch_next h, h\<lparr>ch_mem := (ch_mem h)(ch_next h := replicate NetBufferSize 0), ch_next := Suc (ch_next h)\<rparr>))"

definition copyPool_Put :: "nat \<Rightarrow> copy_heap \<Rightarrow> copy_heap" where
  "copyPool_Put a h = h\<lparr>ch_pool := a # ch_pool h\<rparr>"

section \<open>pump\<close>

datatype bpc =
    BGet
  | BRead
  | BWrite nat "goerr option"
  | BCloseSrc goerr
  | BCloseDst goerr
  | BSendWritten goerr
  | BSendPackets goerr
  | BPut goerr
  | BReturned goerr

record bpump =
  bp_pc :: bpc
  bp_buf :: nat
  bp_written :: int
  bp_packets :: int

definition bpump_start :: bpump where
  "bpump_start = \<lparr>bp_pc = BGet, bp_buf = 0, bp_written = 0, bp_packets = 0\<rparr>"

definition after_bround :: "goerr option \<Rightarrow> bpc" where
  "after_bround err = (case err of None \<Rightarrow> BRead | Some e \<Rightarrow> BCloseSrc e)"

text \<open>A call on the connections, which does not touch the buffers.\<close>

definition onC :: "('s, 'a) M \<Rightarrow> ('s \<times> copy_heap, 'a) M" where
  "onC f = (\<lambda>(s, h). case f s of (r, s') \<Rightarrow> (r, s', h))"

definition onH :: "(copy_heap \<Rightarrow> copy_heap) \<Rightarrow> ('s \<times> copy_heap, unit) M" where
  "onH f = modM (\<lambda>(s, h). (s, f h))"

text \<open>One step of a goroutine up to its reports; a call that has not returned leaves it where it is.\<close>

definition bpump_step :: "nat \<Rightarrow> (nat \<Rightarrow> ('s, (byte list \<times> goerr option) option) M) \<Rightarrow> (byte list \<Rightarrow> ('s, (nat \<times> goerr option) option) M) \<Rightarrow>
    ('s, unit) M \<Rightarrow> ('s, unit) M \<Rightarrow> bpump \<Rightarrow> ('s \<times> copy_heap, bpump) M" where
  "bpump_step pick src_Read dst_Write src_Close dst_Close p = (case bp_pc p of
     BGet \<Rightarrow> (\<lambda>(s, h). case copyPool_Get pick h of (a, h') \<Rightarrow> (Ok (p\<lparr>bp_buf := a, bp_pc := BRead\<rparr>), s, h'))
   | BRead \<Rightarrow>
       bindM (getM (\<lambda>(s, h). length (ch_mem h (bp_buf p)))) (\<lambda>n.
       bindM (onC (src_Read n)) (\<lambda>r. case r of
         None \<Rightarrow> retM p
       | Some (data, er) \<Rightarrow>
           bindM (onH (\<lambda>h. h\<lparr>ch_mem := (ch_mem h)(bp_buf p := go_copy (ch_mem h (bp_buf p)) 0 data)\<rparr>)) (\<lambda>_.
           retM (p\<lparr>bp_pc := (if 0 < length data then BWrite (length data) er else after_bround er)\<rparr>))))
   | BWrite nr er \<Rightarrow>
       bindM (getM (\<lambda>(s, h). take nr (ch_mem h (bp_buf p)))) (\<lambda>data.
       bindM (onC (dst_Write data)) (\<lambda>r. retM (case r of
         None \<Rightarrow> p
       | Some (nw, ew) \<Rightarrow>
           (if 0 < nw then p\<lparr>bp_packets := bp_packets p + 1, bp_written := bp_written p + int nw\<rparr> else p)
             \<lparr>bp_pc := after_bround (if ew \<noteq> None then ew else er)\<rparr>)))
   | BCloseSrc e \<Rightarrow> bindM (onC src_Close) (\<lambda>_. retM (p\<lparr>bp_pc := BCloseDst e\<rparr>))
   | BCloseDst e \<Rightarrow> bindM (onC dst_Close) (\<lambda>_. retM (p\<lparr>bp_pc := BSendWritten e\<rparr>))
   | BPut e \<Rightarrow> bindM (onH (copyPool_Put (bp_buf p))) (\<lambda>_. retM (p\<lparr>bp_pc := BReturned e\<rparr>))
   | _ \<Rightarrow> retM p)"

section \<open>Pump\<close>

text \<open>Where \<open>Pump\<close> is: waiting for the first or second report of the first or second goroutine, or done with the four numbers.\<close>

datatype Pump_pc =
    WaitDlData
  | WaitDlPackets int
  | WaitUlData int int
  | WaitUlPackets int int int
  | PumpDone int int int int

record pair_run =
  pn_c2s :: bpump
  pn_s2c :: bpump
  pn_Pump :: Pump_pc

definition pair_run_start :: pair_run where
  "pair_run_start = \<lparr>pn_c2s = bpump_start, pn_s2c = bpump_start, pn_Pump = WaitDlData\<rparr>"

text \<open>A goroutine sends \<open>written\<close> and then \<open>packets\<close>.\<close>

definition report :: "bpump \<Rightarrow> (int \<times> bpump) option" where
  "report p = (case bp_pc p of
     BSendWritten e \<Rightarrow> Some (bp_written p, p\<lparr>bp_pc := BSendPackets e\<rparr>)
   | BSendPackets e \<Rightarrow> Some (bp_packets p, p\<lparr>bp_pc := BPut e\<rparr>)
   | _ \<Rightarrow> None)"

definition Pump_recv :: "pair_run \<Rightarrow> pair_run option" where
  "Pump_recv r = (case pn_Pump r of
     WaitDlData \<Rightarrow> map_option (\<lambda>(v, p). r\<lparr>pn_c2s := p, pn_Pump := WaitDlPackets v\<rparr>) (report (pn_c2s r))
   | WaitDlPackets dlData \<Rightarrow> map_option (\<lambda>(v, p). r\<lparr>pn_c2s := p, pn_Pump := WaitUlData dlData v\<rparr>) (report (pn_c2s r))
   | WaitUlData dlData dlPackets \<Rightarrow> map_option (\<lambda>(v, p). r\<lparr>pn_s2c := p, pn_Pump := WaitUlPackets dlData dlPackets v\<rparr>) (report (pn_s2c r))
   | WaitUlPackets dlData dlPackets ulData \<Rightarrow>
       map_option (\<lambda>(v, p). r\<lparr>pn_s2c := p, pn_Pump := PumpDone dlData dlPackets ulData v\<rparr>) (report (pn_s2c r))
   | PumpDone _ _ _ _ \<Rightarrow> None)"

section \<open>All pairs\<close>

record 's psys =
  py_s :: 's
  py_copy :: copy_heap
  py_pairs :: "nat \<Rightarrow> pair_run option"

definition psys_start :: "'s \<Rightarrow> 's psys" where
  "psys_start s = \<lparr>py_s = s, py_copy = copyPool, py_pairs = Map.empty\<rparr>"

definition bc2s :: "nat \<Rightarrow> 's pair_ops \<Rightarrow> bpump \<Rightarrow> ('s \<times> copy_heap, bpump) M" where
  "bc2s pick ops = bpump_step pick (remote_Read ops) (local_Write ops) (remote_Close ops) (local_Close ops)"

definition bs2c :: "nat \<Rightarrow> 's pair_ops \<Rightarrow> bpump \<Rightarrow> ('s \<times> copy_heap, bpump) M" where
  "bs2c pick ops = bpump_step pick (local_Read ops) (remote_Write ops) (local_Close ops) (remote_Close ops)"

inductive psys_step :: "(nat \<Rightarrow> 's pair_ops) \<Rightarrow> ('s \<Rightarrow> 's \<Rightarrow> bool) \<Rightarrow> 's psys \<Rightarrow> 's psys \<Rightarrow> bool" for ops env where
  Start: "py_pairs x k = None \<Longrightarrow> psys_step ops env x (x\<lparr>py_pairs := (py_pairs x)(k \<mapsto> pair_run_start)\<rparr>)"
| C2S: "py_pairs x k = Some r \<Longrightarrow> bc2s pick (ops k) (pn_c2s r) (py_s x, py_copy x) = (Ok p', s', h') \<Longrightarrow>
    psys_step ops env x (x\<lparr>py_s := s', py_copy := h', py_pairs := (py_pairs x)(k \<mapsto> r\<lparr>pn_c2s := p'\<rparr>)\<rparr>)"
| S2C: "py_pairs x k = Some r \<Longrightarrow> bs2c pick (ops k) (pn_s2c r) (py_s x, py_copy x) = (Ok p', s', h') \<Longrightarrow>
    psys_step ops env x (x\<lparr>py_s := s', py_copy := h', py_pairs := (py_pairs x)(k \<mapsto> r\<lparr>pn_s2c := p'\<rparr>)\<rparr>)"
| Report: "py_pairs x k = Some r \<Longrightarrow> Pump_recv r = Some r' \<Longrightarrow> psys_step ops env x (x\<lparr>py_pairs := (py_pairs x)(k \<mapsto> r')\<rparr>)"
| Env: "env (py_s x) s' \<Longrightarrow> psys_step ops env x (x\<lparr>py_s := s'\<rparr>)"

inductive_cases psys_stepE: "psys_step ops env x x'"

section \<open>Every buffer has one holder\<close>

text \<open>The goroutines as one family; \<open>True\<close> is the direction from the client.\<close>

definition part :: "bool \<Rightarrow> pair_run \<Rightarrow> bpump" where
  "part d r = (if d then pn_c2s r else pn_s2c r)"

definition set_part :: "bool \<Rightarrow> bpump \<Rightarrow> pair_run \<Rightarrow> pair_run" where
  "set_part d p r = (if d then r\<lparr>pn_c2s := p\<rparr> else r\<lparr>pn_s2c := p\<rparr>)"

definition procs :: "(nat \<Rightarrow> pair_run option) \<Rightarrow> nat \<times> bool \<Rightarrow> bpump option" where
  "procs pairs = (\<lambda>(k, d). map_option (part d) (pairs k))"

definition holding :: "bpump \<Rightarrow> bool" where
  "holding p \<longleftrightarrow> (case bp_pc p of BGet \<Rightarrow> False | BReturned e \<Rightarrow> False | _ \<Rightarrow> True)"

definition buffer_ok :: "copy_heap \<Rightarrow> nat \<Rightarrow> bool" where
  "buffer_ok h a \<longleftrightarrow> a < ch_next h \<and> length (ch_mem h a) = NetBufferSize"

definition bufs_ok :: "copy_heap \<Rightarrow> ('i \<Rightarrow> bpump option) \<Rightarrow> bool" where
  "bufs_ok h ps \<longleftrightarrow> distinct (ch_pool h) \<and> (\<forall>a \<in> set (ch_pool h). buffer_ok h a) \<and>
     (\<forall>i p. ps i = Some p \<longrightarrow> holding p \<longrightarrow> bp_buf p \<notin> set (ch_pool h) \<and> buffer_ok h (bp_buf p)) \<and>
     (\<forall>i j p q. ps i = Some p \<longrightarrow> ps j = Some q \<longrightarrow> holding p \<longrightarrow> holding q \<longrightarrow> bp_buf p = bp_buf q \<longrightarrow> i = j)"

lemma part_simps [simp]:
  "part d (set_part d p r) = p" "d' \<noteq> d \<Longrightarrow> part d' (set_part d p r) = part d' r" "part d (r\<lparr>pn_Pump := w\<rparr>) = part d r"
  "set_part True p r = r\<lparr>pn_c2s := p\<rparr>" "set_part False p r = r\<lparr>pn_s2c := p\<rparr>" "part True r = pn_c2s r" "part False r = pn_s2c r"
  "pn_Pump (set_part d p r) = pn_Pump r"
  by (auto simp: part_def set_part_def)

lemma procs_upd:
  assumes "pairs k = Some r"
  shows "procs (pairs(k \<mapsto> set_part d p r)) = (procs pairs)((k, d) \<mapsto> p)"
  using assms by (auto simp: procs_def fun_eq_iff)

lemma procs_start: "pairs k = None \<Longrightarrow> procs (pairs(k \<mapsto> pair_run_start)) = (procs pairs)((k, True) \<mapsto> bpump_start, (k, False) \<mapsto> bpump_start)"
  by (auto simp: procs_def fun_eq_iff pair_run_start_def)

lemma bufs_okD:
  assumes "bufs_ok h ps" "ps i = Some p" "holding p"
  shows "bp_buf p \<notin> set (ch_pool h)" "buffer_ok h (bp_buf p)" "ps j = Some q \<Longrightarrow> holding q \<Longrightarrow> j \<noteq> i \<Longrightarrow> bp_buf q \<noteq> bp_buf p"
  using assms unfolding bufs_ok_def by metis+

text \<open>A goroutine takes a buffer, keeps the one it has, or gives it back.\<close>

lemma bufs_ok_move:
  assumes "bufs_ok h ps" "ps i = Some p" "holding p' \<Longrightarrow> holding p \<and> bp_buf p' = bp_buf p"
  shows "bufs_ok h (ps(i \<mapsto> p'))"
  using assms unfolding bufs_ok_def by (auto split: if_splits)

lemma bufs_ok_start: "bufs_ok h ps \<Longrightarrow> bufs_ok h (ps(i \<mapsto> bpump_start))"
  unfolding bufs_ok_def by (auto simp: bpump_start_def holding_def split: if_splits)

lemma bufs_ok_mem:
  assumes "bufs_ok h ps" "length v = length (ch_mem h a)"
  shows "bufs_ok (h\<lparr>ch_mem := (ch_mem h)(a := v)\<rparr>) ps"
  using assms unfolding bufs_ok_def by (auto simp: buffer_ok_def)

text \<open>What \<open>Get\<close> returns is nobody's, whether it is taken from the pool or new.\<close>

lemma copyPool_Get_fresh:
  assumes ok: "bufs_ok h ps" and get: "copyPool_Get pick h = (a, h')"
  shows "buffer_ok h' a \<and> a \<notin> set (ch_pool h') \<and> distinct (ch_pool h') \<and> set (ch_pool h') \<subseteq> set (ch_pool h) \<and>
    (\<forall>b. buffer_ok h b \<longrightarrow> buffer_ok h' b \<and> ch_mem h' b = ch_mem h b) \<and> (\<forall>j q. ps j = Some q \<longrightarrow> holding q \<longrightarrow> bp_buf q \<noteq> a)"
proof -
  have pool: "distinct (ch_pool h)" "\<forall>a \<in> set (ch_pool h). buffer_ok h a" using ok(1) by (simp_all add: bufs_ok_def)
  show ?thesis
  proof (cases "pick < length (ch_pool h)")
    case True
    then have h': "a = ch_pool h ! pick" "h' = h\<lparr>ch_pool := take pick (ch_pool h) @ drop (Suc pick) (ch_pool h)\<rparr>"
      using get by (simp_all add: copyPool_Get_def)
    have "set (ch_pool h') = set (ch_pool h) - {a}" "distinct (ch_pool h')" "a \<in> set (ch_pool h)"
      using remove_nth_distinct [OF True pool(1)] True by (simp_all add: h')
    then show ?thesis using pool(2) bufs_okD(1) [OF ok(1)] by (auto simp: h'(2) buffer_ok_def)
  next
    case False
    then have h': "a = ch_next h" "h' = h\<lparr>ch_mem := (ch_mem h)(ch_next h := replicate NetBufferSize 0), ch_next := Suc (ch_next h)\<rparr>"
      using get by (auto simp: copyPool_Get_def)
    have "bp_buf q \<noteq> a" if "ps j = Some q" "holding q" for j q using bufs_okD(2) [OF ok(1) that] by (auto simp: buffer_ok_def h'(1))
    then show ?thesis using pool by (auto simp: h' buffer_ok_def)
  qed
qed

lemma Get_bufs:
  assumes ok: "bufs_ok h ps" "ps i = Some p" and get: "copyPool_Get pick h = (a, h')"
  shows "bufs_ok h' (ps(i \<mapsto> p\<lparr>bp_buf := a, bp_pc := BRead\<rparr>))" "ps j = Some q \<Longrightarrow> holding q \<Longrightarrow> ch_mem h' (bp_buf q) = ch_mem h (bp_buf q)"
proof -
  note a = copyPool_Get_fresh [OF ok(1) get]
  have "bufs_ok h' ps" using ok(1) a unfolding bufs_ok_def by blast
  then show "bufs_ok h' (ps(i \<mapsto> p\<lparr>bp_buf := a, bp_pc := BRead\<rparr>))"
    unfolding bufs_ok_def using a by (auto split: if_splits)
  show "ps j = Some q \<Longrightarrow> holding q \<Longrightarrow> ch_mem h' (bp_buf q) = ch_mem h (bp_buf q)" using bufs_okD(2) [OF ok(1)] a by blast
qed

lemma Put_bufs:
  assumes "bufs_ok h ps" "ps i = Some p" "bp_pc p = BPut e"
  shows "bufs_ok (copyPool_Put (bp_buf p) h) (ps(i \<mapsto> p\<lparr>bp_pc := BReturned e\<rparr>))"
proof -
  have "holding p" using assms(3) by (simp add: holding_def)
  note D = bufs_okD [OF assms(1,2) this]
  have h: "\<not> holding (p\<lparr>bp_pc := BReturned e\<rparr>)" by (simp add: holding_def)
  show ?thesis
    using assms(1) D h unfolding bufs_ok_def by (auto simp: copyPool_Put_def buffer_ok_def split: if_splits)
qed

section \<open>Refinement of the pumps that carry the bytes\<close>

fun abs_pc :: "byte list \<Rightarrow> bpc \<Rightarrow> ppc" where
  "abs_pc b (BWrite nr er) = Writing (take nr b) er"
| "abs_pc b (BCloseSrc e) = CloseSrc e"
| "abs_pc b (BCloseDst e) = CloseDst e"
| "abs_pc b (BSendWritten e) = Reported e"
| "abs_pc b (BSendPackets e) = Reported e"
| "abs_pc b (BPut e) = Reported e"
| "abs_pc b (BReturned e) = Reported e"
| "abs_pc b _ = Reading"

definition abs_pump :: "copy_heap \<Rightarrow> bpump \<Rightarrow> pumpst" where
  "abs_pump h p = \<lparr>pm_pc = abs_pc (ch_mem h (bp_buf p)) (bp_pc p), pm_written = bp_written p, pm_packets = bp_packets p\<rparr>"

definition abs_pair :: "'s psys \<Rightarrow> pair_run \<Rightarrow> 's pairst" where
  "abs_pair x r = \<lparr>pr_s = py_s x, pr_c2s = abs_pump (py_copy x) (pn_c2s r), pr_s2c = abs_pump (py_copy x) (pn_s2c r)\<rparr>"

text \<open>The contract of \<open>io.Reader\<close>: a read into \<open>n\<close> bytes gives at most \<open>n\<close>.\<close>

definition reader :: "(nat \<Rightarrow> ('s, (byte list \<times> goerr option) option) M) \<Rightarrow> bool" where
  "reader rd \<longleftrightarrow> (\<forall>n s data er s'. rd n s = (Ok (Some (data, er)), s') \<longrightarrow> length data \<le> n)"

lemma onC_Ok: "onC f (s, h) = (Ok r, s', h') \<longleftrightarrow> f s = (Ok r, s') \<and> h' = h"
  by (auto simp: onC_def split: prod.splits)

lemma onH_Ok: "onH f (s, h) = (Ok r, s', h') \<longleftrightarrow> s' = s \<and> h' = f h"
  by (auto simp: onH_def prim_simps)

lemmas bpump_simps = bpump_step_def bindM_eq_Ok prim_simps onC_Ok onH_Ok

lemma abs_after_bround [simp]: "abs_pc b (after_bround e) = after_round e"
  by (simp add: after_bround_def after_round_def split: option.split)

lemma holding_after_bround [simp]: "holding (p\<lparr>bp_pc := after_bround e\<rparr>)"
  by (simp add: holding_def after_bround_def split: option.split)

lemma bpump_step_Read:
  assumes "bpump_step pick rd wr c1 c2 p (s, h) = (Ok p', s', h')" "bp_pc p = BRead"
  obtains (Pending) "rd (length (ch_mem h (bp_buf p))) s = (Ok None, s')" "h' = h" "p' = p"
  | (Returned) data er where "rd (length (ch_mem h (bp_buf p))) s = (Ok (Some (data, er)), s')"
      "h' = h\<lparr>ch_mem := (ch_mem h)(bp_buf p := go_copy (ch_mem h (bp_buf p)) 0 data)\<rparr>"
      "p' = p\<lparr>bp_pc := (if 0 < length data then BWrite (length data) er else after_bround er)\<rparr>"
proof -
  let ?K = "\<lambda>x. case x of None \<Rightarrow> retM p | Some (data, er) \<Rightarrow>
       bindM (onH (\<lambda>h. h\<lparr>ch_mem := (ch_mem h)(bp_buf p := go_copy (ch_mem h (bp_buf p)) 0 data)\<rparr>)) (\<lambda>_.
       retM (p\<lparr>bp_pc := (if 0 < length data then BWrite (length data) er else after_bround er)\<rparr>))"
  have "bindM (onC (rd (length (ch_mem h (bp_buf p))))) ?K (s, h) = (Ok p', s', h')"
    using assms by (simp add: bpump_step_def bindM_app [of "getM f" for f] prim_simps del: length_greater_0_conv)
  then obtain x s1 h1 where "onC (rd (length (ch_mem h (bp_buf p)))) (s, h) = (Ok x, s1, h1)" "?K x (s1, h1) = (Ok p', s', h')"
    unfolding bindM_eq_Ok by auto
  then have x: "rd (length (ch_mem h (bp_buf p))) s = (Ok x, s1)" "?K x (s1, h) = (Ok p', s', h')"
    by (simp_all add: onC_Ok)
  show thesis
  proof (cases x)
    case None
    then show thesis by (intro Pending) (use x in \<open>simp_all add: prim_simps\<close>)
  next
    case (Some de)
    obtain data er where "de = (data, er)" by (cases de)
    then show thesis using Some by (intro Returned [of data er]) (use x in \<open>simp_all add: bindM_app onH_def prim_simps\<close>)
  qed
qed

lemma bpump_step_Write:
  assumes "bpump_step pick rd wr c1 c2 p (s, h) = (Ok p', s', h')" "bp_pc p = BWrite nr er"
  obtains r where "wr (take nr (ch_mem h (bp_buf p))) s = (Ok r, s')" "h' = h" "p' = (case r of None \<Rightarrow> p | Some (nw, ew) \<Rightarrow>
      (if 0 < nw then p\<lparr>bp_packets := bp_packets p + 1, bp_written := bp_written p + int nw\<rparr> else p)
        \<lparr>bp_pc := after_bround (if ew \<noteq> None then ew else er)\<rparr>)"
  using assms by (auto simp: bpump_simps)

lemma bpump_step_Read_bufs:
  assumes ok: "bufs_ok h ps" "ps i = Some p" and pc: "bp_pc p = BRead"
    and st: "bpump_step pick rd wr c1 c2 p (s, h) = (Ok p', s', h')"
  shows "bufs_ok h' (ps(i \<mapsto> p')) \<and> (\<forall>j q. j \<noteq> i \<longrightarrow> ps j = Some q \<longrightarrow> holding q \<longrightarrow> ch_mem h' (bp_buf q) = ch_mem h (bp_buf q))"
proof -
  have hold: "holding p" using pc by (simp add: holding_def)
  show ?thesis
    using st pc
  proof (cases rule: bpump_step_Read)
    case Pending
    then show ?thesis using ok by (simp add: map_upd_triv)
  next
    case (Returned data er)
    have "bufs_ok h' ps" unfolding Returned by (intro bufs_ok_mem [OF ok(1)] length_go_copy) simp
    then have "bufs_ok h' (ps(i \<mapsto> p'))" using bufs_ok_move ok(2) hold Returned(3) by fastforce
    then show ?thesis using bufs_okD(3) [OF ok hold] by (simp add: Returned(2))
  qed
qed

text \<open>What a step of a goroutine does to the buffers: the one it holds may change, those of the others do not.\<close>

lemma bpump_step_bufs:
  assumes ok: "bufs_ok h ps" "ps i = Some p" and st: "bpump_step pick rd wr c1 c2 p (s, h) = (Ok p', s', h')"
  shows "bufs_ok h' (ps(i \<mapsto> p')) \<and> (\<forall>j q. j \<noteq> i \<longrightarrow> ps j = Some q \<longrightarrow> holding q \<longrightarrow> ch_mem h' (bp_buf q) = ch_mem h (bp_buf q))"
proof (cases "bp_pc p")
  case BGet
  then obtain a where "copyPool_Get pick h = (a, h')" "p' = p\<lparr>bp_buf := a, bp_pc := BRead\<rparr>"
    using st by (auto simp: bpump_step_def split: prod.splits)
  then show ?thesis using Get_bufs [OF ok] by blast
next
  case BRead
  then show ?thesis by (rule bpump_step_Read_bufs [OF ok _ st])
next
  case (BPut e)
  then have "h' = copyPool_Put (bp_buf p) h" "p' = p\<lparr>bp_pc := BReturned e\<rparr>" using st by (auto simp: bpump_simps)
  then show ?thesis using Put_bufs [OF ok BPut] by (simp add: copyPool_Put_def)
next
  case (BWrite nr er)
  then have "h' = h" "holding p" "bp_buf p' = bp_buf p" using st by (auto simp: bpump_simps holding_def split: option.splits)
  then show ?thesis using bufs_ok_move [OF ok] by simp
next
  case (BReturned e)
  then show ?thesis using st ok by (auto simp: bpump_simps map_upd_triv)
qed (use st bufs_ok_move [OF ok] in \<open>auto simp: bpump_simps holding_def\<close>)

text \<open>A step of a goroutine is a step of the pump that carries the bytes, or none.\<close>

lemma bpump_step_sim:
  assumes st: "bpump_step pick rd wr c1 c2 p (s, h) = (Ok p', s', h')" and rd: "reader rd"
    and buf: "holding p \<Longrightarrow> length (ch_mem h (bp_buf p)) = NetBufferSize"
  shows "s' = s \<and> abs_pump h' p' = abs_pump h p \<or> pump_step rd wr c1 c2 (abs_pump h p) s = (Ok (abs_pump h' p'), s')"
proof (cases "bp_pc p")
  case BRead
  then have n: "length (ch_mem h (bp_buf p)) = NetBufferSize" using buf by (simp add: holding_def)
  show ?thesis
    using st BRead
  proof (cases rule: bpump_step_Read)
    case Pending
    then show ?thesis using BRead n by (simp add: abs_pump_def pump_step_def bindM_app prim_simps)
  next
    case (Returned data er)
    have "length data \<le> NetBufferSize" using rd Returned(1) n unfolding reader_def by metis
    then have "take (length data) (go_copy (ch_mem h (bp_buf p)) 0 data) = data" using n by (simp add: go_copy_fits)
    then show ?thesis using BRead n Returned by (simp add: abs_pump_def pump_step_def bindM_app prim_simps)
  qed
next
  case (BWrite nr er)
  obtain r where "wr (take nr (ch_mem h (bp_buf p))) s = (Ok r, s')" "h' = h" "p' = (case r of None \<Rightarrow> p | Some (nw, ew) \<Rightarrow>
      (if 0 < nw then p\<lparr>bp_packets := bp_packets p + 1, bp_written := bp_written p + int nw\<rparr> else p)
        \<lparr>bp_pc := after_bround (if ew \<noteq> None then ew else er)\<rparr>)"
    using st BWrite by (rule bpump_step_Write)
  then show ?thesis using BWrite by (cases r) (auto simp: abs_pump_def pump_step_def bindM_app prim_simps)
qed (use st in \<open>auto simp: bpump_simps abs_pump_def pump_step_def copyPool_Put_def split: prod.splits\<close>)

lemma abs_pump_frame: "(holding q \<Longrightarrow> ch_mem h' (bp_buf q) = ch_mem h (bp_buf q)) \<Longrightarrow> abs_pump h' q = abs_pump h q"
  by (cases "bp_pc q") (simp_all add: abs_pump_def holding_def)

section \<open>Steps of the system\<close>

text \<open>Both directions of a pair alike.\<close>

definition bdir :: "bool \<Rightarrow> nat \<Rightarrow> 's pair_ops \<Rightarrow> bpump \<Rightarrow> ('s \<times> copy_heap, bpump) M" where
  "bdir d = (if d then bc2s else bs2c)"

lemma psys_step_cases:
  assumes "psys_step ops env x x'"
  obtains (Start) k where "py_pairs x k = None" "x' = x\<lparr>py_pairs := (py_pairs x)(k \<mapsto> pair_run_start)\<rparr>"
  | (Part) d k r pick p' s' h' where "py_pairs x k = Some r" "bdir d pick (ops k) (part d r) (py_s x, py_copy x) = (Ok p', s', h')"
      "x' = x\<lparr>py_s := s', py_copy := h', py_pairs := (py_pairs x)(k \<mapsto> set_part d p' r)\<rparr>"
  | (Report) k r r' where "py_pairs x k = Some r" "Pump_recv r = Some r'" "x' = x\<lparr>py_pairs := (py_pairs x)(k \<mapsto> r')\<rparr>"
  | (Env) s' where "env (py_s x) s'" "x' = x\<lparr>py_s := s'\<rparr>"
  using assms
proof cases
  case (C2S k r pick p' s' h')
  then show thesis using Part [of k r True] by (simp add: bdir_def)
next
  case (S2C k r pick p' s' h')
  then show thesis using Part [of k r False] by (simp add: bdir_def)
qed (use Start Report Env in blast)+

lemma psys_step_Part:
  assumes "py_pairs x k = Some r" "bdir d pick (ops k) (part d r) (py_s x, py_copy x) = (Ok p', s', h')"
  shows "psys_step ops env x (x\<lparr>py_s := s', py_copy := h', py_pairs := (py_pairs x)(k \<mapsto> set_part d p' r)\<rparr>)"
  using psys_step.C2S [OF assms(1)] psys_step.S2C [OF assms(1)] assms(2) by (cases d) (simp_all add: bdir_def)

lemma bdir_step:
  "bdir d pick ops = bpump_step pick (if d then remote_Read ops else local_Read ops) (if d then local_Write ops else remote_Write ops)
     (if d then remote_Close ops else local_Close ops) (if d then local_Close ops else remote_Close ops)"
  by (simp add: bdir_def bc2s_def bs2c_def)

lemma report_keeps:
  assumes "report p = Some (v, p')"
  shows "holding p" "bp_buf p' = bp_buf p" "abs_pump h p' = abs_pump h p"
  using assms by (auto simp: report_def holding_def abs_pump_def split: bpc.splits)

text \<open>A receive of \<open>Pump\<close> moves one of the two goroutines.\<close>

lemma Pump_recv_part:
  assumes "Pump_recv r = Some r'"
  obtains d v p' w where "report (part d r) = Some (v, p')" "r' = (set_part d p' r)\<lparr>pn_Pump := w\<rparr>"
proof (cases "pn_Pump r")
  case WaitDlData
  with assms show thesis using that [of True] by (auto simp: Pump_recv_def)
next
  case (WaitDlPackets v)
  with assms show thesis using that [of True] by (auto simp: Pump_recv_def)
next
  case (WaitUlData v n)
  with assms show thesis using that [of False] by (auto simp: Pump_recv_def)
next
  case (WaitUlPackets v n v')
  with assms show thesis using that [of False] by (auto simp: Pump_recv_def)
qed (use assms in \<open>simp add: Pump_recv_def\<close>)

lemma procs_upd_Pump:
  assumes "pairs k = Some r"
  shows "procs (pairs(k \<mapsto> (set_part d p r)\<lparr>pn_Pump := w\<rparr>)) = (procs pairs)((k, d) \<mapsto> p)"
  using assms by (auto simp: procs_def fun_eq_iff)

definition psys_ok :: "'s psys \<Rightarrow> bool" where
  "psys_ok x \<longleftrightarrow> bufs_ok (py_copy x) (procs (py_pairs x))"

lemma psys_ok_start: "psys_ok (psys_start s)"
  by (simp add: psys_ok_def psys_start_def bufs_ok_def copyPool_def procs_def)

lemma procs_Some: "pairs k = Some r \<Longrightarrow> procs pairs (k, d) = Some (part d r)"
  by (simp add: procs_def)

lemma psys_ok_step:
  assumes "psys_ok x" "psys_step ops env x x'"
  shows "psys_ok x'"
  using assms(2)
proof (cases rule: psys_step_cases)
  case (Start k)
  then show ?thesis using assms(1) by (simp add: psys_ok_def procs_start bufs_ok_start)
next
  case (Part d k r pick p' s' h')
  then show ?thesis
    using bpump_step_bufs [OF assms(1) [unfolded psys_ok_def] procs_Some [of "py_pairs x", OF Part(1)] Part(2) [unfolded bdir_step]]
    by (simp add: psys_ok_def procs_upd)
next
  case (Report k r r')
  from Report(2) obtain d v p' w where d: "report (part d r) = Some (v, p')" "r' = (set_part d p' r)\<lparr>pn_Pump := w\<rparr>"
    by (rule Pump_recv_part)
  show ?thesis
    using bufs_ok_move [OF assms(1) [unfolded psys_ok_def] procs_Some [of "py_pairs x", OF Report(1)]] report_keeps [OF d(1)] Report(1)
    by (simp add: psys_ok_def Report(3) d(2) procs_upd_Pump)
qed (use assms(1) in \<open>simp add: psys_ok_def\<close>)

lemma psys_ok_reach: "(psys_step ops env)\<^sup>*\<^sup>* (psys_start s) x \<Longrightarrow> psys_ok x"
  by (induction rule: rtranclp_induct) (simp_all add: psys_ok_start psys_ok_step)

section \<open>What one pair sees\<close>

text \<open>A call of one of the operations of a pair, and what happens to a pair from outside: the environment, or a call of another pair.\<close>

definition pair_call :: "'s pair_ops \<Rightarrow> 's \<Rightarrow> 's \<Rightarrow> bool" where
  "pair_call ops s s' \<longleftrightarrow>
     (\<exists>n r. remote_Read ops n s = (Ok r, s')) \<or> (\<exists>n r. local_Read ops n s = (Ok r, s')) \<or>
     (\<exists>b r. remote_Write ops b s = (Ok r, s')) \<or> (\<exists>b r. local_Write ops b s = (Ok r, s')) \<or>
     remote_Close ops s = (Ok (), s') \<or> local_Close ops s = (Ok (), s')"

definition others :: "(nat \<Rightarrow> 's pair_ops) \<Rightarrow> ('s \<Rightarrow> 's \<Rightarrow> bool) \<Rightarrow> nat \<Rightarrow> 's \<Rightarrow> 's \<Rightarrow> bool" where
  "others ops env k s s' \<longleftrightarrow> env s s' \<or> (\<exists>j. j \<noteq> k \<and> pair_call (ops j) s s')"

lemma bpump_step_call:
  assumes "bpump_step pick rd wr c1 c2 p (s, h) = (Ok p', s', h')"
  shows "s' = s \<or> (\<exists>n r. rd n s = (Ok r, s')) \<or> (\<exists>b r. wr b s = (Ok r, s')) \<or> c1 s = (Ok (), s') \<or> c2 s = (Ok (), s')"
proof (cases "bp_pc p")
  case BRead
  show ?thesis using assms BRead by (cases rule: bpump_step_Read) blast+
qed (use assms in \<open>auto simp: bpump_simps split: prod.splits\<close>)

lemma bdir_call: "bdir d pick ops p (s, h) = (Ok p', s', h') \<Longrightarrow> s' = s \<or> pair_call ops s s'"
  unfolding bdir_step pair_call_def by (drule bpump_step_call) (auto split: if_splits)

lemma bdir_frame:
  assumes "psys_ok x" "py_pairs x k = Some r" "bdir d pick ops (part d r) (py_s x, py_copy x) = (Ok p', s', h')"
    "py_pairs x j = Some q" "(j, d') \<noteq> (k, d)"
  shows "abs_pump h' (part d' q) = abs_pump (py_copy x) (part d' q)"
proof -
  note st = bpump_step_bufs [OF assms(1) [unfolded psys_ok_def] procs_Some [of "py_pairs x", OF assms(2)] assms(3) [unfolded bdir_step]]
  show ?thesis
    by (rule abs_pump_frame, rule st [THEN conjunct2, rule_format, OF assms(5) procs_Some [of "py_pairs x", OF assms(4)]])
qed

text \<open>A goroutine of the pair moves: the pair does the same step with the bytes, or stays.\<close>

lemma own_part_sim:
  assumes psys: "psys_ok x" and k: "py_pairs x k = Some r" and rd: "reader (remote_Read c)" "reader (local_Read c)"
    and st: "bdir d pick c (part d r) (py_s x, py_copy x) = (Ok p', s', h')"
    and x': "x' = x\<lparr>py_s := s', py_copy := h', py_pairs := (py_pairs x)(k \<mapsto> set_part d p' r)\<rparr>"
  shows "(pair_step c E)\<^sup>=\<^sup>= (abs_pair x r) (abs_pair x' (set_part d p' r))"
proof -
  note pr = procs_Some [of "py_pairs x", OF k] and ok = psys [unfolded psys_ok_def]
  have fr: "abs_pump h' (part (\<not> d) r) = abs_pump (py_copy x) (part (\<not> d) r)" by (rule bdir_frame [OF psys k st k]) simp
  have "holding (part d r) \<Longrightarrow> length (ch_mem (py_copy x) (bp_buf (part d r))) = NetBufferSize"
    using bufs_okD(2) [OF ok pr] by (simp add: buffer_ok_def)
  from bpump_step_sim [OF st [unfolded bdir_step] _ this] rd
  have sim: "s' = py_s x \<and> abs_pump h' p' = abs_pump (py_copy x) (part d r) \<or>
      (if d then c2s c else s2c c) (abs_pump (py_copy x) (part d r)) (py_s x) = (Ok (abs_pump h' p'), s')"
    by (cases d) (simp_all add: c2s_def s2c_def)
  have e: "abs_pair x' (set_part d p' r) = (if d then (abs_pair x r)\<lparr>pr_s := s', pr_c2s := abs_pump h' p'\<rparr>
      else (abs_pair x r)\<lparr>pr_s := s', pr_s2c := abs_pump h' p'\<rparr>)"
    using fr by (cases d) (simp_all add: abs_pair_def x')
  from sim show ?thesis
  proof
    assume "s' = py_s x \<and> abs_pump h' p' = abs_pump (py_copy x) (part d r)"
    then show ?thesis unfolding e by (simp add: abs_pair_def split: if_splits)
  next
    assume "(if d then c2s c else s2c c) (abs_pump (py_copy x) (part d r)) (py_s x) = (Ok (abs_pump h' p'), s')"
    then have "if d then c2s c (pr_c2s (abs_pair x r)) (pr_s (abs_pair x r)) = (Ok (abs_pump h' p'), s')
        else s2c c (pr_s2c (abs_pair x r)) (pr_s (abs_pair x r)) = (Ok (abs_pump h' p'), s')"
      by (simp add: abs_pair_def split: if_splits)
    then show ?thesis unfolding e by (auto split: if_splits intro: pair_step.C2S pair_step.S2C)
  qed
qed

text \<open>A goroutine of another pair moves: its buffer is not one of this pair, so that only its call is seen.\<close>

lemma other_part_sim:
  assumes ok: "psys_ok x" and k: "py_pairs x k = Some r" and j: "py_pairs x j = Some q" "j \<noteq> k"
    and st: "bdir d pick (ops j) (part d q) (py_s x, py_copy x) = (Ok p', s', h')"
    and x': "x' = x\<lparr>py_s := s', py_copy := h', py_pairs := (py_pairs x)(j \<mapsto> set_part d p' q)\<rparr>"
  shows "(pair_step (ops k) (others ops env k))\<^sup>=\<^sup>= (abs_pair x r) (abs_pair x' r)"
proof -
  have "abs_pump h' (part d' r) = abs_pump (py_copy x) (part d' r)" for d'
    by (rule bdir_frame [OF ok j(1) st k]) (use j(2) in simp)
  from this [of True] this [of False] have e: "abs_pair x' r = (abs_pair x r)\<lparr>pr_s := s'\<rparr>" by (simp add: abs_pair_def x')
  have s: "pr_s (abs_pair x r) = py_s x" by (simp add: abs_pair_def)
  have "s' = py_s x \<or> others ops env k (py_s x) s'" using bdir_call [OF st] j(2) by (auto simp: others_def)
  then show ?thesis
  proof
    assume "s' = py_s x"
    then show ?thesis unfolding e by (simp add: abs_pair_def)
  next
    assume "others ops env k (py_s x) s'"
    then show ?thesis unfolding e using pair_step.Env [of "others ops env k" "abs_pair x r" s' "ops k"] s by simp
  qed
qed

lemma psys_step_sim:
  assumes ok: "psys_ok x" and k: "py_pairs x k = Some r" and rd: "reader (remote_Read (ops k))" "reader (local_Read (ops k))"
    and st: "psys_step ops env x x'"
  obtains r' where "py_pairs x' k = Some r'" "(pair_step (ops k) (others ops env k))\<^sup>=\<^sup>= (abs_pair x r) (abs_pair x' r')"
  using st
proof (cases rule: psys_step_cases)
  case (Start j)
  then have "py_pairs x' k = Some r" "abs_pair x' r = abs_pair x r" using k by (auto simp: abs_pair_def)
  then show thesis using that by simp
next
  case (Part d j q pick p' s' h')
  show thesis
  proof (cases "j = k")
    case True
    then have q: "q = r" using Part(1) k by simp
    show thesis
      by (rule that [of "set_part d p' r"]) (use own_part_sim [OF ok k rd Part(2,3) [unfolded True q]] in \<open>simp_all add: Part(3) True q\<close>)
  next
    case False
    show thesis
      by (rule that [of r]) (use other_part_sim [where ops = ops, OF ok k Part(1) False Part(2,3)] k False in \<open>simp_all add: Part(3)\<close>)
  qed
next
  case (Report j q q')
  from Report(2) obtain d v p' w where d: "report (part d q) = Some (v, p')" "q' = (set_part d p' q)\<lparr>pn_Pump := w\<rparr>"
    by (rule Pump_recv_part)
  show thesis
  proof (cases "j = k")
    case True
    then have "abs_pair x' q' = abs_pair x r"
      using report_keeps(3) [OF d(1)] Report(1,3) k by (cases d) (simp_all add: d(2) abs_pair_def)
    then show thesis using that [of q'] True by (simp add: Report(3))
  qed (use that [of r] k in \<open>auto simp: Report(3) abs_pair_def\<close>)
next
  case (Env s')
  have "abs_pair x' r = (abs_pair x r)\<lparr>pr_s := s'\<rparr>" by (simp add: Env(2) abs_pair_def)
  then show thesis
    using that [of r] pair_step.Env [of "others ops env k" "abs_pair x r" s' "ops k"] Env k by (simp add: abs_pair_def others_def)
qed

lemma psys_step_absent:
  assumes "psys_step ops env x x'" "py_pairs x k = None"
  shows "case py_pairs x' k of None \<Rightarrow> py_s x' = py_s x \<or> others ops env k (py_s x) (py_s x')
    | Some r \<Rightarrow> py_s x' = py_s x \<and> abs_pair x' r = \<lparr>pr_s = py_s x, pr_c2s = pump_start, pr_s2c = pump_start\<rparr>"
  using assms(1)
proof (cases rule: psys_step_cases)
  case (Start j)
  then show ?thesis using assms(2) by (simp add: abs_pair_def abs_pump_def pair_run_start_def bpump_start_def pump_start_def)
next
  case (Part d j r pick p' s' h')
  then have "j \<noteq> k" using assms(2) by auto
  then show ?thesis using Part bdir_call [OF Part(2)] assms(2) by (auto simp: others_def)
qed (use assms(2) in \<open>auto simp: others_def\<close>)

text \<open>What has been reached before the pair starts is the doing of others, and after that the pair runs as specified.\<close>

definition simulated :: "(nat \<Rightarrow> 's pair_ops) \<Rightarrow> ('s \<Rightarrow> 's \<Rightarrow> bool) \<Rightarrow> nat \<Rightarrow> 's \<Rightarrow> 's psys \<Rightarrow> bool" where
  "simulated ops env k s x \<longleftrightarrow> (case py_pairs x k of None \<Rightarrow> (others ops env k)\<^sup>*\<^sup>* s (py_s x)
     | Some r \<Rightarrow> \<exists>s'. (others ops env k)\<^sup>*\<^sup>* s s' \<and>
         (pair_step (ops k) (others ops env k))\<^sup>*\<^sup>* \<lparr>pr_s = s', pr_c2s = pump_start, pr_s2c = pump_start\<rparr> (abs_pair x r))"

lemma simulated_step:
  assumes "simulated ops env k s x" "psys_step ops env x x'" "psys_ok x" "reader (remote_Read (ops k))" "reader (local_Read (ops k))"
  shows "simulated ops env k s x'"
proof (cases "py_pairs x k")
  case None
  note absent = psys_step_absent [OF assms(2) None]
  have o: "(others ops env k)\<^sup>*\<^sup>* s (py_s x)" using assms(1) None by (simp add: simulated_def)
  show ?thesis
  proof (cases "py_pairs x' k")
    case None
    then show ?thesis using absent o by (auto simp: simulated_def intro: rtranclp.rtrancl_into_rtrancl)
  next
    case (Some r)
    then show ?thesis using absent o by (auto simp: simulated_def intro!: exI [of _ "py_s x"])
  qed
next
  case (Some r)
  obtain r' where r': "py_pairs x' k = Some r'" "(pair_step (ops k) (others ops env k))\<^sup>=\<^sup>= (abs_pair x r) (abs_pair x' r')"
    using assms(3) Some assms(4,5,2) by (rule psys_step_sim)
  obtain s' where s': "(others ops env k)\<^sup>*\<^sup>* s s'"
    "(pair_step (ops k) (others ops env k))\<^sup>*\<^sup>* \<lparr>pr_s = s', pr_c2s = pump_start, pr_s2c = pump_start\<rparr> (abs_pair x r)"
    using assms(1) Some by (auto simp: simulated_def)
  have "(pair_step (ops k) (others ops env k))\<^sup>*\<^sup>* \<lparr>pr_s = s', pr_c2s = pump_start, pr_s2c = pump_start\<rparr> (abs_pair x' r')"
    using r'(2) s'(2) by (auto intro: rtranclp.rtrancl_into_rtrancl)
  then show ?thesis using r'(1) s'(1) by (auto simp: simulated_def)
qed

lemma simulated_reach:
  assumes "(psys_step ops env)\<^sup>*\<^sup>* (psys_start s) x" "reader (remote_Read (ops k))" "reader (local_Read (ops k))"
  shows "simulated ops env k s x"
  using assms(1)
proof (induction rule: rtranclp_induct)
  case base
  then show ?case by (simp add: simulated_def psys_start_def)
next
  case (step x x')
  show ?case by (rule simulated_step [OF step(3,2) psys_ok_reach [OF step(1)] assms(2,3)])
qed

section \<open>Pump knows where the goroutines are\<close>

definition phase :: "bpump \<Rightarrow> nat" where
  "phase p = (case bp_pc p of BSendPackets e \<Rightarrow> 1 | BPut e \<Rightarrow> 2 | BReturned e \<Rightarrow> 2 | _ \<Rightarrow> 0)"

definition Pump_inv :: "pair_run \<Rightarrow> bool" where
  "Pump_inv r \<longleftrightarrow> (let p = pn_c2s r; q = pn_s2c r in case pn_Pump r of
       WaitDlData \<Rightarrow> phase p = 0 \<and> phase q = 0
     | WaitDlPackets v \<Rightarrow> phase p = 1 \<and> v = bp_written p \<and> phase q = 0
     | WaitUlData v n \<Rightarrow> phase p = 2 \<and> v = bp_written p \<and> n = bp_packets p \<and> phase q = 0
     | WaitUlPackets v n v' \<Rightarrow> phase p = 2 \<and> v = bp_written p \<and> n = bp_packets p \<and> phase q = 1 \<and> v' = bp_written q
     | PumpDone v n v' n' \<Rightarrow> phase p = 2 \<and> v = bp_written p \<and> n = bp_packets p \<and> phase q = 2 \<and> v' = bp_written q \<and> n' = bp_packets q)"

lemma Pump_inv_start: "Pump_inv pair_run_start"
  by (simp add: Pump_inv_def pair_run_start_def bpump_start_def phase_def)

text \<open>A goroutine by itself neither reports nor, once it has begun to report, changes its counts.\<close>

definition quiet :: "bpump \<Rightarrow> bpump \<Rightarrow> bool" where
  "quiet p p' \<longleftrightarrow> phase p' = phase p \<and> (0 < phase p \<longrightarrow> bp_written p' = bp_written p \<and> bp_packets p' = bp_packets p)"

lemma phase_after_bround [simp]: "phase (p\<lparr>bp_pc := after_bround e\<rparr>) = 0"
  by (simp add: phase_def after_bround_def split: option.split)

lemma bpump_step_quiet:
  assumes "bpump_step pick rd wr c1 c2 p (s, h) = (Ok p', s', h')"
  shows "quiet p p'"
proof (cases "bp_pc p")
  case BRead
  then have "phase p = 0" "\<And>n er. phase (p\<lparr>bp_pc := BWrite n er\<rparr>) = 0" by (simp_all add: phase_def)
  with assms BRead show ?thesis by (cases rule: bpump_step_Read) (simp_all add: quiet_def)
next
  case (BWrite nr er)
  then have "phase p = 0" by (simp add: phase_def)
  moreover obtain r where "p' = (case r of None \<Rightarrow> p | Some (nw, ew) \<Rightarrow>
      (if 0 < nw then p\<lparr>bp_packets := bp_packets p + 1, bp_written := bp_written p + int nw\<rparr> else p)
        \<lparr>bp_pc := after_bround (if ew \<noteq> None then ew else er)\<rparr>)"
    using assms BWrite by (rule bpump_step_Write)
  ultimately show ?thesis by (simp add: quiet_def split: option.split prod.split)
qed (use assms in \<open>auto simp: bpump_simps quiet_def phase_def split: prod.splits\<close>)

lemma Pump_inv_quiet:
  assumes "Pump_inv r" "quiet (part d r) p'"
  shows "Pump_inv (set_part d p' r)"
  using assms by (cases d; cases "pn_Pump r") (simp_all add: Pump_inv_def quiet_def Let_def)

lemma report_phase:
  "report p = Some (v, p') \<Longrightarrow> bp_written p' = bp_written p \<and> bp_packets p' = bp_packets p \<and>
     (phase p = 0 \<and> v = bp_written p \<and> phase p' = 1 \<or> phase p = 1 \<and> v = bp_packets p \<and> phase p' = 2)"
  by (auto simp: report_def phase_def split: bpc.splits)

lemma Pump_inv_recv:
  assumes "Pump_inv r" "Pump_recv r = Some r'"
  shows "Pump_inv r'"
proof (cases "pn_Pump r")
  case (PumpDone v n v' n')
  then show ?thesis using assms(2) by (simp add: Pump_recv_def)
qed (use assms in \<open>auto simp: Pump_inv_def Pump_recv_def Let_def dest!: report_phase\<close>)

lemma Pump_inv_reach:
  assumes "(psys_step ops env)\<^sup>*\<^sup>* (psys_start s) x" "py_pairs x k = Some r"
  shows "Pump_inv r"
  using assms
proof (induction arbitrary: r rule: rtranclp_induct)
  case base
  then show ?case by (simp add: psys_start_def)
next
  case (step x x')
  from step(2) show ?case
  proof (cases rule: psys_step_cases)
    case (Start j)
    then show ?thesis using step(3,4) Pump_inv_start by (auto split: if_splits)
  next
    case (Part d j q pick p' s' h')
    have "Pump_inv (set_part d p' q)" if "j = k"
      using Pump_inv_quiet [OF step(3) bpump_step_quiet [OF Part(2) [unfolded bdir_step]]] Part(1) that by simp
    then show ?thesis using Part step(3,4) by (auto split: if_splits)
  next
    case (Report j q q')
    have "Pump_inv q'" if "j = k" using Pump_inv_recv [OF step(3) Report(2)] Report(1) that by simp
    then show ?thesis using Report step(3,4) by (auto split: if_splits)
  next
    case (Env s')
    then show ?thesis using step(3,4) by simp
  qed
qed

section \<open>No buffer is lost\<close>

definition no_leak :: "copy_heap \<Rightarrow> ('i \<Rightarrow> bpump option) \<Rightarrow> bool" where
  "no_leak h ps \<longleftrightarrow> (\<forall>a < ch_next h. a \<in> set (ch_pool h) \<or> (\<exists>i p. ps i = Some p \<and> holding p \<and> bp_buf p = a))"

lemma no_leak_keep:
  assumes "no_leak h ps" "ps i = Some p" "holding p \<Longrightarrow> holding p' \<and> bp_buf p' = bp_buf p" "ch_pool h' = ch_pool h" "ch_next h' = ch_next h"
  shows "no_leak h' (ps(i \<mapsto> p'))"
  unfolding no_leak_def
proof (intro allI impI)
  fix a assume "a < ch_next h'"
  then consider "a \<in> set (ch_pool h)" | j q where "ps j = Some q" "holding q" "bp_buf q = a"
    using assms(1,5) unfolding no_leak_def by metis
  then show "a \<in> set (ch_pool h') \<or> (\<exists>j q. (ps(i \<mapsto> p')) j = Some q \<and> holding q \<and> bp_buf q = a)"
  proof cases
    case 2
    show ?thesis
      by (rule disjI2, rule exI [of _ j], rule exI [of _ "if j = i then p' else q"]) (use 2 assms(2,3) in auto)
  qed (simp add: assms(4))
qed

lemma no_leak_Get:
  assumes "no_leak h ps" "ps i = Some p" "\<not> holding p" "copyPool_Get pick h = (a, h')"
  shows "no_leak h' (ps(i \<mapsto> p\<lparr>bp_buf := a, bp_pc := BRead\<rparr>))"
  unfolding no_leak_def
proof (intro allI impI)
  fix b assume b: "b < ch_next h'"
  let ?p = "p\<lparr>bp_buf := a, bp_pc := BRead\<rparr>"
  consider "b = a" | "b \<noteq> a" "b < ch_next h"
    using b assms(4) by (cases "b = a") (auto simp: copyPool_Get_def less_Suc_eq split: if_splits)
  then show "b \<in> set (ch_pool h') \<or> (\<exists>j q. (ps(i \<mapsto> ?p)) j = Some q \<and> holding q \<and> bp_buf q = b)"
  proof cases
    case 1
    then show ?thesis by (intro disjI2 exI [of _ i] exI [of _ ?p]) (simp add: holding_def)
  next
    case 2
    have "b \<in> set (ch_pool h')" if "b \<in> set (ch_pool h)"
      using that 2(1) assms(4) id_take_nth_drop [of pick "ch_pool h"]
      by (auto simp: copyPool_Get_def split: if_splits) (metis Un_iff set_ConsD set_append)
    moreover have "\<exists>j q. (ps(i \<mapsto> ?p)) j = Some q \<and> holding q \<and> bp_buf q = b" if "ps j = Some q" "holding q" "bp_buf q = b" for j q
      using that assms(2,3) by (intro exI [of _ j] exI [of _ q]) auto
    ultimately show ?thesis using 2(2) assms(1) unfolding no_leak_def by blast
  qed
qed

lemma no_leak_Put:
  assumes "no_leak h ps" "ps i = Some p"
  shows "no_leak (copyPool_Put (bp_buf p) h) (ps(i \<mapsto> p'))"
  unfolding no_leak_def
proof (intro allI impI)
  fix a assume "a < ch_next (copyPool_Put (bp_buf p) h)"
  then consider "a \<in> set (ch_pool h)" | j q where "ps j = Some q" "holding q" "bp_buf q = a"
    using assms(1) unfolding no_leak_def by (auto simp: copyPool_Put_def)
  then show "a \<in> set (ch_pool (copyPool_Put (bp_buf p) h)) \<or> (\<exists>j q. (ps(i \<mapsto> p')) j = Some q \<and> holding q \<and> bp_buf q = a)"
  proof cases
    case 2
    then show ?thesis using assms(2) by (cases "j = i") (auto simp: copyPool_Put_def)
  qed (simp add: copyPool_Put_def)
qed

lemma bpump_step_no_leak:
  assumes "no_leak h ps" "ps i = Some p" "bpump_step pick rd wr c1 c2 p (s, h) = (Ok p', s', h')"
  shows "no_leak h' (ps(i \<mapsto> p'))"
proof (cases "bp_pc p")
  case BGet
  then obtain a where "copyPool_Get pick h = (a, h')" "p' = p\<lparr>bp_buf := a, bp_pc := BRead\<rparr>"
    using assms(3) by (auto simp: bpump_step_def split: prod.splits)
  then show ?thesis using no_leak_Get [OF assms(1,2)] BGet by (simp add: holding_def)
next
  case BRead
  then have w: "holding (p\<lparr>bp_pc := BWrite n er\<rparr>)" for n er by (simp add: holding_def)
  show ?thesis using assms(3) BRead
    by (cases rule: bpump_step_Read) (rule no_leak_keep [OF assms(1,2)]; simp add: w)+
next
  case (BWrite nr er)
  have "h' = h" "holding p \<Longrightarrow> holding p' \<and> bp_buf p' = bp_buf p"
    by (rule bpump_step_Write [OF assms(3) BWrite]; auto split: option.split)+
  then show ?thesis using no_leak_keep [OF assms(1,2)] by simp
next
  case (BPut e)
  then have "h' = copyPool_Put (bp_buf p) h" using assms(3) by (auto simp: bpump_simps)
  then show ?thesis using no_leak_Put [OF assms(1,2)] by simp
qed (use assms(3) no_leak_keep [OF assms(1,2)] in \<open>auto simp: bpump_simps holding_def\<close>)

lemma no_leak_start: "no_leak h ps \<Longrightarrow> ps i = None \<Longrightarrow> no_leak h (ps(i \<mapsto> p))"
  unfolding no_leak_def by (metis fun_upd_other option.distinct(1))

lemma no_leak_reach: "(psys_step ops env)\<^sup>*\<^sup>* (psys_start s) x \<Longrightarrow> no_leak (py_copy x) (procs (py_pairs x))"
proof (induction rule: rtranclp_induct)
  case base
  then show ?case by (simp add: no_leak_def psys_start_def copyPool_def)
next
  case (step x x')
  from step(2) show ?case
  proof (cases rule: psys_step_cases)
    case (Start k)
    then have "procs (py_pairs x) (k, d) = None" for d by (simp add: procs_def)
    then have "no_leak (py_copy x) ((procs (py_pairs x))((k, True) \<mapsto> bpump_start, (k, False) \<mapsto> bpump_start))"
      by (intro no_leak_start step(3)) simp_all
    then show ?thesis unfolding Start(2) procs_start [of "py_pairs x", OF Start(1), symmetric] by (simp del: fun_upd_apply)
  next
    case (Part d k r pick p' s' h')
    then show ?thesis
      using bpump_step_no_leak [OF step(3) procs_Some [of "py_pairs x", OF Part(1)] Part(2) [unfolded bdir_step]] by (simp add: procs_upd del: fun_upd_apply)
  next
    case (Report k r r')
    from Report(2) obtain d v p' w where d: "report (part d r) = Some (v, p')" "r' = (set_part d p' r)\<lparr>pn_Pump := w\<rparr>"
      by (rule Pump_recv_part)
    have "holding p'" using d(1) by (auto simp: report_def holding_def split: bpc.splits)
    then show ?thesis
      using no_leak_keep [OF step(3) procs_Some [of "py_pairs x", OF Report(1)]] report_keeps [OF d(1)] Report(1)
      by (simp add: Report(3) d(2) procs_upd_Pump del: fun_upd_apply)
  qed (use step(3) in simp)
qed

section \<open>The end of a pair\<close>

text \<open>How far a goroutine is from its end.\<close>

definition rank :: "bpump \<Rightarrow> nat" where
  "rank p = (case bp_pc p of BGet \<Rightarrow> 8 | BRead \<Rightarrow> 7 | BWrite nr er \<Rightarrow> 6 | BCloseSrc e \<Rightarrow> 5 | BCloseDst e \<Rightarrow> 4 | BSendWritten e \<Rightarrow> 3
     | BSendPackets e \<Rightarrow> 2 | BPut e \<Rightarrow> 1 | BReturned e \<Rightarrow> 0)"

text \<open>Two connections on which every call returns at once, with an error and without an effect.\<close>

locale dead_pair =
  fixes ops :: "'s pair_ops" and dead :: "'s \<Rightarrow> bool"
  assumes dead_Read: "dead s \<Longrightarrow> \<exists>e. remote_Read ops n s = (Ok (Some ([], Some e)), s)"
      "dead s \<Longrightarrow> \<exists>e. local_Read ops n s = (Ok (Some ([], Some e)), s)"
    and dead_Write: "dead s \<Longrightarrow> \<exists>e. remote_Write ops b s = (Ok (Some (0, Some e)), s)"
      "dead s \<Longrightarrow> \<exists>e. local_Write ops b s = (Ok (Some (0, Some e)), s)"
    and dead_Close: "dead s \<Longrightarrow> remote_Close ops s = (Ok (), s)" "dead s \<Longrightarrow> local_Close ops s = (Ok (), s)"

lemma dead_part_moves:
  assumes "\<And>n. \<exists>e. rd n s = (Ok (Some ([], Some e)), s)" "\<And>b. \<exists>e. wr b s = (Ok (Some (0, Some e)), s)"
    "c1 s = (Ok (), s)" "c2 s = (Ok (), s)" "rank p \<notin> {0, 2, 3}"
  shows "\<exists>p' h'. bpump_step 0 rd wr c1 c2 p (s, h) = (Ok p', s, h') \<and> rank p' < rank p"
proof (cases "bp_pc p")
  case BGet
  then show ?thesis by (simp add: bpump_step_def rank_def split: prod.split)
next
  case BRead
  obtain e where "rd (length (ch_mem h (bp_buf p))) s = (Ok (Some ([], Some e)), s)" using assms(1) by blast
  then show ?thesis using BRead by (simp add: bpump_step_def monad_simps onC_def onH_def rank_def after_bround_def)
next
  case (BWrite nr er)
  obtain e where "wr (take nr (ch_mem h (bp_buf p))) s = (Ok (Some (0, Some e)), s)" using assms(2) by blast
  then show ?thesis using BWrite by (simp add: bpump_step_def monad_simps onC_def rank_def after_bround_def)
qed (use assms(3-5) in \<open>simp_all add: bpump_step_def monad_simps onC_def onH_def rank_def\<close>)

lemma rank_phase:
  "rank p = 0 \<Longrightarrow> phase p = 2" "rank p = 2 \<Longrightarrow> phase p = 1" "rank p = 3 \<Longrightarrow> phase p = 0" "rank p = 0 \<Longrightarrow> \<exists>e. bp_pc p = BReturned e"
  by (auto simp: rank_def phase_def split: bpc.splits)

lemma report_rank:
  assumes "rank p = 2 \<or> rank p = 3"
  obtains v p' where "report p = Some (v, p')" "rank p' < rank p"
  using assms by (cases "bp_pc p") (auto simp: rank_def report_def)

text \<open>When neither goroutine can do anything by itself, one of them is sending what \<open>Pump\<close> is receiving.\<close>

lemma Pump_recv_enabled:
  assumes "Pump_inv r" "rank (pn_c2s r) \<in> {0, 2, 3}" "rank (pn_s2c r) \<in> {0, 2, 3}" "0 < rank (pn_c2s r) + rank (pn_s2c r)"
  obtains r' where "Pump_recv r = Some r'" "rank (pn_c2s r') + rank (pn_s2c r') < rank (pn_c2s r) + rank (pn_s2c r)"
proof -
  note ph = rank_phase [of "pn_c2s r"] rank_phase [of "pn_s2c r"]
  have "(case pn_Pump r of WaitDlData \<Rightarrow> rank (pn_c2s r) = 3 | WaitDlPackets v \<Rightarrow> rank (pn_c2s r) = 2
    | WaitUlData v n \<Rightarrow> rank (pn_s2c r) = 3 | WaitUlPackets v n v' \<Rightarrow> rank (pn_s2c r) = 2 | PumpDone v n v' n' \<Rightarrow> False)"
    using assms ph by (auto simp: Pump_inv_def Let_def split: Pump_pc.split)
  then show thesis
    using report_rank [of "pn_c2s r"] report_rank [of "pn_s2c r"] that
    by (cases "pn_Pump r") (fastforce simp: Pump_recv_def)+
qed

context dead_pair
begin

lemma part_moves:
  assumes "dead s" "rank p \<notin> {0, 2, 3}"
  obtains p' h' where "bdir d 0 ops p (s, h) = (Ok p', s, h')" "rank p' < rank p"
proof -
  have "\<exists>p' h'. bdir d 0 ops p (s, h) = (Ok p', s, h') \<and> rank p' < rank p"
    unfolding bdir_step by (rule dead_part_moves [OF _ _ _ _ assms(2)]) (simp_all add: dead_Read dead_Write dead_Close assms(1))
  then show thesis using that by blast
qed

lemma pair_moves:
  assumes dead: "dead (py_s x)" and k: "py_pairs x k = Some r" "po k = ops" and inv: "Pump_inv r"
    and r: "0 < rank (pn_c2s r) + rank (pn_s2c r)"
  obtains x' r' where "psys_step po env x x'" "py_s x' = py_s x" "py_pairs x' = (py_pairs x)(k \<mapsto> r')" "Pump_inv r'"
    "rank (pn_c2s r') + rank (pn_s2c r') < rank (pn_c2s r) + rank (pn_s2c r)"
proof (cases "\<exists>d. rank (part d r) \<notin> {0, 2, 3}")
  case True
  then obtain d where d: "rank (part d r) \<notin> {0, 2, 3}" by blast
  obtain p' h' where st: "bdir d 0 ops (part d r) (py_s x, py_copy x) = (Ok p', py_s x, h')" "rank p' < rank (part d r)"
    using part_moves [OF dead d] by blast
  show thesis
  proof (rule that [OF psys_step_Part [where ops = po, OF k(1) st(1) [folded k(2)]]])
    show "Pump_inv (set_part d p' r)" by (rule Pump_inv_quiet [OF inv bpump_step_quiet [OF st(1) [unfolded bdir_step]]])
    show "rank (pn_c2s (set_part d p' r)) + rank (pn_s2c (set_part d p' r)) < rank (pn_c2s r) + rank (pn_s2c r)"
      using st(2) by (cases d) simp_all
  qed simp_all
next
  case False
  then have "rank (part True r) \<in> {0, 2, 3}" "rank (part False r) \<in> {0, 2, 3}" by blast+
  then have "rank (pn_c2s r) \<in> {0, 2, 3}" "rank (pn_s2c r) \<in> {0, 2, 3}" by simp_all
  from inv this r obtain r' where r': "Pump_recv r = Some r'" "rank (pn_c2s r') + rank (pn_s2c r') < rank (pn_c2s r) + rank (pn_s2c r)"
    by (rule Pump_recv_enabled)
  show thesis
    by (rule that [OF psys_step.Report [OF k(1) r'(1)] _ _ Pump_inv_recv [OF inv r'(1)] r'(2)]) simp_all
qed

lemma pair_returns:
  assumes "dead (py_s x)" "py_pairs x k = Some r" "po k = ops" "Pump_inv r"
  shows "\<exists>x' r'. (psys_step po env)\<^sup>*\<^sup>* x x' \<and> py_s x' = py_s x \<and> py_pairs x' = (py_pairs x)(k \<mapsto> r') \<and> Pump_inv r' \<and>
    rank (pn_c2s r') = 0 \<and> rank (pn_s2c r') = 0"
  using assms
proof (induction "rank (pn_c2s r) + rank (pn_s2c r)" arbitrary: x r rule: less_induct)
  case less
  show ?case
  proof (cases "rank (pn_c2s r) + rank (pn_s2c r) = 0")
    case True
    then show ?thesis using less.prems by (intro exI [of _ x] exI [of _ r]) (simp add: map_upd_triv)
  next
    case False
    then have "0 < rank (pn_c2s r) + rank (pn_s2c r)" by simp
    with less.prems obtain x1 r1 where st: "psys_step po env x x1" "py_s x1 = py_s x" "py_pairs x1 = (py_pairs x)(k \<mapsto> r1)" "Pump_inv r1"
      "rank (pn_c2s r1) + rank (pn_s2c r1) < rank (pn_c2s r) + rank (pn_s2c r)" by (rule pair_moves)
    have "py_pairs x1 k = Some r1" by (simp add: st(3))
    from less.hyps [OF st(5) _ this less.prems(3) st(4)] less.prems(1) st(2)
    obtain x' r' where "(psys_step po env)\<^sup>*\<^sup>* x1 x'" "py_s x' = py_s x" "py_pairs x' = (py_pairs x1)(k \<mapsto> r')" "Pump_inv r'"
      "rank (pn_c2s r') = 0" "rank (pn_s2c r') = 0" by auto
    then show ?thesis using st(1,3) by (intro exI [of _ x'] exI [of _ r']) (simp add: converse_rtranclp_into_rtranclp)
  qed
qed

end

section \<open>The sessions of the server\<close>

text \<open>A session of the server and its TCP connection to the backend, among all sessions: \<open>ms k\<close> is the monitor of session \<open>k\<close>,
  \<open>n k\<close> its connection to the backend.\<close>

definition onM :: "nat \<Rightarrow> ('srv world \<times> mon, 'a) M \<Rightarrow> ('srv world \<times> (nat \<Rightarrow> mon), 'a) M" where
  "onM k f = (\<lambda>(w, ms). case f (w, ms k) of (r, w', m') \<Rightarrow> (r, w', ms(k := m')))"

definition server_pair :: "'srv SCPServer_ops \<Rightarrow> (nat \<Rightarrow> nat) \<Rightarrow> nat \<Rightarrow> ('srv world \<times> (nat \<Rightarrow> mon)) pair_ops" where
  "server_pair sops n k = (let p = session_pair sops (n k) in
     \<lparr>remote_Read = (\<lambda>b. onM k (remote_Read p b)), remote_Write = (\<lambda>b. onM k (remote_Write p b)), remote_Close = onM k (remote_Close p),
      local_Read = (\<lambda>b. onM k (local_Read p b)), local_Write = (\<lambda>b. onM k (local_Write p b)), local_Close = onM k (local_Close p)\<rparr>)"

lemma server_pair_simps [simp]:
  "remote_Read (server_pair sops n k) b = onM k (remote_Read (session_pair sops (n k)) b)"
  "remote_Write (server_pair sops n k) d = onM k (remote_Write (session_pair sops (n k)) d)"
  "remote_Close (server_pair sops n k) = onM k (remote_Close (session_pair sops (n k)))"
  "local_Read (server_pair sops n k) b = onM k (local_Read (session_pair sops (n k)) b)"
  "local_Write (server_pair sops n k) d = onM k (local_Write (session_pair sops (n k)) d)"
  "local_Close (server_pair sops n k) = onM k (local_Close (session_pair sops (n k)))"
  by (simp_all add: server_pair_def Let_def)

text \<open>Both keep the contract of \<open>io.Reader\<close>.\<close>

lemma on_net_res_Ok: "on_net_res c f w = (Ok q, w') \<Longrightarrow> fst (f (w_nets w c)) = Ok q"
  by (auto simp: on_net_res_def on_net_def bindM_eq_Ok prim_simps split: prod.splits)

lemma in_Read_length:
  fixes w :: "'srv world"
  assumes "in_Read c n w = (Ok q, w')"
  shows "length q \<le> n"
proof -
  from assms obtain rd and w1 :: "'srv world" and p w2 k w3 where "on_net_res rd (nc_Read n) w1 = (Ok p, w2)" "xor_key_stream k p w2 = (Ok q, w3)"
    unfolding in_Read_def bindM_eq_Ok prim_simps prod.inject res.inject by blast
  then have "fst (nc_Read n (w_nets w1 rd)) = Ok p" "length q = length p" by (auto simp: xor_key_stream_def dest!: on_net_res_Ok)
  then show ?thesis by (auto simp: nc_Read_def split: if_splits list.splits)
qed

lemma tryM_Inr: "tryM m s = (Ok (Inr x), s') \<longleftrightarrow> m s = (Ok x, s')"
  by (auto simp: tryM_app split: prod.splits res.splits)

lemma Conn_Read_length:
  assumes "Conn_Read ops c n w = (Ok (q, e), w')"
  shows "length q \<le> n"
proof (rule ccontr)
  assume "\<not> length q \<le> n"
  then have "q \<noteq> []" "\<And>w w'. in_Read c n w \<noteq> (Ok q, w')" using in_Read_length [of c n _ q] by auto
  then show False
    using assms by (auto simp: Conn_Read_def bindM_app prim_simps tryM_app split: if_splits option.splits prod.splits res.splits)
qed

lemma session_Read_length:
  assumes a: "session_Read ops n s = (Ok (Some (q, e)), s')"
  shows "length q \<le> n"
proof -
  obtain w m where s: "s = (w, m)" by fastforce
  from a obtain p t where p: "session_round ops (JRead n) (w, m) = (Ok p, t)" "(case p of Read_ret q r \<Rightarrow> Some (q, r) | _ \<Rightarrow> None) = Some (q, e)"
    unfolding session_Read_def bindM_eq_Ok s by (auto simp: prim_simps)
  obtain w' m' where t: "t = (w', m')" by fastforce
  have q: "p = Read_ret q e" using p(2) by (cases p) simp_all
  show ?thesis using p(1) unfolding t
  proof (cases rule: session_round_cases)
    case (Runs c p1 w1)
    obtain q1 e1 where q1: "Conn_Read ops c n w = (Ok (q1, e1), w1)"
       "p1 = (case e1 of Some err \<Rightarrow> Failed (JRead n) c err q1 (length q1) | None \<Rightarrow> finish_job (JRead n) q1 (length q1))"
      using Runs(3) by (auto simp: bindM_eq_Ok prim_simps)
    have "q = q1" using q1(2) Runs(4) q by (cases e1) auto
    then show ?thesis using Conn_Read_length [OF q1(1)] by simp
  qed (use q in \<open>auto split: if_splits\<close>)
qed

lemma tcp_Read_length: "tcp_Read c n w = (Ok (Some (q, e)), w') \<Longrightarrow> length q \<le> n"
  by (auto simp: tcp_Read_def monad_simps nc_Read_def split: if_splits list.splits)

lemma server_pair_readers: "reader (remote_Read (server_pair sops n k))" "reader (local_Read (server_pair sops n k))"
  unfolding reader_def
  by (auto simp: onM_def onS_def session_pair_def split: prod.splits dest!: session_Read_length tcp_Read_length)

text \<open>The two connections of a pair once both have been closed.\<close>

definition session_dead :: "nat \<Rightarrow> 'srv world \<times> mon \<Rightarrow> bool" where
  "session_dead n = (\<lambda>(w, m). s_connClosed (m_s m) \<and> s_connErr (m_s m) \<noteq> None \<and> nc_closed (w_nets w n))"

lemma session_dead_calls:
  assumes "session_dead n s"
  shows "\<exists>e. remote_Read (session_pair sops n) k s = (Ok (Some ([], Some e)), s)"
    "\<exists>e. remote_Write (session_pair sops n) b s = (Ok (Some (0, Some e)), s)"
    "remote_Close (session_pair sops n) s = (Ok (), s)"
    "\<exists>e. local_Read (session_pair sops n) k s = (Ok (Some ([], Some e)), s)"
    "\<exists>e. local_Write (session_pair sops n) b s = (Ok (Some (0, Some e)), s)"
    "local_Close (session_pair sops n) s = (Ok (), s)"
proof -
  obtain w m e where s: "s = (w, m)" "s_connClosed (m_s m)" "s_connErr (m_s m) = Some e" "nc_closed (w_nets w n)"
    using assms by (auto simp: session_dead_def)
  show "\<exists>e. remote_Read (session_pair sops n) k s = (Ok (Some ([], Some e)), s)"
    "\<exists>e. remote_Write (session_pair sops n) b s = (Ok (Some (0, Some e)), s)"
    "remote_Close (session_pair sops n) s = (Ok (), s)"
    using s(2,3) by (simp_all add: s(1) session_pair_def session_Read_def session_Write_def session_round_def acquire_loop_def SCPConn_Close_def monad_simps)
  show "\<exists>e. local_Read (session_pair sops n) k s = (Ok (Some ([], Some e)), s)"
    "\<exists>e. local_Write (session_pair sops n) b s = (Ok (Some (0, Some e)), s)"
    "local_Close (session_pair sops n) s = (Ok (), s)"
    using s(4) by (simp_all add: s(1) session_pair_def onS_def tcp_Read_def tcp_Write_def tcp_Close_def nc_Read_def nc_Write_def nc_Close_def upd_net_def monad_simps)
qed

definition server_dead :: "(nat \<Rightarrow> nat) \<Rightarrow> nat \<Rightarrow> 'srv world \<times> (nat \<Rightarrow> mon) \<Rightarrow> bool" where
  "server_dead n k = (\<lambda>(w, ms). session_dead (n k) (w, ms k))"

interpretation sd: dead_pair "server_pair sops n k" "server_dead n k"
  for sops :: "'srv SCPServer_ops" and n :: "nat \<Rightarrow> nat" and k :: nat
proof
  fix s :: "'srv world \<times> (nat \<Rightarrow> mon)" and j :: nat and b :: "byte list"
  assume "server_dead n k s"
  then obtain w ms where s: "s = (w, ms)" "session_dead (n k) (w, ms k)" by (auto simp: server_dead_def)
  note calls = session_dead_calls [OF s(2), where sops = sops]
  show "\<exists>e. remote_Read (server_pair sops n k) j s = (Ok (Some ([], Some e)), s)" using calls(1) [of j] by (auto simp: onM_def s(1))
  show "\<exists>e. remote_Write (server_pair sops n k) b s = (Ok (Some (0, Some e)), s)" using calls(2) [of b] by (auto simp: onM_def s(1))
  show "remote_Close (server_pair sops n k) s = (Ok (), s)" using calls(3) by (auto simp: onM_def s(1))
  show "\<exists>e. local_Read (server_pair sops n k) j s = (Ok (Some ([], Some e)), s)" using calls(4) [of j] by (auto simp: onM_def s(1))
  show "\<exists>e. local_Write (server_pair sops n k) b s = (Ok (Some (0, Some e)), s)" using calls(5) [of b] by (auto simp: onM_def s(1))
  show "local_Close (server_pair sops n k) s = (Ok (), s)" using calls(6) by (auto simp: onM_def s(1))
qed

text \<open>A pair whose first goroutine has taken a buffer.\<close>

definition ex_psys :: "'s \<Rightarrow> 's psys" where
  "ex_psys s = \<lparr>py_s = s, py_copy = \<lparr>ch_mem = (\<lambda>_. [])(0 := replicate NetBufferSize 0), ch_pool = [], ch_next = 1\<rparr>,
     py_pairs = [0 \<mapsto> pair_run_start\<lparr>pn_s2c := bpump_start\<lparr>bp_pc := BRead\<rparr>\<rparr>]\<rparr>"

definition ex_started :: "'s \<Rightarrow> 's psys" where
  "ex_started s = \<lparr>py_s = s, py_copy = copyPool, py_pairs = [0 \<mapsto> pair_run_start]\<rparr>"

lemma ex_psys_steps: "psys_step ops env (psys_start s) (ex_started s)" "psys_step ops env (ex_started s) (ex_psys s)"
proof -
  show "psys_step ops env (psys_start s) (ex_started s)"
    using psys_step.Start [of "psys_start s" 0] by (simp add: psys_start_def ex_started_def)
  have "bs2c 0 (ops 0) (pn_s2c pair_run_start) (py_s (ex_started s), py_copy (ex_started s)) =
      (Ok (bpump_start\<lparr>bp_pc := BRead\<rparr>), py_s (ex_started s), py_copy (ex_psys s))"
    by (simp add: bs2c_def bpump_step_def pair_run_start_def bpump_start_def copyPool_Get_def copyPool_def ex_psys_def ex_started_def)
  from psys_step.S2C [where ops = ops, of "ex_started s" 0 pair_run_start, OF _ this] show "psys_step ops env (ex_started s) (ex_psys s)"
    by (simp add: ex_psys_def ex_started_def)
qed

lemma ex_psys_reach: "(psys_step ops env)\<^sup>*\<^sup>* (psys_start s) (ex_psys s)"
  using ex_psys_steps by (meson converse_rtranclp_into_rtranclp rtranclp.rtrancl_refl)

section \<open>Properties\<close>

text \<open>C14. The buffers of the pumps are never shared. However the goroutines of all pairs interleave, a goroutine that has a buffer of
  \<open>copyPool\<close> is the only one that has it, and the pool does not have it; the buffer has \<open>NetBufferSize\<close> bytes; and every buffer that was ever made is in the
  pool or in the hands of a goroutine.\<close>

theorem copy_buffers_private:
  assumes "(psys_step ops env)\<^sup>*\<^sup>* (psys_start s) x" "py_pairs x k = Some r" "holding (part d r)"
  shows "bp_buf (part d r) \<notin> set (ch_pool (py_copy x)) \<and> length (ch_mem (py_copy x) (bp_buf (part d r))) = NetBufferSize \<and>
    (\<forall>j q d'. py_pairs x j = Some q \<and> holding (part d' q) \<and> bp_buf (part d' q) = bp_buf (part d r) \<longrightarrow> j = k \<and> d' = d) \<and>
    (\<forall>a < ch_next (py_copy x). a \<in> set (ch_pool (py_copy x)) \<or> (\<exists>j q d'. py_pairs x j = Some q \<and> holding (part d' q) \<and> bp_buf (part d' q) = a))"
proof -
  note ok = psys_ok_reach [OF assms(1), unfolded psys_ok_def]
  note D = bufs_okD [OF ok procs_Some [of "py_pairs x", OF assms(2)] assms(3)]
  have "j = k \<and> d' = d" if "py_pairs x j = Some q" "holding (part d' q)" "bp_buf (part d' q) = bp_buf (part d r)" for j q d'
    using D(3) [OF procs_Some [of "py_pairs x", OF that(1)] that(2)] that(3) by blast
  moreover have "\<exists>j q d'. py_pairs x j = Some q \<and> holding (part d' q) \<and> bp_buf (part d' q) = a"
    if "a < ch_next (py_copy x)" "a \<notin> set (ch_pool (py_copy x))" for a
    using no_leak_reach [OF assms(1)] that unfolding no_leak_def procs_def by fastforce
  ultimately show ?thesis using D(1,2) by (auto simp: buffer_ok_def)
qed

theorem copy_buffers_private_witness:
  "bp_buf (part False (pair_run_start\<lparr>pn_s2c := bpump_start\<lparr>bp_pc := BRead\<rparr>\<rparr>)) \<notin> set (ch_pool (py_copy (ex_psys ())))"
proof -
  let ?r = "pair_run_start\<lparr>pn_s2c := bpump_start\<lparr>bp_pc := BRead\<rparr>\<rparr>"
  have "py_pairs (ex_psys ()) 0 = Some ?r" "holding (part False ?r)" by (simp_all add: ex_psys_def holding_def)
  from copy_buffers_private [OF ex_psys_reach this] show ?thesis by blast
qed

text \<open>C13. The buffers implement the bytes in flight. The goroutines of a pair, which share the store of buffers with all others,
  behave as those that carry the bytes themselves, in an environment in which the other pairs do calls of their own: whatever pair \<open>k\<close> has reached is reached by
  \<open>pair_step\<close> from two fresh pumps.\<close>

theorem copy_buffers_refine:
  assumes "(psys_step (server_pair sops n) env)\<^sup>*\<^sup>* (psys_start s) x" "py_pairs x k = Some r"
  shows "\<exists>s'. (others (server_pair sops n) env k)\<^sup>*\<^sup>* s s' \<and>
    (pair_step (server_pair sops n k) (others (server_pair sops n) env k))\<^sup>*\<^sup>* \<lparr>pr_s = s', pr_c2s = pump_start, pr_s2c = pump_start\<rparr> (abs_pair x r)"
  using simulated_reach [OF assms(1) server_pair_readers, of k] assms(2) by (simp add: simulated_def)

theorem copy_buffers_refine_witness:
  "\<exists>x r s'. py_pairs x 0 = Some r \<and> bp_pc (pn_s2c r) = BWrite 2 None \<and> take 2 (ch_mem (py_copy x) (bp_buf (pn_s2c r))) = [4, 2] \<and>
    (pair_step (server_pair ex_ops (\<lambda>_. 5) 0) (others (server_pair ex_ops (\<lambda>_. 5)) (\<lambda>_ _. False) 0))\<^sup>*\<^sup>*
      \<lparr>pr_s = s', pr_c2s = pump_start, pr_s2c = pump_start\<rparr> (abs_pair x r)"
proof -
  let ?o = "server_pair ex_ops (\<lambda>_. 5)" and ?e = "\<lambda>_ _. False"
  define s where "s = (ex_world (rc4_NewCipher [9]) [1] [7] 1 0 [[4, 2]], \<lambda>_::nat. NewSCPConn 0 30)"
  let ?r = "pair_run_start\<lparr>pn_s2c := bpump_start\<lparr>bp_pc := BRead\<rparr>\<rparr>"
  let ?m = "go_copy (replicate NetBufferSize 0) 0 [4, 2]"
  let ?h = "\<lparr>ch_mem = (\<lambda>_. [])(0 := ?m), ch_pool = [], ch_next = 1\<rparr>"
  obtain s' where st: "bs2c 0 (?o 0) (pn_s2c ?r) (py_s (ex_psys s), py_copy (ex_psys s)) = (Ok (bpump_start\<lparr>bp_pc := BWrite 2 None\<rparr>), s', ?h)"
    by (auto simp: bs2c_def bpump_step_def bpump_start_def ex_psys_def onC_def onH_def onM_def onS_def session_pair_def tcp_Read_def nc_Read_def
        s_def ex_world_def ex_net_def NetBufferSize_def monad_simps)
  have p: "py_pairs (ex_psys s) 0 = Some ?r" by (simp add: ex_psys_def)
  let ?x = "(ex_psys s)\<lparr>py_s := s', py_copy := ?h, py_pairs := (py_pairs (ex_psys s))(0 \<mapsto> ?r\<lparr>pn_s2c := bpump_start\<lparr>bp_pc := BWrite 2 None\<rparr>\<rparr>)\<rparr>"
  have reach: "(psys_step ?o ?e)\<^sup>*\<^sup>* (psys_start s) ?x"
    using ex_psys_reach [of ?o ?e s] psys_step.S2C [where ops = ?o and env = ?e, OF p st] by (rule rtranclp.rtrancl_into_rtrancl)
  have q: "py_pairs ?x 0 = Some (?r\<lparr>pn_s2c := bpump_start\<lparr>bp_pc := BWrite 2 None\<rparr>\<rparr>)" by simp
  have "take 2 ?m = [4, 2]" by (simp add: go_copy_def NetBufferSize_def)
  moreover from copy_buffers_refine [OF reach q] obtain s'' where
    "(pair_step (?o 0) (others ?o ?e 0))\<^sup>*\<^sup>* \<lparr>pr_s = s'', pr_c2s = pump_start, pr_s2c = pump_start\<rparr>
       (abs_pair ?x (?r\<lparr>pn_s2c := bpump_start\<lparr>bp_pc := BWrite 2 None\<rparr>\<rparr>))" by blast
  ultimately show ?thesis
    by (intro exI [of _ ?x] exI [of _ "?r\<lparr>pn_s2c := bpump_start\<lparr>bp_pc := BWrite 2 None\<rparr>\<rparr>"] exI [of _ s'']) (simp add: bpump_start_def)
qed



end
