(* ===== verification/Server_Pumps.thy ===== *)
theory Server_Pumps
  imports Pump_Buffers
begin

text \<open>
  The pumps of all sessions of the server at once: each of them passes the bytes on in order, whatever the others do.

  The sessions share the stores of \<open>scp/conn.go\<close> (connections, sockets, RC4 states, ring buffers) and the copy buffers. A session owns
  what its connection refers to (\<open>footprint\<close> below); \<open>apart\<close> says that different sessions own different things. A call on a connection
  changes only what its session owns (\<open>frame\<close>), so that it keeps what every other session sees (\<open>same_view\<close>). With this the
  contract \<open>duplex\<close> of one session holds in the company of the others.
\<close>

section \<open>What a connection owns\<close>

definition fp_ciphers :: "Conn \<Rightarrow> nat set" where
  "fp_ciphers cc = (case c_out cc of None \<Rightarrow> {} | Some v \<Rightarrow> {cw_cipher v}) \<union> (case c_in cc of None \<Rightarrow> {} | Some r \<Rightarrow> {cr_cipher r})"

text \<open>A connection past its handshake reads from its socket and writes to its ring buffer and its socket.\<close>

definition wired :: "Conn \<Rightarrow> bool" where
  "wired cc \<longleftrightarrow> c_handshaked cc \<and> (\<exists>b v r. c_reuseBuffer cc = Some b \<and> c_out cc = Some v \<and> cw_wr v = Some (b, c_conn cc) \<and>
     c_in cc = Some r \<and> cr_rd r = Some (c_conn cc))"

definition apart :: "Conn \<Rightarrow> Conn \<Rightarrow> bool" where
  "apart cc dd \<longleftrightarrow> c_conn cc \<noteq> c_conn dd \<and> fp_ciphers cc \<inter> fp_ciphers dd = {} \<and> c_reuseBuffer cc \<noteq> c_reuseBuffer dd"

definition frame :: "nat \<Rightarrow> 'srv world \<Rightarrow> 'srv world \<Rightarrow> bool" where
  "frame c w w' \<longleftrightarrow> (\<forall>d. d \<noteq> c \<longrightarrow> w_conns w' d = w_conns w d) \<and> (\<forall>m. m \<noteq> c_conn (w_conns w c) \<longrightarrow> w_nets w' m = w_nets w m) \<and>
     (\<forall>a. a \<notin> fp_ciphers (w_conns w c) \<longrightarrow> w_ciphers w' a = w_ciphers w a) \<and>
     (\<forall>b. c_reuseBuffer (w_conns w c) \<noteq> Some b \<longrightarrow> w_bufs w' b = w_bufs w b)"

definition same_fp :: "Conn \<Rightarrow> Conn \<Rightarrow> bool" where
  "same_fp cc dd \<longleftrightarrow> c_conn dd = c_conn cc \<and> fp_ciphers dd = fp_ciphers cc \<and> c_reuseBuffer dd = c_reuseBuffer cc \<and> wired dd"

definition same_view :: "nat \<Rightarrow> 'srv world \<Rightarrow> 'srv world \<Rightarrow> bool" where
  "same_view d w w' \<longleftrightarrow> w_conns w' d = w_conns w d \<and> w_nets w' (c_conn (w_conns w d)) = w_nets w (c_conn (w_conns w d)) \<and>
     (\<forall>a \<in> fp_ciphers (w_conns w d). w_ciphers w' a = w_ciphers w a) \<and>
     (\<forall>b. c_reuseBuffer (w_conns w d) = Some b \<longrightarrow> w_bufs w' b = w_bufs w b)"

lemma frame_view: "frame c w w' \<Longrightarrow> d \<noteq> c \<Longrightarrow> apart (w_conns w c) (w_conns w d) \<Longrightarrow> same_view d w w'"
  by (auto simp: frame_def same_view_def apart_def)

lemma frame_refl: "frame c w w"
  by (simp add: frame_def)

lemma frame_trans: "frame c w w1 \<Longrightarrow> same_fp (w_conns w c) (w_conns w1 c) \<Longrightarrow> frame c w1 w2 \<Longrightarrow> frame c w w2"
  by (simp add: frame_def same_fp_def)

lemma same_fp_refl: "wired cc \<Longrightarrow> same_fp cc cc"
  by (simp add: same_fp_def)

lemma same_fp_trans: "same_fp cc dd \<Longrightarrow> same_fp dd ee \<Longrightarrow> same_fp cc ee"
  by (simp add: same_fp_def)

lemma conn_rel_view:
  assumes "same_view c w w'" "conn_rel k0 inp n w c ci co"
  shows "conn_rel k0 inp n w' c ci co"
proof -
  obtain k where k: "streams w c k0 co inp k" using assms(2) by (auto simp: conn_rel_def)
  have c: "w_conns w' c = w_conns w c" "net_of w' c = net_of w c" using assms(1) by (auto simp: same_view_def net_of_def)
  obtain v r b where f: "c_out (w_conns w c) = Some v" "c_in (w_conns w c) = Some r" "c_reuseBuffer (w_conns w c) = Some b"
    using k by (auto simp: streams_def sends_def receives_def)
  have "w_ciphers w' (cw_cipher v) = w_ciphers w (cw_cipher v)" "w_ciphers w' (cr_cipher r) = w_ciphers w (cr_cipher r)" "w_bufs w' b = w_bufs w b"
    using assms(1) f by (auto simp: same_view_def fp_ciphers_def)
  then have "streams w' c k0 co inp j = streams w c k0 co inp j" for j
    using f c(1) by (simp add: streams_def sends_def receives_def out_cipher_def in_cipher_def)
  then show ?thesis using assms(2) c by (simp add: conn_rel_def)
qed

section \<open>What the methods of a connection change\<close>

lemma Handshake_frame:
  assumes "wired (w_conns w c)" "Handshake ops c w = (r, w')"
  shows "frame c w w' \<and> w_conns w' = w_conns w"
proof -
  have "c_handshaked (w_conns w c)" using assms(1) by (simp add: wired_def)
  then obtain d where "Handshake ops c w = (Ok (c_connErr (w_conns w c)), upd_net (c_conn (w_conns w c)) (\<lambda>y. y\<lparr>nc_deadline := d\<rparr>) w)"
    by (rule Handshake_done)
  then show ?thesis using assms(2) by (auto simp: frame_def upd_net_def)
qed

lemma in_Read_frame:
  assumes "wired (w_conns w c)" "in_Read c n w = (r, w')"
  shows "frame c w w' \<and> same_fp (w_conns w c) (w_conns w' c)"
proof -
  obtain b v rd where f: "c_handshaked (w_conns w c)" "c_reuseBuffer (w_conns w c) = Some b" "c_out (w_conns w c) = Some v"
    "cw_wr v = Some (b, c_conn (w_conns w c))" "c_in (w_conns w c) = Some rd" "cr_rd rd = Some (c_conn (w_conns w c))"
    using assms(1) by (auto simp: wired_def)
  obtain x nt where x: "nc_Read n (w_nets w (c_conn (w_conns w c))) = (x, nt)" by fastforce
  show ?thesis
    using assms(2) f x by (cases x) (auto simp: in_Read_def monad_simps deref_def conn_of_def upd_conn_def xor_key_stream_def upd_net_def
        frame_def same_fp_def wired_def fp_ciphers_def)
qed

lemma out_Write_frame:
  assumes "wired (w_conns w c)" "out_Write c p w = (r, w')"
  shows "frame c w w' \<and> same_fp (w_conns w c) (w_conns w' c)"
proof -
  obtain b v rd where f: "c_handshaked (w_conns w c)" "c_reuseBuffer (w_conns w c) = Some b" "c_out (w_conns w c) = Some v"
    "cw_wr v = Some (b, c_conn (w_conns w c))" "c_in (w_conns w c) = Some rd" "cr_rd rd = Some (c_conn (w_conns w c))"
    using assms(1) by (auto simp: wired_def)
  show ?thesis
    using assms(2) f by (auto simp: out_Write_def multi_Write_def Let_def monad_simps deref_def conn_of_def upd_conn_def xor_key_stream_def
        upd_net_def frame_def same_fp_def wired_def fp_ciphers_def)
qed

lemma Freeze_frame:
  assumes "wired (w_conns w c)" "Freeze c w = (r, w')"
  shows "frame c w w' \<and> same_fp (w_conns w c) (w_conns w' c)"
  by (rule freeze_run [of c w]) (use assms in \<open>auto simp: Freeze_def frame_def same_fp_def wired_def fp_ciphers_def\<close>)

lemma Conn_Close_frame:
  assumes "wired (w_conns w c)" "Conn_Close c w = (r, w')"
  shows "frame c w w'"
proof (rule freeze_run [of c w])
  fix e nt
  assume "freeze c w = (Ok (), w\<lparr>w_conns := (w_conns w)(c := (w_conns w c)\<lparr>c_frozen := True, c_connErr := e\<rparr>),
       w_nets := (w_nets w)(c_conn (w_conns w c) := nt)\<rparr>)"
  then show ?thesis using assms
    by (auto simp: Conn_Close_def monad_simps pool_put_def frame_def wired_def)
qed

lemma after_Handshake_frame:
  assumes "wired (w_conns w c)" "bindM (Handshake ops c) k w = (Ok r, w')"
    and k: "\<And>err w1 r w'. w_conns w1 = w_conns w \<Longrightarrow> k err w1 = (Ok r, w') \<Longrightarrow> frame c w1 w' \<and> same_fp (w_conns w1 c) (w_conns w' c)"
  shows "frame c w w' \<and> same_fp (w_conns w c) (w_conns w' c)"
proof -
  obtain err w1 where h: "Handshake ops c w = (Ok err, w1)" "k err w1 = (Ok r, w')" using assms(2) by (auto simp: bindM_eq_Ok)
  have f: "frame c w w1" "w_conns w1 = w_conns w" using Handshake_frame [OF assms(1) h(1)] by simp_all
  then show ?thesis using k [OF f(2) h(2)] frame_trans [OF f(1)] same_fp_refl [OF assms(1)] by simp
qed

lemma Conn_Read_owned:
  assumes "wired (w_conns w c)" "Conn_Read ops c n w = (Ok r, w')"
  shows "frame c w w' \<and> same_fp (w_conns w c) (w_conns w' c)"
proof (rule after_Handshake_frame [OF assms(1) assms(2) [unfolded Conn_Read_def]])
  fix err w1 r w'
  assume w1: "w_conns w1 = w_conns w" and st: "(case err of Some e \<Rightarrow> retM ([], Some e) | None \<Rightarrow> if n = 0 then retM ([], None)
      else bindM (tryM (in_Read c n)) (\<lambda>r. case r of Inl e \<Rightarrow> retM ([], Some e) | Inr p \<Rightarrow> retM (p, None))) w1 = (Ok r, w')"
  have wd: "wired (w_conns w1 c)" using assms(1) w1 by simp
  then have "w' = w1 \<or> (\<exists>x. in_Read c n w1 = (x, w'))"
    using st by (auto simp: bindM_app prim_simps tryM_app split: option.splits if_splits prod.splits res.splits)
  then show "frame c w1 w' \<and> same_fp (w_conns w1 c) (w_conns w' c)"
    using in_Read_frame [OF wd] frame_refl same_fp_refl [OF wd] by auto
qed

lemma Conn_Write_owned:
  assumes "wired (w_conns w c)" "Conn_Write ops c p w = (Ok r, w')"
  shows "frame c w w' \<and> same_fp (w_conns w c) (w_conns w' c)"
proof (rule after_Handshake_frame [OF assms(1) assms(2) [unfolded Conn_Write_def]])
  fix err w1 r w'
  assume w1: "w_conns w1 = w_conns w" and st: "(case err of Some e \<Rightarrow> retM (0, Some e) | None \<Rightarrow> out_Write c p) w1 = (Ok r, w')"
  have wd: "wired (w_conns w1 c)" using assms(1) w1 by simp
  then show "frame c w1 w' \<and> same_fp (w_conns w1 c) (w_conns w' c)"
    using st out_Write_frame [OF wd] frame_refl same_fp_refl [OF wd] by (cases err) (auto simp: prim_simps)
qed

lemma use_conn_frame:
  assumes "wired (w_conns w c)" "use_conn ops j c w = (Ok p, w')"
  shows "frame c w w' \<and> same_fp (w_conns w c) (w_conns w' c) \<and> (\<forall>j' d e q k. p = Failed j' d e q k \<longrightarrow> d = c)"
proof (cases j)
  case (JRead n)
  then obtain q e where "Conn_Read ops c n w = (Ok (q, e), w')"
      "p = (case e of Some err \<Rightarrow> Failed (JRead n) c err q (length q) | None \<Rightarrow> finish_job (JRead n) q (length q))"
    using assms(2) by (auto simp: bindM_eq_Ok prim_simps)
  then show ?thesis using Conn_Read_owned [OF assms(1)] by (cases e) auto
next
  case (JWrite b i)
  then obtain k e where "Conn_Write ops c (drop i b) w = (Ok (k, e), w')"
      "p = (case e of Some err \<Rightarrow> Failed (JWrite b i) c err [] k | None \<Rightarrow> finish_job (JWrite b i) [] k)"
    using assms(2) by (auto simp: bindM_eq_Ok prim_simps)
  then show ?thesis using Conn_Write_owned [OF assms(1)] by (cases e) (auto split: if_splits)
qed

section \<open>What a session changes\<close>

abbreviation conn_at :: "'srv world \<Rightarrow> mon \<Rightarrow> Conn" where
  "conn_at w m \<equiv> w_conns w (s_Conn (m_s m))"

text \<open>A call leaves the session with the connection it had, or closed.\<close>

definition session_frame :: "'srv world \<Rightarrow> mon \<Rightarrow> 'srv world \<Rightarrow> mon \<Rightarrow> bool" where
  "session_frame w m w' m' \<longleftrightarrow> (if s_connClosed (m_s m) then w' = w \<and> m' = m else frame (s_Conn (m_s m)) w w' \<and>
     (s_connClosed (m_s m') \<or> s_Conn (m_s m') = s_Conn (m_s m) \<and> same_fp (conn_at w m) (conn_at w' m)))"

lemma session_round_frame:
  assumes "\<not> s_connClosed (m_s m) \<Longrightarrow> wired (conn_at w m)" "session_round ops j (w, m) = (Ok p, w', m')"
  shows "session_frame w m w' m'"
  using assms(2)
proof (cases rule: session_round_cases)
  case Closed
  then show ?thesis by (simp add: session_frame_def)
next
  case Waits
  then show ?thesis using assms(1) by (simp add: session_frame_def frame_refl same_fp_refl startWait_def Let_def)
next
  case (Runs c p1 w1)
  have wd: "wired (w_conns w c)" using assms(1) Runs(1,2) by simp
  note u = use_conn_frame [OF wd Runs(3)]
  have wd1: "wired (w_conns w1 c)" using u by (simp add: same_fp_def)
  show ?thesis
  proof (cases "\<exists>j' c' e q k. p1 = Failed j' c' e q k")
    case True
    then obtain j' e q k where "p1 = Failed j' c e q k" using u by blast
    then have f: "Freeze c w1 = (Ok (), w')" "m' = setConnError c (Some e) m" using Runs(4) by auto
    have "frame c w w'" "same_fp (w_conns w c) (w_conns w' c)"
      using Freeze_frame [OF wd1 f(1)] u frame_trans same_fp_trans by blast+
    then show ?thesis using Runs(1,2) by (simp add: session_frame_def f(2))
  next
    case False
    then show ?thesis using Runs(1,2,4) u by (auto simp: session_frame_def)
  qed
qed

lemma SCPConn_Close_frame:
  assumes "\<not> s_connClosed (m_s m) \<Longrightarrow> wired (conn_at w m)" "SCPConn_Close (w, m) = (Ok r, w', m')"
  shows "session_frame w m w' m'"
proof (cases "s_connClosed (m_s m)")
  case True
  then show ?thesis using SCPConn_Close_run(1) [OF assms(2)] by (simp add: session_frame_def)
next
  case False
  then obtain x where "Conn_Close (s_Conn (m_s m)) w = (x, w')"
    using assms(2) by (auto simp: SCPConn_Close_def Let_def split: prod.splits res.splits)
  then show ?thesis using False assms(1) Conn_Close_frame SCPConn_Close_run(2) [OF assms(2) False] by (auto simp: session_frame_def)
qed

text \<open>The calls of a pair: one of its session, or one of its connection to the backend.\<close>

lemma tcp_calls:
  "tcp_Read n k w = (r, w') \<Longrightarrow> \<exists>f. w' = upd_net n f w" "tcp_Write n b w = (r', w') \<Longrightarrow> \<exists>f. w' = upd_net n f w"
  "tcp_Close n w = (r'', w') \<Longrightarrow> \<exists>f. w' = upd_net n f w"
  by (auto simp: tcp_Read_def tcp_Write_def tcp_Close_def bindM_app prim_simps on_net_eq on_net_res_eq tryM_app split: res.splits)

lemma onS_Ok: "onS f (w, m) = (r, w', m') \<longleftrightarrow> f w = (r, w') \<and> m' = m"
  by (auto simp: onS_def split: prod.splits)

lemma session_pair_calls:
  assumes "pair_call (session_pair sops n) (w, m) (w', m')" "\<not> s_connClosed (m_s m) \<Longrightarrow> wired (conn_at w m)"
  shows "session_frame w m w' m' \<or> m' = m \<and> (\<exists>f. w' = upd_net n f w)"
proof -
  have "(\<exists>j p. session_round sops j (w, m) = (Ok p, w', m')) \<or> (\<exists>r. SCPConn_Close (w, m) = (Ok r, w', m')) \<or>
      m' = m \<and> (\<exists>f. w' = upd_net n f w)"
    using assms(1) unfolding pair_call_def
    by (auto simp: session_pair_def session_Read_def session_Write_def onS_Ok bindM_eq_Ok prim_simps dest: tcp_calls)
  then show ?thesis using session_round_frame [OF assms(2)] SCPConn_Close_frame [OF assms(2)] by blast
qed

section \<open>All sessions\<close>

abbreviation open_in :: "(nat \<Rightarrow> mon) \<Rightarrow> nat \<Rightarrow> bool" where
  "open_in ms k \<equiv> \<not> s_connClosed (m_s (ms k))"

text \<open>The sessions that are open have connections past their handshakes and share nothing; \<open>n k\<close> is the socket to the backend of session \<open>k\<close>.\<close>

definition wf_sessions :: "(nat \<Rightarrow> nat) \<Rightarrow> 'srv world \<times> (nat \<Rightarrow> mon) \<Rightarrow> bool" where
  "wf_sessions n = (\<lambda>(w, ms). inj n \<and> (\<forall>k. open_in ms k \<longrightarrow> wired (conn_at w (ms k)) \<and> c_conn (conn_at w (ms k)) \<notin> range n) \<and>
     (\<forall>j k. j \<noteq> k \<longrightarrow> open_in ms j \<longrightarrow> open_in ms k \<longrightarrow> s_Conn (m_s (ms j)) \<noteq> s_Conn (m_s (ms k)) \<and> apart (conn_at w (ms j)) (conn_at w (ms k))))"

definition untouched :: "(nat \<Rightarrow> nat) \<Rightarrow> nat \<Rightarrow> 'srv world \<times> (nat \<Rightarrow> mon) \<Rightarrow> 'srv world \<times> (nat \<Rightarrow> mon) \<Rightarrow> bool" where
  "untouched n k = (\<lambda>(w, ms) (w', ms'). ms' k = ms k \<and> w_nets w' (n k) = w_nets w (n k) \<and>
     (open_in ms k \<longrightarrow> same_view (s_Conn (m_s (ms k))) w w'))"

lemma wf_sessionsD:
  assumes "wf_sessions n (w, ms)"
  shows "n j = n k \<Longrightarrow> j = k" "open_in ms k \<Longrightarrow> wired (conn_at w (ms k))" "open_in ms k \<Longrightarrow> c_conn (conn_at w (ms k)) \<noteq> n j"
    "j \<noteq> k \<Longrightarrow> open_in ms j \<Longrightarrow> open_in ms k \<Longrightarrow> s_Conn (m_s (ms j)) \<noteq> s_Conn (m_s (ms k)) \<and> apart (conn_at w (ms j)) (conn_at w (ms k))"
  using assms by (auto simp: wf_sessions_def inj_eq)

lemma wf_sessions_keep:
  assumes "wf_sessions n (w, ms)"
    and "\<And>k. open_in ms' k \<Longrightarrow> open_in ms k \<and> s_Conn (m_s (ms' k)) = s_Conn (m_s (ms k)) \<and> same_fp (conn_at w (ms k)) (conn_at w' (ms k))"
  shows "wf_sessions n (w', ms')"
  using assms(1) assms(2) unfolding wf_sessions_def apart_def by (simp add: same_fp_def)

lemma session_rel_untouched:
  assumes "untouched n k (w, ms) (w', ms')" "session_rel k0 inp (n k) (w, ms k) ci lo li co"
  shows "session_rel k0 inp (n k) (w', ms' k) ci lo li co"
  using assms conn_rel_view unfolding session_rel_def untouched_def by fastforce

text \<open>A call of a pair keeps the sessions apart and does not touch the others.\<close>

lemma server_call:
  assumes wf: "wf_sessions n (w, ms)" and call: "pair_call (session_pair sops (n j)) (w, ms j) (w', m')"
  shows "wf_sessions n (w', ms(j := m')) \<and> (\<forall>k. k \<noteq> j \<longrightarrow> untouched n k (w, ms) (w', ms(j := m')))"
  using session_pair_calls [OF call wf_sessionsD(2) [OF wf]]
proof
  assume f: "session_frame w (ms j) w' m'"
  show ?thesis
  proof (cases "open_in ms j")
    case False
    then have "w' = w" "ms(j := m') = ms" using f by (auto simp: session_frame_def)
    then show ?thesis using wf by (simp add: untouched_def same_view_def)
  next
    case True
    then have fr: "frame (s_Conn (m_s (ms j))) w w'"
      and own: "s_connClosed (m_s m') \<or> s_Conn (m_s m') = s_Conn (m_s (ms j)) \<and> same_fp (conn_at w (ms j)) (conn_at w' (ms j))"
      using f by (simp_all add: session_frame_def)
    have un: "untouched n k (w, ms) (w', ms(j := m'))" if "k \<noteq> j" for k
    proof -
      have "w_nets w' (n k) = w_nets w (n k)" using fr wf_sessionsD(3) [OF wf True, of k] by (auto simp: frame_def)
      moreover have "same_view (s_Conn (m_s (ms k))) w w'" if "open_in ms k"
        using frame_view [OF fr] wf_sessionsD(4) [OF wf not_sym [OF \<open>k \<noteq> j\<close>] True that] by auto
      ultimately show ?thesis using that by (simp add: untouched_def)
    qed
    have "wf_sessions n (w', ms(j := m'))"
    proof (rule wf_sessions_keep [OF wf])
      fix k assume k: "open_in (ms(j := m')) k"
      show "open_in ms k \<and> s_Conn (m_s ((ms(j := m')) k)) = s_Conn (m_s (ms k)) \<and> same_fp (conn_at w (ms k)) (conn_at w' (ms k))"
      proof (cases "k = j")
        case True
        then show ?thesis using k own \<open>open_in ms j\<close> by simp
      next
        case False
        then show ?thesis using k un [OF False] wf_sessionsD(2) [OF wf, of k] by (simp add: untouched_def same_view_def same_fp_refl)
      qed
    qed
    with un show ?thesis by blast
  qed
next
  assume "m' = ms j \<and> (\<exists>f. w' = upd_net (n j) f w)"
  then obtain f where f: "w' = upd_net (n j) f w" "ms(j := m') = ms" by auto
  have "wf_sessions n (w', ms)" by (rule wf_sessions_keep [OF wf]) (use wf_sessionsD(2) [OF wf] in \<open>simp add: f(1) same_fp_refl\<close>)
  moreover have "untouched n k (w, ms) (w', ms)" if "k \<noteq> j" for k
    using that wf_sessionsD(1) [OF wf, of j k] wf_sessionsD(3) [OF wf, of k j] by (auto simp: untouched_def f(1) same_view_def upd_net_def)
  ultimately show ?thesis using f(2) by simp
qed

section \<open>The contract of one session among the others\<close>

text \<open>What may happen from outside: session \<open>k\<close> is closed or resumed, or something that does not touch it; the sessions stay apart.\<close>

definition server_env :: "rc4 \<Rightarrow> byte list \<Rightarrow> (nat \<Rightarrow> nat) \<Rightarrow> nat \<Rightarrow> 'srv world \<times> (nat \<Rightarrow> mon) \<Rightarrow> 'srv world \<times> (nat \<Rightarrow> mon) \<Rightarrow> bool" where
  "server_env k0 inp n k s s' \<longleftrightarrow> wf_sessions n s' \<and>
     (session_env k0 inp (n k) (fst s, snd s k) (fst s', snd s' k) \<or> untouched n k s s')"

definition server_rel :: "rc4 \<Rightarrow> byte list \<Rightarrow> (nat \<Rightarrow> nat) \<Rightarrow> nat \<Rightarrow> 'srv world \<times> (nat \<Rightarrow> mon) \<Rightarrow> byte list \<Rightarrow> byte list \<Rightarrow> byte list \<Rightarrow> byte list \<Rightarrow> bool" where
  "server_rel k0 inp n k s ci lo li co \<longleftrightarrow> wf_sessions n s \<and> session_rel k0 inp (n k) (fst s, snd s k) ci lo li co"

lemma onM_Ok: "onM k f (w, ms) = (r, s') \<longleftrightarrow> (\<exists>w' m'. f (w, ms k) = (r, w', m') \<and> s' = (w', ms(k := m')))"
  by (auto simp: onM_def split: prod.splits)

lemma pair_call_server:
  assumes "pair_call (server_pair sops n j) (w, ms) s'"
  shows "\<exists>w' m'. s' = (w', ms(j := m')) \<and> pair_call (session_pair sops (n j)) (w, ms j) (w', m')"
  using assms unfolding pair_call_def server_pair_simps onM_Ok by blast

lemma server_own_call:
  assumes "server_rel k0 inp n k (w, ms) ci lo li co" "onM k f (w, ms) = (Ok r, s')"
    and "\<And>w' m'. f (w, ms k) = (Ok r, w', m') \<Longrightarrow> pair_call (session_pair sops (n k)) (w, ms k) (w', m')"
  obtains w' m' where "f (w, ms k) = (Ok r, w', m')"
    "\<And>ci lo li co. server_rel k0 inp n k s' ci lo li co \<longleftrightarrow> session_rel k0 inp (n k) (w', m') ci lo li co"
proof -
  obtain w' m' where c: "f (w, ms k) = (Ok r, w', m')" "s' = (w', ms(k := m'))" using assms(2) by (auto simp: onM_Ok)
  have "wf_sessions n s'" using server_call [where n = n and ms = ms and j = k, OF _ assms(3) [OF c(1)]] assms(1) by (simp add: server_rel_def c(2))
  then show thesis using that [OF c(1)] by (simp add: server_rel_def c(2))
qed

interpretation sv: duplex "server_pair sops n k" "others (server_pair sops n) (server_env k0 inp n k) k" "server_rel k0 inp n k"
  for sops :: "'srv SCPServer_ops" and n :: "nat \<Rightarrow> nat" and k :: nat and k0 :: rc4 and inp :: "byte list"
proof
  fix s s' :: "'srv world \<times> (nat \<Rightarrow> mon)" and ci lo li co b m u r r'
  assume rel: "server_rel k0 inp n k s ci lo li co"
  obtain w ms where s: "s = (w, ms)" by fastforce
  have sr: "session_rel k0 inp (n k) (w, ms k) ci lo li co" "wf_sessions n (w, ms)" using rel by (simp_all add: server_rel_def s)
  note own = server_own_call [OF rel [unfolded s], where sops = sops]
  show "case r of None \<Rightarrow> server_rel k0 inp n k s' ci lo li co
      | Some (q, e) \<Rightarrow> \<exists>rest. ci = q @ rest \<and> length q \<le> m \<and> server_rel k0 inp n k s' rest lo li co"
    if st: "remote_Read (server_pair sops n k) m s = (Ok r, s')"
    by (rule own [OF st [unfolded s server_pair_simps]], unfold pair_call_def, blast) (simp only:, rule sp.remote_Read [OF sr(1)])
  show "case r of None \<Rightarrow> server_rel k0 inp n k s' ci lo li co
      | Some (q, e) \<Rightarrow> \<exists>rest. li = q @ rest \<and> length q \<le> m \<and> server_rel k0 inp n k s' ci lo rest co"
    if st: "local_Read (server_pair sops n k) m s = (Ok r, s')"
    by (rule own [OF st [unfolded s server_pair_simps]], unfold pair_call_def, blast) (simp only:, rule sp.local_Read [OF sr(1)])
  show "case r' of None \<Rightarrow> server_rel k0 inp n k s' ci lo li co
      | Some (j, e) \<Rightarrow> j \<le> length b \<and> server_rel k0 inp n k s' ci (lo @ take j b) li co \<and> (e = None \<longrightarrow> j = length b)"
    if st: "local_Write (server_pair sops n k) b s = (Ok r', s')"
    by (rule own [OF st [unfolded s server_pair_simps]], unfold pair_call_def, blast) (simp only:, rule sp.local_Write [OF sr(1)])
  show "case r' of None \<Rightarrow> server_rel k0 inp n k s' ci lo li co
      | Some (j, e) \<Rightarrow> j \<le> length b \<and> server_rel k0 inp n k s' ci lo li (co @ take j b) \<and> (e = None \<longrightarrow> j = length b)"
    if st: "remote_Write (server_pair sops n k) b s = (Ok r', s')"
    by (rule own [OF st [unfolded s server_pair_simps]], unfold pair_call_def, blast) (simp only:, rule sp.remote_Write [OF sr(1)])
  show "server_rel k0 inp n k s' ci lo li co" if st: "remote_Close (server_pair sops n k) s = (Ok u, s')"
    by (rule own [OF st [unfolded s server_pair_simps]], unfold pair_call_def, simp) (simp only:, rule sp.closes(1) [OF sr(1)])
  show "server_rel k0 inp n k s' ci lo li co" if st: "local_Close (server_pair sops n k) s = (Ok u, s')"
    by (rule own [OF st [unfolded s server_pair_simps]], unfold pair_call_def, simp) (simp only:, rule sp.closes(2) [OF sr(1)])
  show "server_rel k0 inp n k s' ci lo li co" if oth: "others (server_pair sops n) (server_env k0 inp n k) k s s'"
  proof (cases "server_env k0 inp n k s s'")
    case True
    obtain w' ms' where s': "s' = (w', ms')" by fastforce
    show ?thesis using True sp.env [OF sr(1)] session_rel_untouched [where n = n and k = k and ms = ms, OF _ sr(1)] by (auto simp: server_env_def server_rel_def s s')
  next
    case False
    then obtain j where "j \<noteq> k" "pair_call (server_pair sops n j) (w, ms) s'" using oth by (auto simp: others_def s)
    moreover from pair_call_server [OF this(2)] obtain w' m' where
      j: "s' = (w', ms(j := m'))" "pair_call (session_pair sops (n j)) (w, ms j) (w', m')" by blast
    ultimately show ?thesis using server_call [OF sr(2) j(2)] session_rel_untouched [where n = n and k = k and ms = ms, OF _ sr(1)] by (fastforce simp: server_rel_def)
  qed
qed

text \<open>A pair that has been started runs as specified from then on.\<close>

lemma pair_runs:
  assumes "(psys_step ops env)\<^sup>*\<^sup>* x0 x" "psys_ok x0" "py_pairs x0 k = Some r0" "reader (remote_Read (ops k))" "reader (local_Read (ops k))"
  shows "psys_ok x \<and> (\<exists>r. py_pairs x k = Some r \<and> (pair_step (ops k) (others ops env k))\<^sup>*\<^sup>* (abs_pair x0 r0) (abs_pair x r))"
  using assms(1)
proof (induction rule: rtranclp_induct)
  case base
  then show ?case using assms(2,3) by blast
next
  case (step x x')
  then obtain r where r: "psys_ok x" "py_pairs x k = Some r" "(pair_step (ops k) (others ops env k))\<^sup>*\<^sup>* (abs_pair x0 r0) (abs_pair x r)" by blast
  obtain r' where r': "py_pairs x' k = Some r'" "(pair_step (ops k) (others ops env k))\<^sup>=\<^sup>= (abs_pair x r) (abs_pair x' r')"
    by (rule psys_step_sim [OF r(1,2) assms(4,5) step(2)])
  have "(pair_step (ops k) (others ops env k))\<^sup>*\<^sup>* (abs_pair x0 r0) (abs_pair x' r')"
    using r(3) r'(2) by (auto intro: rtranclp.rtrancl_into_rtrancl)
  then show ?case using psys_ok_step [OF r(1) step(2)] r'(1) by blast
qed

lemma abs_pair_start: "abs_pair x pair_run_start = \<lparr>pr_s = py_s x, pr_c2s = pump_start, pr_s2c = pump_start\<rparr>"
  by (simp add: abs_pair_def abs_pump_def pair_run_start_def bpump_start_def pump_start_def)

lemma server_rel_open:
  "open_in ms k \<Longrightarrow> server_rel k0 inp n k (w, ms) ci lo li co \<longleftrightarrow> wf_sessions n (w, ms) \<and>
     lo = nc_tx (w_nets w (n k)) \<and> li = concat (nc_rx (w_nets w (n k))) \<and> conn_rel k0 inp (n k) w (s_Conn (m_s (ms k))) ci co"
  by (simp add: server_rel_def session_rel_open)

section \<open>Properties\<close>


text \<open>Two sessions in one world.\<close>

definition ex_two :: "unit world \<Rightarrow> unit world" where
  "ex_two w = w\<lparr>w_conns := (w_conns w)(1 := (w_conns w 0)\<lparr>c_conn := 1, c_in := Some \<lparr>cr_rd = Some 1, cr_cipher = 3, cr_count = 1\<rparr>,
     c_out := Some \<lparr>cw_wr = Some (1, 1), cw_cipher = 2, cw_count = 1\<rparr>, c_reuseBuffer := Some 1\<rparr>)\<rparr>"

definition ex_mons :: "nat \<Rightarrow> mon" where
  "ex_mons k = (if k < 2 then NewSCPConn k 30
     else (NewSCPConn k 30)\<lparr>m_s := (m_s (NewSCPConn k 30))\<lparr>s_connClosed := True, s_connErr := Some ErrConnClosed\<rparr>\<rparr>)"

lemma ex_mons_simps: "open_in ex_mons k \<longleftrightarrow> k < 2" "s_Conn (m_s (ex_mons k)) = k"
  by (simp_all add: ex_mons_def NewSCPConn_def)

lemma ex_two_wf: "wf_sessions (\<lambda>k. k + 5) (ex_two (ex_world k0 out inp n hs rx), ex_mons)"
  unfolding wf_sessions_def
  by (auto simp: ex_mons_simps less_2_cases_iff wired_def apart_def fp_ciphers_def ex_two_def ex_world_def zeroConn_def inj_def)


end
