(* ===== verification/Id_Allocator.thy ===== *)
theory Id_Allocator
  imports Goscon_Prelude
begin

text \<open>
  \<open>scp/idallocator.go\<close>: connection ids, handed out from a counter and a stack of released ids.

  The abstraction is the set of ids in use, \<open>outstanding\<close>. The interface \<open>id_source\<close> states what
  the server relies on (a new id is not in use, releasing an id in use succeeds and frees exactly
  that id); its lemmas follow a whole history of calls, as a list of the ids held.
\<close>

section \<open>Definitions\<close>

record IDAllocator =
  ida_start :: int
  ida_off :: int
  ida_free :: "int list"

definition AcquireID :: "IDAllocator \<Rightarrow> int \<times> IDAllocator" where
  "AcquireID a =
     (if 0 < length (ida_free a) then
        (let index = length (ida_free a) - 1
         in (ida_free a ! index, a\<lparr>ida_free := take index (ida_free a)\<rparr>))
      else (ida_off a, a\<lparr>ida_off := ida_off a + 1\<rparr>))"

text \<open>The reallocation of the slice when it is full does not change its elements.\<close>

definition ReleaseID :: "IDAllocator \<Rightarrow> int \<Rightarrow> IDAllocator res" where
  "ReleaseID a i =
     (if ida_off a < i then Panic ''id > o.off''
      else let a1 = a\<lparr>ida_free := ida_free a @ [i]\<rparr>
        in if int (length (ida_free a1)) = ida_off a1 - ida_start a1
           then Ok (a1\<lparr>ida_off := ida_start a1, ida_free := []\<rparr>) else Ok a1)"

definition NewIDAllocator :: "int \<Rightarrow> IDAllocator res" where
  "NewIDAllocator start =
     (if start < 0 then Panic ''start < 0''
      else Ok \<lparr>ida_start = start, ida_off = start, ida_free = []\<rparr>)"

section \<open>Abstraction and invariant\<close>

definition outstanding :: "IDAllocator \<Rightarrow> int set" where
  "outstanding a = {ida_start a..<ida_off a} - set (ida_free a)"

text \<open>The released ids are distinct ids that were handed out, and they are dropped as soon as
  nothing is in use.\<close>

definition wf_ida :: "IDAllocator \<Rightarrow> bool" where
  "wf_ida a \<longleftrightarrow> 0 \<le> ida_start a \<and> ida_start a \<le> ida_off a \<and> distinct (ida_free a) \<and>
     set (ida_free a) \<subseteq> {ida_start a..<ida_off a} \<and>
     (int (length (ida_free a)) = ida_off a - ida_start a \<longrightarrow> ida_free a = [])"

lemma NewIDAllocator_Ok:
  "NewIDAllocator s = Ok a \<longleftrightarrow> 0 \<le> s \<and> a = \<lparr>ida_start = s, ida_off = s, ida_free = []\<rparr>"
  by (auto simp: NewIDAllocator_def)

lemma finite_outstanding [simp]: "finite (outstanding a)"
  by (simp add: outstanding_def)

lemma card_outstanding:
  assumes "wf_ida a"
  shows "int (card (outstanding a)) + int (length (ida_free a)) = ida_off a - ida_start a"
proof -
  have sub: "set (ida_free a) \<subseteq> {ida_start a..<ida_off a}" and d: "distinct (ida_free a)"
    using assms by (auto simp: wf_ida_def)
  have "card (set (ida_free a)) \<le> card {ida_start a..<ida_off a}" using sub by (intro card_mono) auto
  moreover have "card (outstanding a) = card {ida_start a..<ida_off a} - card (set (ida_free a))"
    using sub by (simp add: outstanding_def card_Diff_subset)
  moreover have "card (set (ida_free a)) = length (ida_free a)" using d by (rule distinct_card)
  ultimately show ?thesis using assms by (simp add: wf_ida_def of_nat_diff)
qed

lemma AcquireID_pop:
  assumes "ida_free a = xs @ [x]"
  shows "AcquireID a = (x, a\<lparr>ida_free := xs\<rparr>)"
  using assms by (simp add: AcquireID_def nth_append)

lemma AcquireID_step:
  assumes "wf_ida a" "AcquireID a = (i, a')"
  shows "wf_ida a' \<and> i \<notin> outstanding a \<and> outstanding a' = insert i (outstanding a) \<and>
         ida_start a' = ida_start a \<and> ida_start a \<le> i \<and>
         ida_off a' = max (ida_off a) (i + 1) \<and>
         (ida_free a = [] \<longrightarrow> i = ida_start a + int (card (outstanding a)))"
proof (cases "ida_free a" rule: rev_cases)
  case Nil
  then show ?thesis
    using assms card_outstanding [OF assms(1)]
    by (auto simp: AcquireID_def wf_ida_def outstanding_def split: if_splits)
next
  case (snoc xs x)
  with AcquireID_pop [OF snoc] assms(2) have a': "i = x" "a' = a\<lparr>ida_free := xs\<rparr>" by auto
  have "ida_start a \<le> x" "x < ida_off a" "x \<notin> set xs" "distinct xs" "set xs \<subseteq> {ida_start a..<ida_off a}"
    "int (length xs) < ida_off a - ida_start a"
    using assms(1) snoc card_outstanding [OF assms(1)] by (auto simp: wf_ida_def)
  with snoc a' assms(1) show ?thesis by (auto simp: wf_ida_def outstanding_def)
qed

lemma ReleaseID_step:
  assumes "wf_ida a" "i \<in> outstanding a"
  shows "\<exists>a'. ReleaseID a i = Ok a' \<and> wf_ida a' \<and> outstanding a' = outstanding a - {i} \<and>
         ida_start a' = ida_start a \<and> ida_off a' \<le> ida_off a \<and>
         (outstanding a = {i} \<longrightarrow> a' = \<lparr>ida_start = ida_start a, ida_off = ida_start a, ida_free = []\<rparr>)"
proof -
  let ?a1 = "a\<lparr>ida_free := ida_free a @ [i]\<rparr>"
  have i: "ida_start a \<le> i" "i < ida_off a" "i \<notin> set (ida_free a)"
    using assms by (auto simp: outstanding_def)
  have out: "outstanding ?a1 = outstanding a - {i}" by (auto simp: outstanding_def)
  have card: "card (outstanding a) = Suc (card (outstanding a - {i}))"
    by (rule card_Suc_Diff1 [OF finite_outstanding assms(2), symmetric])
  show ?thesis
  proof (cases "int (length (ida_free ?a1)) = ida_off a - ida_start a")
    case True
    then have "int (length (ida_free a)) + 1 = ida_off a - ida_start a" by simp
    then have "card (outstanding a - {i}) = 0"
      using card card_outstanding [OF assms(1)] by linarith
    then have "outstanding a - {i} = {}" by (simp add: card_eq_0_iff)
    with True assms i show ?thesis
      by (auto simp: ReleaseID_def Let_def wf_ida_def outstanding_def)
  next
    case False
    then have "ReleaseID a i = Ok ?a1" using i by (simp add: ReleaseID_def Let_def)
    moreover have "wf_ida ?a1" using assms(1) i False by (auto simp: wf_ida_def)
    moreover have "outstanding a \<noteq> {i}"
      using False card_outstanding [OF assms(1)] by auto
    ultimately show ?thesis using out by auto
  qed
qed

section \<open>Histories of calls\<close>

text \<open>A client acquires ids and releases the ones it holds (the \<open>k\<close>-th of its list, so that a
  client never releases what it does not hold). The history records the ids held, the most
  recent first, and the largest number held at once. A panic ends the history.\<close>

datatype id_op = Acquire | Release nat

fun id_run :: "('s \<Rightarrow> int \<times> 's) \<Rightarrow> ('s \<Rightarrow> int \<Rightarrow> 's res) \<Rightarrow> 's \<times> int list \<times> nat \<Rightarrow> id_op list \<Rightarrow>
    ('s \<times> int list \<times> nat) option" where
  "id_run acquire release (s, held, peak) [] = Some (s, held, peak)"
| "id_run acquire release (s, held, peak) (Acquire # ops) =
     (let (i, s') = acquire s
      in id_run acquire release (s', i # held, max peak (Suc (length held))) ops)"
| "id_run acquire release (s, held, peak) (Release k # ops) =
     (if k < length held then
        (case release s (held ! k) of
           Ok s' \<Rightarrow> id_run acquire release (s', take k held @ drop (Suc k) held, peak) ops
         | _ \<Rightarrow> None)
      else id_run acquire release (s, held, peak) ops)"

locale id_source =
  fixes acquire :: "'s \<Rightarrow> int \<times> 's"
    and release :: "'s \<Rightarrow> int \<Rightarrow> 's res"
    and invar :: "'s \<Rightarrow> bool"
    and inuse :: "'s \<Rightarrow> int set"
    and base :: "'s \<Rightarrow> int"
    and extent :: "'s \<Rightarrow> int"
  assumes acquire_step: "invar s \<Longrightarrow> acquire s = (i, s') \<Longrightarrow>
      invar s' \<and> i \<notin> inuse s \<and> inuse s' = insert i (inuse s) \<and> base s' = base s \<and>
      extent s' \<le> max (extent s) (int (card (inuse s)) + 1)"
    and release_step: "invar s \<Longrightarrow> i \<in> inuse s \<Longrightarrow>
      \<exists>s'. release s i = Ok s' \<and> invar s' \<and> inuse s' = inuse s - {i} \<and> base s' = base s \<and>
        extent s' \<le> extent s"
    and inuse_extent: "invar s \<Longrightarrow> inuse s \<subseteq> {base s..<base s + extent s}"
begin

text \<open>No history that starts well panics; the ids held are the ids in use, without repetition,
  and they stay below the largest number held at once.\<close>

lemma run_total:
  assumes "invar s" "distinct held" "set held = inuse s" "extent s \<le> int peak" "length held \<le> peak"
  shows "\<exists>s' held' peak'. id_run acquire release (s, held, peak) ops = Some (s', held', peak') \<and>
    invar s' \<and> distinct held' \<and> set held' = inuse s' \<and> base s' = base s \<and> extent s' \<le> int peak' \<and>
    length held' \<le> peak'"
  using assms
proof (induction ops arbitrary: s held peak)
  case Nil
  then show ?case by simp
next
  case (Cons x ops)
  show ?case
  proof (cases x)
    case Acquire
    obtain i s1 where a: "acquire s = (i, s1)" by fastforce
    have "card (inuse s) = length held" using Cons.prems(2,3) by (metis distinct_card)
    with acquire_step [OF Cons.prems(1) a] Cons.prems
    have "invar s1" "distinct (i # held)" "set (i # held) = inuse s1" "base s1 = base s"
      "extent s1 \<le> int (max peak (Suc (length held)))"
      by auto
    with Cons.IH [of s1 "i # held" "max peak (Suc (length held))"] Acquire a
    show ?thesis by simp
  next
    case (Release k)
    show ?thesis
    proof (cases "k < length held")
      case True
      let ?i = "held ! k" and ?h = "take k held @ drop (Suc k) held"
      have d: "distinct ?h" "set ?h = inuse s - {?i}"
        using remove_nth_distinct [OF True Cons.prems(2)] Cons.prems(3) by simp_all
      obtain s1 where "release s ?i = Ok s1" "invar s1" "inuse s1 = inuse s - {?i}" "base s1 = base s"
        "extent s1 \<le> extent s"
        using release_step [OF Cons.prems(1)] True Cons.prems(3) by (metis nth_mem)
      with d True Cons.prems Cons.IH [of s1 ?h peak] Release show ?thesis by simp
    next
      case False
      with Release Cons show ?thesis by simp
    qed
  qed
qed

end

interpretation ida: id_source AcquireID ReleaseID wf_ida outstanding ida_start "\<lambda>a. ida_off a - ida_start a"
proof unfold_locales
  fix a i a' assume wf: "wf_ida a" and acq: "AcquireID a = (i, a')"
  note st = AcquireID_step [OF wf acq]
  show "wf_ida a' \<and> i \<notin> outstanding a \<and> outstanding a' = insert i (outstanding a) \<and>
      ida_start a' = ida_start a \<and>
      ida_off a' - ida_start a' \<le> max (ida_off a - ida_start a) (int (card (outstanding a)) + 1)"
  proof (cases "ida_free a" rule: rev_cases)
    case Nil
    then show ?thesis using st card_outstanding [OF wf] by auto
  next
    case (snoc xs x)
    then show ?thesis using st acq AcquireID_pop [OF snoc] by auto
  qed
next
  fix a i assume "wf_ida a" "i \<in> outstanding a"
  from ReleaseID_step [OF this]
  show "\<exists>a'. ReleaseID a i = Ok a' \<and> wf_ida a' \<and> outstanding a' = outstanding a - {i} \<and>
      ida_start a' = ida_start a \<and> ida_off a' - ida_start a' \<le> ida_off a - ida_start a"
    by auto
next
  fix a assume "wf_ida a"
  show "outstanding a \<subseteq> {ida_start a..<ida_start a + (ida_off a - ida_start a)}"
    by (auto simp: outstanding_def)
qed

section \<open>Properties\<close>

text \<open>C26. Ids are unique while in use, whatever the order of the calls: from a new allocator, every
  history of \<open>AcquireID\<close> and \<open>ReleaseID\<close> of held ids runs without panic, no two held ids are
  equal, and every held id lies in \<open>[start, start + peak)\<close>, where \<open>peak\<close> is the largest number of
  ids that were held at the same time (ids are reused before new ones are made).\<close>

theorem ids_unique_and_dense:
  assumes "NewIDAllocator start = Ok a"
  shows "\<exists>a' held peak. id_run AcquireID ReleaseID (a, [], 0) ops = Some (a', held, peak) \<and>
    distinct held \<and> set held = outstanding a' \<and> set held \<subseteq> {start..<start + int peak}"
proof -
  have a: "wf_ida a" "outstanding a = {}" "ida_start a = start" "ida_off a = start"
    using assms by (auto simp: NewIDAllocator_Ok wf_ida_def outstanding_def)
  obtain a' held peak where r: "id_run AcquireID ReleaseID (a, [], 0) ops = Some (a', held, peak)"
    "wf_ida a'" "distinct held" "set held = outstanding a'" "ida_start a' = start"
    "ida_off a' - ida_start a' \<le> int peak"
    using ida.run_total [of a "[]" 0 ops] a by auto
  have "outstanding a' \<subseteq> {start..<start + int peak}"
    using ida.inuse_extent [OF r(2)] r(5,6) by auto
  with r show ?thesis by auto
qed

theorem ids_unique_and_dense_witness:
  "\<exists>a' held peak. id_run AcquireID ReleaseID (\<lparr>ida_start = 1, ida_off = 1, ida_free = []\<rparr>, [], 0)
      [Acquire, Acquire, Release 1, Acquire] = Some (a', held, peak) \<and>
    distinct held \<and> set held = outstanding a' \<and> set held \<subseteq> {1..<1 + int peak}"
  by (rule ids_unique_and_dense) (simp add: NewIDAllocator_def)

text \<open>When the last id in use is released, the allocator is as new: the counter is back at
  \<open>start\<close> and the free list is empty, so the next id is \<open>start\<close> again.\<close>

theorem release_last_resets:
  assumes "wf_ida a" and "outstanding a = {i}"
  shows "ReleaseID a i = NewIDAllocator (ida_start a)"
proof -
  have "0 \<le> ida_start a" using assms(1) by (simp add: wf_ida_def)
  then show ?thesis
    using ReleaseID_step [OF assms(1), of i] assms(2) by (auto simp: NewIDAllocator_def)
qed

theorem release_last_resets_witness:
  "ReleaseID \<lparr>ida_start = 1, ida_off = 3, ida_free = [1]\<rparr> 2 = NewIDAllocator 1"
proof -
  have "wf_ida \<lparr>ida_start = 1, ida_off = 3, ida_free = [1]\<rparr>"
    and "outstanding \<lparr>ida_start = 1, ida_off = 3, ida_free = [1]\<rparr> = {2}"
    by (auto simp: wf_ida_def outstanding_def)
  from release_last_resets [OF this] show ?thesis by simp
qed

text \<open>The guard of \<open>ReleaseID\<close> compares with \<open>>\<close> where \<open>>=\<close> is meant: the id \<open>off\<close>, which was never
  handed out, is accepted, and the next two calls of \<open>AcquireID\<close> return the same id.\<close>

theorem release_of_next_id_duplicates:
  assumes "NewIDAllocator start = Ok a"
  shows "\<exists>a1 a2 a3. ReleaseID a start = Ok a1 \<and> AcquireID a1 = (start, a2) \<and> AcquireID a2 = (start, a3)"
  using assms by (auto simp: NewIDAllocator_Ok ReleaseID_def Let_def AcquireID_def)

theorem release_of_next_id_duplicates_witness:
  "\<exists>a1 a2 a3. ReleaseID \<lparr>ida_start = 1, ida_off = 1, ida_free = []\<rparr> 1 = Ok a1 \<and>
     AcquireID a1 = (1, a2) \<and> AcquireID a2 = (1, a3)"
  by (rule release_of_next_id_duplicates) (simp add: NewIDAllocator_def)

end
