(* ===== verification/Goscon_Config.thy ===== *)
theory Goscon_Config
  imports Upstream
begin

text \<open>
  \<open>config.go\<close>: the configuration, kept by the library \<open>viper\<close>, the cache of the items read while the program runs,
  and \<open>reloadConfig\<close>, which brings a new configuration into force.

  \<open>viper\<close> is not code of the repository: its state is a type parameter and the functions the program calls
  are the record \<open>viper_ops\<close> (decoding to the types of the program included, and the dump as YAML). The
  record \<open>goscon\<close> is the state of the whole program: the connections and the server, the package
  \<open>upstream\<close>, \<open>viper\<close>, and the cache.
\<close>

section \<open>State\<close>

datatype cfgval = VBool bool | VInt int | VString string

record 'v viper_ops =
  vp_ConfigFileUsed :: "'v \<Rightarrow> string"
  vp_SetConfigFile :: "string \<Rightarrow> 'v \<Rightarrow> 'v"
  vp_SetDefault :: "string \<Rightarrow> cfgval \<Rightarrow> 'v \<Rightarrow> 'v"
  vp_ReadInConfig :: "'v \<Rightarrow> goerr option \<times> 'v"
  vp_UnmarshalOption :: "'v \<Rightarrow> goerr + Option"
  vp_UnmarshalHosts :: "'v \<Rightarrow> goerr + Host list"
  vp_GetInt :: "'v \<Rightarrow> string \<Rightarrow> int"
  vp_GetBool :: "'v \<Rightarrow> string \<Rightarrow> bool"
  vp_GetString :: "'v \<Rightarrow> string \<Rightarrow> string"
  vp_Marshal :: "'v \<Rightarrow> goerr + string"

record ('srv, 'v) goscon =
  g_w :: "'srv world"
  g_up :: upstreams
  g_viper :: 'v
  g_cache :: "string \<rightharpoonup> cfgval"

definition onWorld :: "('srv world, 'a) M \<Rightarrow> (('srv, 'v) goscon, 'a) M" where
  "onWorld f = (\<lambda>g. case f (g_w g) of (r, w') \<Rightarrow> (r, g\<lparr>g_w := w'\<rparr>))"

definition onUp :: "(upstreams, 'a) M \<Rightarrow> (('srv, 'v) goscon, 'a) M" where
  "onUp f = (\<lambda>g. case f (g_up g) of (r, u') \<Rightarrow> (r, g\<lparr>g_up := u'\<rparr>))"

section \<open>Defaults\<close>

definition config_defaults :: "int \<Rightarrow> (string \<times> cfgval) list" where
  "config_defaults NumCPU =
    [(''manager'', VString ''127.0.0.1:6620''),
     (''tcp'', VString ''0.0.0.0:1248''),
     (''kcp'', VString []),
     (''scp.handshake_timeout'', VInt 30),
     (''scp.reuse_time'', VInt 30),
     (''scp.reuse_buffer'', VInt 65536),
     (''tcp_option.read_timeout'', VInt 0),
     (''tcp_option.keepalive'', VBool True),
     (''tcp_option.keepalive_interval'', VInt 60),
     (''kcp_option.reuseport'', VInt NumCPU),
     (''kcp_option.read_timeout'', VInt 60),
     (''kcp_option.fec_data_shards'', VInt 0),
     (''kcp_option.fec_parity_shards'', VInt 0),
     (''kcp_option.read_buffer'', VInt 4194304),
     (''kcp_option.write_buffer'', VInt 4194304),
     (''kcp_option.opt_mtu'', VInt 1400),
     (''kcp_option.opt_nodelay'', VInt 1),
     (''kcp_option.opt_interval'', VInt 10),
     (''kcp_option.opt_resend'', VInt 2),
     (''kcp_option.opt_nc'', VInt 1),
     (''kcp_option.opt_sndwnd'', VInt 2048),
     (''kcp_option.opt_rcvwnd'', VInt 2048),
     (''kcp_option.opt_stream'', VBool True),
     (''kcp_option.opt_writedelay'', VBool False),
     (''upstream_option.net'', VString ''tcp'')]"

definition config_init :: "'v viper_ops \<Rightarrow> int \<Rightarrow> (('srv, 'v) goscon, unit) M" where
  "config_init vp NumCPU = modM (\<lambda>g.
     g\<lparr>g_viper := fold (\<lambda>(k, x). vp_SetDefault vp k x) (config_defaults NumCPU) (g_viper g), g_cache := Map.empty\<rparr>)"

definition newline :: string where
  "newline = [CHR 0x0A]"

definition marshalConfigFile :: "'v viper_ops \<Rightarrow> 'v \<Rightarrow> string" where
  "marshalConfigFile vp v = (case vp_Marshal vp v of
     Inl err \<Rightarrow> []
   | Inr b \<Rightarrow> ''####### goscon configuration #######'' @ newline @ ''# config file '' @ vp_ConfigFileUsed vp v @ newline @
              b @ newline @ ''####### end #######'')"

section \<open>Cached items\<close>

text \<open>A type assertion \<open>v.(bool)\<close> on a value of another type panics.\<close>

definition badAssertion :: string where
  "badAssertion = ''interface conversion''"

definition configItemBool :: "'v viper_ops \<Rightarrow> string \<Rightarrow> (('srv, 'v) goscon, bool) M" where
  "configItemBool vp name =
     bindM (getM g_cache) (\<lambda>configCache. case configCache name of
       Some v \<Rightarrow> (case v of VBool b \<Rightarrow> retM b | _ \<Rightarrow> panicM badAssertion)
     | None \<Rightarrow>
         bindM (getM (\<lambda>g. vp_GetBool vp (g_viper g) name)) (\<lambda>v.
         bindM (modM (\<lambda>g. g\<lparr>g_cache := (g_cache g)(name \<mapsto> VBool v)\<rparr>)) (\<lambda>_. retM v)))"

definition configItemInt :: "'v viper_ops \<Rightarrow> string \<Rightarrow> (('srv, 'v) goscon, int) M" where
  "configItemInt vp name =
     bindM (getM g_cache) (\<lambda>configCache. case configCache name of
       Some v \<Rightarrow> (case v of VInt i \<Rightarrow> retM i | _ \<Rightarrow> panicM badAssertion)
     | None \<Rightarrow>
         bindM (getM (\<lambda>g. vp_GetInt vp (g_viper g) name)) (\<lambda>v.
         bindM (modM (\<lambda>g. g\<lparr>g_cache := (g_cache g)(name \<mapsto> VInt v)\<rparr>)) (\<lambda>_. retM v)))"

text \<open>\<open>time.Duration(n) * time.Second\<close>: nanoseconds in 64 bits, wrapping.\<close>

definition seconds :: "int \<Rightarrow> int" where
  "seconds n = (n * 1000000000 + 2 ^ 63) mod 2 ^ 64 - 2 ^ 63"

definition configItemTime :: "'v viper_ops \<Rightarrow> string \<Rightarrow> (('srv, 'v) goscon, int) M" where
  "configItemTime vp name =
     bindM (configItemInt vp name) (\<lambda>s. retM (if s \<le> 0 then 0 else seconds s))"

section \<open>Reloading\<close>

definition normalizeOption :: "net_env \<Rightarrow> Option \<Rightarrow> ('s, Option) M" where
  "normalizeOption env opt = (case opt_Resolv opt of
     None \<Rightarrow> retM opt
   | Some r \<Rightarrow>
       bindM (tryM (liftM (Normalize env r))) (\<lambda>n. case n of
         Inl err \<Rightarrow> failM ErrInvalidConfig
       | Inr r' \<Rightarrow> retM (opt\<lparr>opt_Resolv := Some r'\<rparr>)))"

text \<open>The options and hosts of the configuration, brought into the package \<open>upstream\<close>.\<close>

definition updateUpstream :: "net_env \<Rightarrow> 'v viper_ops \<Rightarrow> (('srv, 'v) goscon, unit) M" where
  "updateUpstream env vp =
     bindM (getM (\<lambda>g. vp_UnmarshalOption vp (g_viper g))) (\<lambda>opt. case opt of Inl err \<Rightarrow> failM err | Inr option \<Rightarrow>
     bindM (normalizeOption env option) (\<lambda>option.
     bindM (getM (\<lambda>g. vp_UnmarshalHosts vp (g_viper g))) (\<lambda>hs. case hs of Inl err \<Rightarrow> failM err | Inr hosts \<Rightarrow>
     bindM (onUp (UpdateHosts env option hosts)) (\<lambda>_.
     onUp (modM (SetOption option))))))"

text \<open>The last part, which sets the variables of the package \<open>scp\<close>.\<close>

definition applyScp :: "'v viper_ops \<Rightarrow> (('srv, 'v) goscon, unit) M" where
  "applyScp vp = modM (\<lambda>g.
     let reuseBuffer = vp_GetInt vp (g_viper g) ''scp.reuse_buffer'';
         handshakeTimeout = vp_GetInt vp (g_viper g) ''scp.handshake_timeout'';
         w = (if 0 < reuseBuffer then (g_w g)\<lparr>w_ReuseBufferSize := nat reuseBuffer\<rparr> else g_w g)
     in g\<lparr>g_w := (if 0 < handshakeTimeout then w\<lparr>w_HandshakeTimeout := seconds handshakeTimeout\<rparr> else w)\<rparr>)"

definition reloadConfig :: "net_env \<Rightarrow> 'v viper_ops \<Rightarrow> (('srv, 'v) goscon, unit) M" where
  "reloadConfig env vp =
     bindM (getM (\<lambda>g. vp_ConfigFileUsed vp (g_viper g))) (\<lambda>file.
     if file = [] then failM ErrInvalidConfig else
     bindM (\<lambda>g. case vp_ReadInConfig vp (g_viper g) of (err, v) \<Rightarrow> (Ok err, g\<lparr>g_viper := v\<rparr>)) (\<lambda>err.
     if err \<noteq> None then failM ErrInvalidConfig else
     bindM (modM (\<lambda>g. g\<lparr>g_cache := Map.empty\<rparr>)) (\<lambda>_.
     bindM (updateUpstream env vp) (\<lambda>_.
     applyScp vp))))"

section \<open>What the operations do\<close>

lemma normalizeOption_run:
  obtains r where "normalizeOption env opt s = (r, s)"
    "\<And>opt'. r = Ok opt' \<Longrightarrow> opt_Net opt' = opt_Net opt \<and> (opt_Resolv opt' = None \<longleftrightarrow> opt_Resolv opt = None)"
  by (rule that [of "fst (normalizeOption env opt s)"])
    (auto simp: normalizeOption_def monad_simps split: option.splits res.splits)

lemma updateUpstream_run:
  obtains r u' where "updateUpstream env vp g = (r, g\<lparr>g_up := u'\<rparr>)" "r \<noteq> Ok () \<Longrightarrow> u' = g_up g"
    "r = Ok () \<Longrightarrow> \<exists>opt opt' hosts u1. vp_UnmarshalOption vp (g_viper g) = Inr opt \<and> vp_UnmarshalHosts vp (g_viper g) = Inr hosts \<and>
       opt_Net opt' = opt_Net opt \<and> UpdateHosts env opt' hosts (g_up g) = (Ok (), u1) \<and> u' = SetOption opt' u1"
proof (cases "vp_UnmarshalOption vp (g_viper g)")
  case (Inl e)
  then show thesis by (intro that [of "Fail e" "g_up g"]) (simp_all add: updateUpstream_def monad_simps)
next
  case (Inr opt)
  obtain ro where no: "normalizeOption env opt g = (ro, g)" "\<And>opt'. ro = Ok opt' \<Longrightarrow> opt_Net opt' = opt_Net opt"
    using normalizeOption_run [of env opt g] by metis
  show thesis
  proof (cases "(\<exists>opt'. ro = Ok opt') \<and> (\<exists>hosts. vp_UnmarshalHosts vp (g_viper g) = Inr hosts)")
    case True
    then obtain opt' hosts where oh: "ro = Ok opt'" "vp_UnmarshalHosts vp (g_viper g) = Inr hosts" by blast
    obtain ru u1 where u: "UpdateHosts env opt' hosts (g_up g) = (ru, u1)" by fastforce
    show thesis
    proof (cases "ru = Ok ()")
      case True
      then show thesis using Inr no oh u
        by (intro that [of "Ok ()" "SetOption opt' u1"]) (auto simp: updateUpstream_def monad_simps onUp_def)
    next
      case False
      then have "updateUpstream env vp g = (ru, g\<lparr>g_up := u1\<rparr>)"
        using Inr no oh u by (cases ru) (auto simp: updateUpstream_def monad_simps onUp_def)
      then show thesis using UpdateHosts_fails [OF u False] False by (intro that [of ru u1]) auto
    qed
  next
    case False
    have "snd (updateUpstream env vp g) = g \<and> fst (updateUpstream env vp g) \<noteq> Ok ()"
    proof (cases ro)
      case (Ok opt')
      with False obtain e where "vp_UnmarshalHosts vp (g_viper g) = Inl e" by (cases "vp_UnmarshalHosts vp (g_viper g)") auto
      then show ?thesis using Inr no Ok by (simp add: updateUpstream_def monad_simps)
    qed (use Inr no in \<open>simp_all add: updateUpstream_def monad_simps\<close>)
    then show thesis by (intro that [of "fst (updateUpstream env vp g)" "g_up g"]) (simp_all add: prod_eq_iff)
  qed
qed

lemma applyScp_fields [simp]:
  "fst (applyScp vp g) = Ok ()" "g_up (snd (applyScp vp g)) = g_up g" "g_viper (snd (applyScp vp g)) = g_viper g"
  "g_cache (snd (applyScp vp g)) = g_cache g"
  by (simp_all add: applyScp_def monad_simps Let_def)

text \<open>The two outcomes of a reload, over the file just read.\<close>

definition reread :: "'v viper_ops \<Rightarrow> ('srv, 'v) goscon \<Rightarrow> ('srv, 'v) goscon" where
  "reread vp g = g\<lparr>g_viper := snd (vp_ReadInConfig vp (g_viper g)), g_cache := Map.empty\<rparr>"

definition readable :: "'v viper_ops \<Rightarrow> 'v \<Rightarrow> bool" where
  "readable vp v \<longleftrightarrow> vp_ConfigFileUsed vp v \<noteq> [] \<and> fst (vp_ReadInConfig vp v) = None"

lemma reloadConfig_unreadable:
  assumes "\<not> readable vp (g_viper g)"
  shows "\<exists>v. reloadConfig env vp g = (Fail ErrInvalidConfig, g\<lparr>g_viper := v\<rparr>) \<and>
    (v = g_viper g \<or> fst (vp_ReadInConfig vp (g_viper g)) \<noteq> None \<and> v = snd (vp_ReadInConfig vp (g_viper g)))"
proof (cases "vp_ConfigFileUsed vp (g_viper g) = []")
  case True
  then show ?thesis by (intro exI [of _ "g_viper g"]) (simp add: reloadConfig_def monad_simps)
next
  case False
  then obtain e v where "vp_ReadInConfig vp (g_viper g) = (Some e, v)"
    using assms by (cases "vp_ReadInConfig vp (g_viper g)") (auto simp: readable_def)
  then show ?thesis using False by (intro exI [of _ v]) (simp add: reloadConfig_def monad_simps)
qed

lemma reloadConfig_readable:
  assumes "readable vp (g_viper g)" "updateUpstream env vp (reread vp g) = (r, g1)"
  shows "reloadConfig env vp g = (r, if r = Ok () then snd (applyScp vp g1) else g1)"
proof -
  obtain v where v: "vp_ReadInConfig vp (g_viper g) = (None, v)" "vp_ConfigFileUsed vp (g_viper g) \<noteq> []"
    using assms(1) by (cases "vp_ReadInConfig vp (g_viper g)") (auto simp: readable_def)
  have "applyScp vp g1 = (Ok (), snd (applyScp vp g1))" by (simp add: prod_eq_iff)
  then show ?thesis
    using assms(2) v by (cases r) (simp_all add: reloadConfig_def monad_simps reread_def)
qed

lemma reloadConfig_installs:
  assumes "reloadConfig env vp g = (Ok (), g')"
  obtains opt hg where "installed (g_up g') hg opt"
proof -
  have rd: "readable vp (g_viper g)" using reloadConfig_unreadable [of vp g env] assms by auto
  show thesis
  proof (rule updateUpstream_run [of env vp "reread vp g"])
    fix r u'
    assume u: "updateUpstream env vp (reread vp g) = (r, (reread vp g)\<lparr>g_up := u'\<rparr>)"
      "r = Ok () \<Longrightarrow> \<exists>opt opt' hosts u1. vp_UnmarshalOption vp (g_viper (reread vp g)) = Inr opt \<and>
         vp_UnmarshalHosts vp (g_viper (reread vp g)) = Inr hosts \<and> opt_Net opt' = opt_Net opt \<and>
         UpdateHosts env opt' hosts (g_up (reread vp g)) = (Ok (), u1) \<and> u' = SetOption opt' u1"
    have "r = Ok ()" "g_up g' = u'" using reloadConfig_readable [OF rd u(1)] assms by (auto split: if_splits)
    then show thesis using u(2) UpdateHosts_installs that by metis
  qed
qed

text \<open>A duration of at most 9223372036 seconds is exact; one second more is negative.\<close>

lemma seconds_exact: "0 \<le> n \<Longrightarrow> n \<le> 9223372036 \<Longrightarrow> seconds n = n * 1000000000"
  by (simp add: seconds_def)

lemma seconds_wraps: "seconds 9223372037 < 0"
  by (simp add: seconds_def)

section \<open>The cache\<close>

text \<open>The calls on the configuration while the program runs. The type of an item is that of the call that reads it.\<close>

datatype cfg_call = ItemBool string | ItemInt string | ItemTime string | Reload

fun cfg_step :: "net_env \<Rightarrow> 'v viper_ops \<Rightarrow> cfg_call \<Rightarrow> ('srv, 'v) goscon \<Rightarrow> ('srv, 'v) goscon" where
  "cfg_step env vp (ItemBool name) g = snd (configItemBool vp name g)"
| "cfg_step env vp (ItemInt name) g = snd (configItemInt vp name g)"
| "cfg_step env vp (ItemTime name) g = snd (configItemTime vp name g)"
| "cfg_step env vp Reload g = snd (reloadConfig env vp g)"

fun typed :: "string set \<Rightarrow> cfg_call \<Rightarrow> bool" where
  "typed bools (ItemBool name) = (name \<in> bools)"
| "typed bools (ItemInt name) = (name \<notin> bools)"
| "typed bools (ItemTime name) = (name \<notin> bools)"
| "typed bools Reload = True"

text \<open>The cache holds what \<open>viper\<close> would answer.\<close>

definition item :: "'v viper_ops \<Rightarrow> string set \<Rightarrow> 'v \<Rightarrow> string \<Rightarrow> cfgval" where
  "item vp bools v n = (if n \<in> bools then VBool (vp_GetBool vp v n) else VInt (vp_GetInt vp v n))"

lemma item_simps: "n \<in> bools \<Longrightarrow> item vp bools v n = VBool (vp_GetBool vp v n)" "n \<notin> bools \<Longrightarrow> item vp bools v n = VInt (vp_GetInt vp v n)"
  by (simp_all add: item_def)

definition cache_ok :: "'v viper_ops \<Rightarrow> string set \<Rightarrow> ('srv, 'v) goscon \<Rightarrow> bool" where
  "cache_ok vp bools g \<longleftrightarrow> (\<forall>n v. g_cache g n = Some v \<longrightarrow> v = item vp bools (g_viper g) n)"

lemma configItemInt_run:
  assumes "cache_ok vp bools g" "name \<notin> bools"
  obtains c where "configItemInt vp name g = (Ok (vp_GetInt vp (g_viper g) name), g\<lparr>g_cache := c\<rparr>)"
    "cache_ok vp bools (g\<lparr>g_cache := c\<rparr>)"
proof (cases "g_cache g name")
  case None
  show thesis
  proof (rule that)
    show "configItemInt vp name g = (Ok (vp_GetInt vp (g_viper g) name),
        g\<lparr>g_cache := (g_cache g)(name \<mapsto> VInt (vp_GetInt vp (g_viper g) name))\<rparr>)"
      using None by (simp add: configItemInt_def monad_simps)
  qed (use assms in \<open>simp add: cache_ok_def item_simps\<close>)
next
  case (Some v)
  then have "v = VInt (vp_GetInt vp (g_viper g) name)" using assms item_simps [of name bools vp "g_viper g"] by (auto simp: cache_ok_def)
  then show thesis using assms(1) Some that [of "g_cache g"] by (simp add: configItemInt_def monad_simps)
qed

lemma configItemBool_run:
  assumes "cache_ok vp bools g" "name \<in> bools"
  obtains c where "configItemBool vp name g = (Ok (vp_GetBool vp (g_viper g) name), g\<lparr>g_cache := c\<rparr>)"
    "cache_ok vp bools (g\<lparr>g_cache := c\<rparr>)"
proof (cases "g_cache g name")
  case None
  show thesis
  proof (rule that)
    show "configItemBool vp name g = (Ok (vp_GetBool vp (g_viper g) name),
        g\<lparr>g_cache := (g_cache g)(name \<mapsto> VBool (vp_GetBool vp (g_viper g) name))\<rparr>)"
      using None by (simp add: configItemBool_def monad_simps)
  qed (use assms in \<open>simp add: cache_ok_def item_simps\<close>)
next
  case (Some v)
  then have "v = VBool (vp_GetBool vp (g_viper g) name)" using assms item_simps [of name bools vp "g_viper g"] by (auto simp: cache_ok_def)
  then show thesis using assms(1) Some that [of "g_cache g"] by (simp add: configItemBool_def monad_simps)
qed

lemma reloadConfig_viper_cache:
  "readable vp (g_viper g) \<Longrightarrow> g_viper (snd (reloadConfig env vp g)) = snd (vp_ReadInConfig vp (g_viper g)) \<and>
     g_cache (snd (reloadConfig env vp g)) = Map.empty"
  by (rule updateUpstream_run [of env vp "reread vp g"]) (simp add: reloadConfig_readable reread_def)

lemma cfg_step_cache_ok:
  assumes "cache_ok vp bools g" "typed bools c"
    "\<And>v n. fst (vp_ReadInConfig vp v) \<noteq> None \<Longrightarrow>
       vp_GetInt vp (snd (vp_ReadInConfig vp v)) n = vp_GetInt vp v n \<and> vp_GetBool vp (snd (vp_ReadInConfig vp v)) n = vp_GetBool vp v n"
  shows "cache_ok vp bools (cfg_step env vp c g)"
proof (cases c)
  case (ItemBool name)
  then show ?thesis using configItemBool_run [OF assms(1), of name] assms(2) by (metis cfg_step.simps(1) snd_conv typed.simps(1))
next
  case (ItemInt name)
  then show ?thesis using configItemInt_run [OF assms(1), of name] assms(2) by (metis cfg_step.simps(2) snd_conv typed.simps(2))
next
  case (ItemTime name)
  have "snd (configItemTime vp name g) = snd (configItemInt vp name g)"
    by (simp add: configItemTime_def monad_simps split: prod.split res.split)
  then show ?thesis using ItemTime configItemInt_run [OF assms(1), of name] assms(2) by (metis cfg_step.simps(3) snd_conv typed.simps(3))
next
  case Reload
  show ?thesis
  proof (cases "readable vp (g_viper g)")
    case True
    then show ?thesis using Reload reloadConfig_viper_cache [of vp g env] by (simp add: cache_ok_def)
  next
    case False
    then obtain v where v: "reloadConfig env vp g = (Fail ErrInvalidConfig, g\<lparr>g_viper := v\<rparr>)"
      "v = g_viper g \<or> fst (vp_ReadInConfig vp (g_viper g)) \<noteq> None \<and> v = snd (vp_ReadInConfig vp (g_viper g))"
      using reloadConfig_unreadable by metis
    then have "item vp bools v n = item vp bools (g_viper g) n" for n
      using assms(3) [of "g_viper g" n] by (auto simp: item_def)
    then show ?thesis using Reload v(1) assms(1) by (simp add: cache_ok_def)
  qed
qed

lemma fold_cache_ok:
  assumes "\<And>v n. fst (vp_ReadInConfig vp v) \<noteq> None \<Longrightarrow>
       vp_GetInt vp (snd (vp_ReadInConfig vp v)) n = vp_GetInt vp v n \<and> vp_GetBool vp (snd (vp_ReadInConfig vp v)) n = vp_GetBool vp v n"
  shows "\<forall>c \<in> set calls. typed bools c \<Longrightarrow> cache_ok vp bools g \<Longrightarrow> cache_ok vp bools (fold (cfg_step env vp) calls g)"
  by (induction calls arbitrary: g) (simp_all add: cfg_step_cache_ok [OF _ _ assms])

section \<open>Properties\<close>


text \<open>The cache is transparent. In any sequence of calls that read items and reload the configuration, in which no item is read
  with two types, the next read returns what \<open>viper\<close> holds at that moment and does not panic. This relies on a
  documented behaviour of \<open>viper\<close>: a failed read of the file keeps the settings.\<close>

theorem config_items_current:
  assumes "\<And>v n. fst (vp_ReadInConfig vp v) \<noteq> None \<Longrightarrow>
       vp_GetInt vp (snd (vp_ReadInConfig vp v)) n = vp_GetInt vp v n \<and> vp_GetBool vp (snd (vp_ReadInConfig vp v)) n = vp_GetBool vp v n"
    and "g_cache g = Map.empty" "\<forall>c \<in> set calls. typed bools c" "g' = fold (cfg_step env vp) calls g"
  shows "(name \<notin> bools \<longrightarrow> fst (configItemInt vp name g') = Ok (vp_GetInt vp (g_viper g') name)) \<and>
    (name \<in> bools \<longrightarrow> fst (configItemBool vp name g') = Ok (vp_GetBool vp (g_viper g') name))"
proof -
  have "cache_ok vp bools (fold (cfg_step env vp) calls g)" using assms(3) by (intro fold_cache_ok [OF assms(1)]) (simp_all add: cache_ok_def assms(2))
  then have ok: "cache_ok vp bools g'" by (simp add: assms(4))
  have "fst (configItemInt vp name g') = Ok (vp_GetInt vp (g_viper g') name)" if "name \<notin> bools"
    by (rule configItemInt_run [OF ok that]) simp
  moreover have "fst (configItemBool vp name g') = Ok (vp_GetBool vp (g_viper g') name)" if "name \<in> bools"
    by (rule configItemBool_run [OF ok that]) simp
  ultimately show ?thesis by blast
qed

text \<open>A reload that fails changes the running configuration all the same. Once the file was read, the settings of \<open>viper\<close> are
  replaced and the cache is cleared before the options and hosts are checked: after an error the backends are the old ones, but
  every item read afterwards (timeouts, options of new connections) comes from the refused file.\<close>

theorem failed_reload_changes_items:
  assumes "reloadConfig env vp g = (Fail e, g')" "vp_ConfigFileUsed vp (g_viper g) \<noteq> []" "vp_ReadInConfig vp (g_viper g) = (None, v)"
  shows "fst (configItemInt vp name g') = Ok (vp_GetInt vp v name) \<and> g_up g' = g_up g"
proof -
  have "readable vp (g_viper g)" using assms(2,3) by (simp add: readable_def)
  then have "g_viper g' = v" "g_cache g' = Map.empty" using reloadConfig_viper_cache [of vp g env] assms(1,3) by simp_all
  moreover have "g_up g' = g_up g"
    by (rule updateUpstream_run [of env vp "reread vp g"])
      (use reloadConfig_readable [OF \<open>readable vp (g_viper g)\<close>, of env] assms(1) in \<open>auto simp: reread_def\<close>)
  ultimately show ?thesis by (simp add: configItemInt_def monad_simps)
qed

text \<open>A configuration that names a host when it is read first and none afterwards.\<close>

definition ex_viper :: "nat viper_ops" where
  "ex_viper = \<lparr>vp_ConfigFileUsed = (\<lambda>_. ''config.yaml''), vp_SetConfigFile = (\<lambda>f v. v), vp_SetDefault = (\<lambda>k x v. v),
     vp_ReadInConfig = (\<lambda>v. (None, Suc v)), vp_UnmarshalOption = (\<lambda>v. Inr \<lparr>opt_Net = ''tcp'', opt_Resolv = None\<rparr>),
     vp_UnmarshalHosts = (\<lambda>v. Inr (if v = 1 then [\<lparr>h_Name = ''a'', h_Addr = ''h:1'', h_Weight = 0, h_addrs = []\<rparr>] else [])),
     vp_GetInt = (\<lambda>v n. int v), vp_GetBool = (\<lambda>v n. True), vp_GetString = (\<lambda>v n. n), vp_Marshal = (\<lambda>v. Inr [])\<rparr>"

definition ex_goscon :: "nat \<Rightarrow> (unit, nat) goscon" where
  "ex_goscon v = \<lparr>g_w = ex_world (rc4_NewCipher [9]) [1] [7] 1 0 [], g_up = ex_upstreams, g_viper = v, g_cache = Map.empty\<rparr>"

lemma ex_reload:
  obtains g' where "reloadConfig ex_env ex_viper (ex_goscon 0) = (Ok (), g')"
proof -
  let ?u = "updateUpstream ex_env ex_viper (reread ex_viper (ex_goscon 0))"
  have "fst ?u = Ok ()"
    by (simp add: updateUpstream_def normalizeOption_def monad_simps onUp_def ex_viper_def ex_goscon_def reread_def
        UpdateHosts_def update_host_def lookupTCPAddrs_def SplitHostPort_def last_byte_def ex_env_def Let_def)
  then have "?u = (Ok (), snd ?u)" by (simp add: prod_eq_iff)
  from reloadConfig_readable [OF _ this] show thesis using that by (simp add: readable_def ex_viper_def)
qed

lemma ex_reload_refused:
  "reloadConfig ex_env ex_viper (ex_goscon 1) = (Fail ErrNoHost, ex_goscon 2)"
  by (simp add: reloadConfig_def updateUpstream_def normalizeOption_def monad_simps onUp_def ex_viper_def ex_goscon_def
      UpdateHosts_def numeral_2_eq_2)


theorem config_items_current_witness:
  "fst (configItemInt ex_viper ''scp.reuse_time'' (fold (cfg_step ex_env ex_viper) [ItemTime ''scp.reuse_time'', Reload] (ex_goscon 1))) = Ok 2"
proof -
  have "g_viper (fold (cfg_step ex_env ex_viper) [ItemTime ''scp.reuse_time'', Reload] (ex_goscon 1)) = 2"
    using reloadConfig_viper_cache [of ex_viper "snd (configItemTime ex_viper ''scp.reuse_time'' (ex_goscon 1))" ex_env]
    by (simp add: readable_def ex_viper_def configItemTime_def configItemInt_def monad_simps ex_goscon_def)
  then show ?thesis
    using config_items_current [of ex_viper "ex_goscon 1" "[ItemTime ''scp.reuse_time'', Reload]" "{}"
        "fold (cfg_step ex_env ex_viper) [ItemTime ''scp.reuse_time'', Reload] (ex_goscon 1)" ex_env "''scp.reuse_time''"]
    by (simp add: ex_viper_def ex_goscon_def del: fold_simps)
qed

theorem failed_reload_changes_items_witness:
  "fst (configItemInt ex_viper ''scp.reuse_time'' (ex_goscon 2)) = Ok 2 \<and> g_up (ex_goscon 2) = g_up (ex_goscon 1)"
  using failed_reload_changes_items [OF ex_reload_refused, of 2 "''scp.reuse_time''"]
  by (simp add: ex_viper_def ex_goscon_def)

end
