(* ===== verification/Scp_Frame.thy ===== *)
theory Scp_Frame
  imports Scp_Connect
begin

text \<open>
  What the methods of \<open>scp/conn.go\<close> leave alone. A method keeps a part \<open>f\<close> of the world if \<open>f\<close> is the same after it,
  whatever its outcome; the rules \<open>keeps_intros\<close> follow the way methods are composed. With them the effect of a
  server's handshake on the server behind the interface \<open>SCPServer\<close> is determined for every input and every behaviour
  of the network: at most one id is acquired, and it is the id of the connection when the handshake succeeds.
\<close>

definition keeps :: "('w \<Rightarrow> 'b) \<Rightarrow> ('w, 'a) M \<Rightarrow> bool" where
  "keeps f m \<longleftrightarrow> (\<forall>w. f (snd (m w)) = f w)"

named_theorems keeps_intros \<open>rules for the parts of the state a method keeps\<close>

lemma keepsD: "keeps f m \<Longrightarrow> m w = (r, w') \<Longrightarrow> f w' = f w"
  unfolding keeps_def by (metis snd_conv)

section \<open>Composition\<close>

lemma keeps_bindM [keeps_intros]:
  assumes "keeps f m" "\<And>x. keeps f (k x)"
  shows "keeps f (bindM m k)"
  unfolding keeps_def
proof
  fix w
  obtain r w' where m: "m w = (r, w')" by fastforce
  then show "f (snd (bindM m k w)) = f w"
    using keepsD [OF assms(1) m] assms(2) by (cases r) (auto simp: monad_simps keeps_def)
qed

lemma keeps_tryM [keeps_intros]: "keeps f m \<Longrightarrow> keeps f (tryM m)"
  by (auto simp: keeps_def monad_simps split: prod.split res.split) (metis snd_conv)+

lemma keeps_prims [keeps_intros]:
  "keeps f (retM x)" "keeps f (failM e)" "keeps f (panicM p)" "keeps f (getM g)" "keeps f (liftM r)" "keeps f (failErr e')"
  "keeps f (deref d)"
  by (auto simp: keeps_def monad_simps failErr_def deref_def split: option.split)

lemma keeps_modM: "(\<And>w. f (g w) = f w) \<Longrightarrow> keeps f (modM g)"
  by (simp add: keeps_def monad_simps)

lemma keeps_state: "(\<And>w. f (snd (m w)) = f w) \<Longrightarrow> keeps f m"
  by (simp add: keeps_def)

lemma keeps_if [keeps_intros]: "(b \<Longrightarrow> keeps f m) \<Longrightarrow> (\<not> b \<Longrightarrow> keeps f n) \<Longrightarrow> keeps f (if b then m else n)"
  by simp

lemma keeps_option [keeps_intros]:
  "(x = None \<Longrightarrow> keeps f m) \<Longrightarrow> (\<And>y. x = Some y \<Longrightarrow> keeps f (k y)) \<Longrightarrow> keeps f (case x of None \<Rightarrow> m | Some y \<Rightarrow> k y)"
  by (cases x) auto

lemma keeps_sum [keeps_intros]:
  "(\<And>e. keeps f (m e)) \<Longrightarrow> (\<And>y. keeps f (k y)) \<Longrightarrow> keeps f (case x of Inl e \<Rightarrow> m e | Inr y \<Rightarrow> k y)"
  by (cases x) auto

lemma keeps_prod [keeps_intros]: "(\<And>a b. keeps f (k a b)) \<Longrightarrow> keeps f (case x of (a, b) \<Rightarrow> k a b)"
  by (cases x) auto

lemma keeps_Let [keeps_intros]: "(\<And>x. keeps f (k x)) \<Longrightarrow> keeps f (let x = a in k x)"
  by (simp add: Let_def)

section \<open>Methods\<close>

lemma keeps_conn_of: "keeps f (conn_of c)"
  by (simp add: keeps_def monad_simps)

text \<open>The server behind the interface.\<close>

lemma keeps_server_steps [keeps_intros]:
  "keeps w_server (conn_of c)" "keeps w_server (upd_conn c g)" "keeps w_server (on_net n h)" "keeps w_server (on_net_res n k)"
  "keeps w_server pool_get" "keeps w_server (pool_put b)" "keeps w_server (alloc_cipher z)" "keeps w_server draw_PrivateKey"
  "keeps w_server (alloc_conn cc)" "keeps w_server (xor_key_stream a p)"
  by (auto simp: keeps_def monad_simps pool_get_def pool_put_def alloc_cipher_def draw_PrivateKey_def alloc_conn_def
      xor_key_stream_def split: list.split option.split)

lemma keeps_server_freeze [keeps_intros]: "keeps w_server (freeze c)"
  unfolding freeze_def by (intro keeps_intros)

lemma keeps_server_records [keeps_intros]:
  "keeps w_server (writeRecord c d)" "keeps w_server (readRecord c u)" "keeps w_server (retransmit c k)"
  unfolding writeRecord_def readRecord_def retransmit_def by (intro keeps_intros keeps_state; simp)+

lemma keeps_server_initNewConn [keeps_intros]: "keeps w_server (initNewConn c i s)"
  unfolding initNewConn_def newCipherConnReader_def newCipherConnWriter_def by (intro keeps_intros)

lemma keeps_server_spawn [keeps_intros]: "keeps w_server (spawn c new)"
  unfolding spawn_def by (intro keeps_intros keeps_modM; simp)

lemma keeps_server_check [keeps_intros]: "keeps w_server (serverReuse_check ops c rq)"
  unfolding serverReuse_check_def by (intro keeps_intros)

lemma keeps_server_reuse [keeps_intros]: "keeps w_server (serverReuseHandshake ops c rq)"
  unfolding serverReuseHandshake_def by (intro keeps_intros)

lemma keeps_server_close [keeps_intros]: "keeps w_server (Freeze c)" "keeps w_server (Conn_Close c)"
  unfolding Freeze_def Conn_Close_def by (intro keeps_intros)+

section \<open>The result of a handshake\<close>

text \<open>The flag \<open>reused\<close> and the id of the connection.\<close>

abbreviation reused_of :: "nat \<Rightarrow> 'srv world \<Rightarrow> bool" where
  "reused_of c \<equiv> \<lambda>w. c_reused (w_conns w c)"

lemma keeps_reused [keeps_intros]: "keeps (reused_of c) (writeRecord d p)" "keeps (reused_of c) (retransmit d k)"
  unfolding writeRecord_def retransmit_def
  by (intro keeps_intros keeps_state; auto simp: monad_simps)+

lemma spawn_reused:
  assumes "spawn old c w = (Ok True, w')"
  shows "c_reused (w_conns w' c)"
  using assms by (auto simp: spawn_def bindM_eq_Ok prim_simps upd_conn_eq split: option.splits)

lemma serverReuse_check_ok:
  fixes w :: "'srv world"
  assumes "serverReuse_check ops c rq w = (Ok (rp, diff), w')" "newError (rp_code rp) = None"
  shows "c_reused (w_conns w' c)"
proof -
  have st: "newError SCPStatusIDNotFound \<noteq> None" "newError SCPStatusUnauthorized \<noteq> None" "newError SCPStatusExpired \<noteq> None"
    "newError SCPStatusNotAcceptable \<noteq> None"
    by (simp_all add: newError_def SCPStatusOK_def SCPStatusIDNotFound_def SCPStatusUnauthorized_def SCPStatusExpired_def
        SCPStatusNotAcceptable_def SCPStatusBadRequest_def)
  let ?rq = "\<lambda>cc. cc\<lparr>c_handshakes := rq_handshakes rq\<rparr>"
  let ?w1 = "\<lambda>w. w\<lparr>w_conns := (w_conns w)(c := ?rq (w_conns w c))\<rparr>"
  obtain old where old: "op_QueryByID ops (w_server w) (rq_id rq) = Some old" "verifySum rq (c_secret (w_conns w old))"
    "\<not> rq_handshakes rq \<le> c_handshakes (w_conns w old)"
    using assms st by (cases "op_QueryByID ops (w_server w) (rq_id rq)")
      (auto simp: serverReuse_check_def Let_def monad_simps split: if_splits)
  define rest :: "bool \<Rightarrow> ('srv world, reuseConnResp \<times> int) M" where "rest = (\<lambda>ok. if \<not> ok then retM (\<lparr>rp_received = 0, rp_code = SCPStatusIDNotFound\<rparr>, 0)
      else bindM (conn_of c) (\<lambda>cc. bindM (deref (c_in cc)) (\<lambda>cin. bindM (deref (c_out cc)) (\<lambda>cout.
      bindM (deref (c_reuseBuffer cc)) (\<lambda>b.
      bindM (getM (\<lambda>w. lb_Len (w_bufs w b))) (\<lambda>len.
      let diff = GetBytesSent cout - uint (rq_received rq) in
      if diff < 0 \<or> int len < diff then retM (\<lparr>rp_received = 0, rp_code = SCPStatusNotAcceptable\<rparr>, diff)
      else retM (\<lparr>rp_received = word_of_int (GetBytesReceived cin), rp_code = SCPStatusOK\<rparr>, diff)))))))"
  have "serverReuse_check ops c rq w = bindM (spawn old c) rest (?w1 w)"
    using old by (simp add: serverReuse_check_def Let_def monad_simps rest_def cong: if_cong)
  with assms(1) have "bindM (spawn old c) rest (?w1 w) = (Ok (rp, diff), w')" by simp
  then obtain ok w2 where w2: "spawn old c (?w1 w) = (Ok ok, w2)" "rest ok w2 = (Ok (rp, diff), w')"
    unfolding bindM_eq_Ok by blast
  have ok: "ok" using w2(2) assms(2) st by (cases ok) (auto simp: rest_def monad_simps)
  have "keeps (\<lambda>w. w) (rest ok)" unfolding rest_def by (intro keeps_intros keeps_conn_of)
  from keepsD [OF this w2(2)] have "w' = w2" .
  with w2(1) ok show ?thesis by (auto intro: spawn_reused)
qed

lemma serverReuseHandshake_ok:
  assumes "serverReuseHandshake ops c rq w = (Ok (), w')"
  shows "c_reused (w_conns w' c)"
proof -
  obtain rp diff w1 w2 where s: "serverReuse_check ops c rq w = (Ok (rp, diff), w1)"
    "writeRecord c (reuseConnResp_marshal rp) w1 = (Ok (), w2)" "newError (rp_code rp) = None" "retransmit c diff w2 = (Ok (), w')"
    using assms by (auto simp: serverReuseHandshake_def bindM_eq_Ok prim_simps failErr_def split: option.splits)
  then show ?thesis
    using serverReuse_check_ok [OF s(1,3)] keepsD [OF keeps_reused(1) s(2), of c] keepsD [OF keeps_reused(2) s(4), of c] by simp
qed

lemma initNewConn_ok:
  "\<exists>w'. initNewConn c i s w = (Ok (), w') \<and> c_id (w_conns w' c) = i \<and> \<not> c_reused (w_conns w' c)"
  by (simp add: initNewConn_def newCipherConnReader_def newCipherConnWriter_def monad_simps pool_get_def alloc_cipher_def
      SetReader_def SetWriter_def split: list.split)

text \<open>The three effects a handshake can have on the server: none; an id acquired; an id acquired and given back.\<close>

definition srv_effect :: "'srv SCPServer_ops \<Rightarrow> 'srv \<Rightarrow> 'srv \<Rightarrow> (bool \<Rightarrow> int \<Rightarrow> bool) \<Rightarrow> bool" where
  "srv_effect ops ss ss' done \<longleftrightarrow>
     ss' = ss \<and> (\<forall>i. \<not> done False i) \<or>
     ss' = snd (op_AcquireID ops ss) \<and> (\<forall>b i. done b i \<longrightarrow> \<not> b \<and> i = fst (op_AcquireID ops ss)) \<or>
     op_ReleaseID ops (snd (op_AcquireID ops ss)) (fst (op_AcquireID ops ss)) = Ok ss' \<and> (\<forall>b i. \<not> done b i)"

lemma serverNewHandshake_effect:
  fixes w :: "'srv world"
  assumes "serverNewHandshake ops c q w = (r, w')"
  shows "srv_effect ops (w_server w) (w_server w')
    (\<lambda>b i. r = Ok () \<and> c_reused (w_conns w' c) = b \<and> c_id (w_conns w' c) = i)"
proof -
  obtain rk w1 where k: "draw_PrivateKey w = (rk, w1)" by fastforce
  have s1: "w_server w1 = w_server w" by (rule keepsD [OF keeps_server_steps(8) k])
  show ?thesis
  proof (cases "\<exists>x pub. rk = Ok x \<and> returns (PublicKey x) = Ok pub")
    case False
    then have "w' = w1 \<and> r \<noteq> Ok ()"
      using assms k by (cases rk; cases "returns (PublicKey (case rk of Ok x \<Rightarrow> x))")
        (auto simp: serverNewHandshake_def monad_simps)
    then show ?thesis by (simp add: srv_effect_def s1)
  next
    case True
    then obtain x pub where x: "rk = Ok x" "returns (PublicKey x) = Ok pub" by blast
    define i where "i = fst (op_AcquireID ops (w_server w))"
    define ss where "ss = snd (op_AcquireID ops (w_server w))"
    let ?rp = "newConnResp_marshal \<lparr>np_id = i, np_key = toLeu64 pub\<rparr>"
    obtain rw w2 where wr: "writeRecord c ?rp (w1\<lparr>w_server := ss\<rparr>) = (rw, w2)" by fastforce
    have s2: "w_server w2 = ss" using keepsD [OF keeps_server_records(1) wr] by simp
    define rest :: "('srv world, unit) M" where "rest = bindM (liftM (returns (Secret x (Uint64 (nq_key q))))) (\<lambda>secret.
         bindM (initNewConn c i (toLeu64 secret)) (\<lambda>_.
         upd_conn c (\<lambda>cc. cc\<lparr>c_config := (c_config cc)\<lparr>cf_TargetServer := nq_targetServer q, cf_Flag := nq_flag q\<rparr>\<rparr>)))"
    have run: "serverNewHandshake ops c q w = (case rw of Ok _ \<Rightarrow> rest w2 | Fail e \<Rightarrow> bindM (ReleaseID_srv ops i) (\<lambda>_. failM e) w2
        | Panic m \<Rightarrow> (Panic m, w2) | Hang \<Rightarrow> (Hang, w2))"
      using k x wr by (cases rw) (simp_all add: serverNewHandshake_def monad_simps AcquireID_srv_def s1 rest_def
          i_def [symmetric] ss_def [symmetric])
    show ?thesis
    proof (cases rw)
      case (Ok u)
      have run': "rest w2 = (r, w')" using run assms Ok by simp
      have "keeps w_server rest" unfolding rest_def by (intro keeps_intros)
      from keepsD [OF this run'] have "w_server w' = ss" using s2 by simp
      moreover have "\<not> c_reused (w_conns w' c) \<and> c_id (w_conns w' c) = i" if "r = Ok ()"
        using run' that initNewConn_ok [of c i _ w2]
        by (auto simp: rest_def bindM_eq_Ok prim_simps upd_conn_eq) (metis prod.inject)+
      ultimately show ?thesis by (auto simp: srv_effect_def ss_def i_def)
    next
      case (Fail e)
      then show ?thesis using run assms s2
        by (cases "op_ReleaseID ops ss i") (auto simp: srv_effect_def ss_def i_def monad_simps ReleaseID_srv_def)
    qed (use run assms s2 in \<open>auto simp: srv_effect_def ss_def i_def\<close>)
  qed
qed

lemma serverHandshake_effect:
  assumes "serverHandshake ops c w = (r, w')"
  shows "srv_effect ops (w_server w) (w_server w')
    (\<lambda>b i. r = Ok () \<and> c_reused (w_conns w' c) = b \<and> c_id (w_conns w' c) = i)"
proof -
  obtain rq w1 where k: "readRecord c serverReq_unmarshal w = (rq, w1)" by fastforce
  have s1: "w_server w1 = w_server w" using keepsD [OF keeps_server_records(2) k] .
  show ?thesis
  proof (cases rq)
    case (Ok sq)
    show ?thesis
    proof (cases sq)
      case (NewReq q)
      then have "serverNewHandshake ops c q w1 = (r, w')" using assms k Ok by (simp add: serverHandshake_def monad_simps)
      from serverNewHandshake_effect [OF this] show ?thesis by (simp add: s1)
    next
      case (ReuseReq q)
      then have h: "serverReuseHandshake ops c q w1 = (r, w')" using assms k Ok by (simp add: serverHandshake_def monad_simps)
      then show ?thesis
        using keepsD [OF keeps_server_reuse h] s1 serverReuseHandshake_ok [of ops c q w1 w'] by (auto simp: srv_effect_def)
    qed
  qed (use assms k s1 in \<open>auto simp: serverHandshake_def monad_simps srv_effect_def\<close>)
qed

text \<open>\<open>Handshake\<close> of a connection that \<open>Server\<close> has just made.\<close>

lemma Handshake_effect:
  assumes "Handshake ops c w = (r, w')" "\<not> c_handshaked (w_conns w c)" "cf_ScpServer (c_config (w_conns w c))"
  shows "srv_effect ops (w_server w) (w_server w')
    (\<lambda>b i. r = Ok None \<and> c_reused (w_conns w' c) = b \<and> c_id (w_conns w' c) = i)"
proof -
  have once: "srv_effect ops (w_server v) (w_server v')
      (\<lambda>b i. s = Ok None \<and> c_reused (w_conns v' c) = b \<and> c_id (w_conns v' c) = i)"
    if h: "handshake_once ops c v = (s, v')" and c: "w_conns v c = w_conns w c" for v v' s
  proof -
    obtain r1 v1 where 1: "serverHandshake ops c v = (r1, v1)" by fastforce
    let ?up = "\<lambda>e. v1\<lparr>w_conns := (w_conns v1)(c := (setConnErr e (w_conns v1 c))\<lparr>c_handshaked := True\<rparr>)\<rparr>"
    have "handshake_once ops c v = (case r1 of Ok _ \<Rightarrow> (Ok None, ?up None) | Fail e \<Rightarrow> (Ok (Some e), ?up (Some e))
        | Panic m \<Rightarrow> (Panic m, v1) | Hang \<Rightarrow> (Hang, v1))"
      using 1 c assms(2,3) by (cases r1) (simp_all add: handshake_once_def IsServerConn_def monad_simps Let_def)
    then have v': "w_server v' = w_server v1 \<and> c_reused (w_conns v' c) = c_reused (w_conns v1 c) \<and>
        c_id (w_conns v' c) = c_id (w_conns v1 c) \<and> (s = Ok None \<longrightarrow> r1 = Ok ())"
      using h by (cases r1) (auto simp: setConnErr_def)
    have "srv_effect ops ss ss' d \<Longrightarrow> (\<And>b i. d' b i \<Longrightarrow> d b i) \<Longrightarrow> srv_effect ops ss ss' d'" for ss ss' d d'
      unfolding srv_effect_def by blast
    from this [OF serverHandshake_effect [OF 1]]
    have "srv_effect ops (w_server v) (w_server v1) (\<lambda>b i. s = Ok None \<and> c_reused (w_conns v1 c) = b \<and> c_id (w_conns v1 c) = i)"
      by this (use v' in blast)
    with v' show ?thesis by simp
  qed
  show ?thesis
  proof (cases "0 < w_HandshakeTimeout w")
    case True
    let ?v = "set_deadline c (Some (w_now w + w_HandshakeTimeout w)) w"
    obtain s v' where h: "handshake_once ops c ?v = (s, v')" by fastforce
    have "r = s" "w' = set_deadline c None v'" using assms(1) True h by (simp_all add: Handshake_def)
    then show ?thesis using once [OF h] by (simp add: set_deadline_def Let_def)
  next
    case False
    then show ?thesis using once [of w r w'] assms(1) by (simp add: Handshake_def)
  qed
qed

section \<open>Clients\<close>

lemma keeps_server_client [keeps_intros]:
  "keeps w_server (clientNewHandshake c)" "keeps w_server (clientReuseHandshake c)" "keeps w_server (clientHandshake c)"
  unfolding clientNewHandshake_def clientReuseHandshake_def clientHandshake_def by (intro keeps_intros)+

lemma keeps_server_Client [keeps_intros]: "keeps w_server (Client n cf)"
  unfolding Client_def by (intro keeps_intros)

lemma keeps_server_out_Write [keeps_intros]: "keeps w_server (out_Write c p)"
  unfolding out_Write_def multi_Write_def by (intro keeps_intros keeps_modM; simp)

text \<open>The handshake of a client, and of a connection that has done it, does not concern the server.\<close>

lemma Handshake_client:
  assumes "Handshake ops c w = (r, w')" "c_handshaked (w_conns w c) \<or> \<not> cf_ScpServer (c_config (w_conns w c))"
  shows "w_server w' = w_server w \<and> (r = Ok None \<longrightarrow> c_handshaked (w_conns w' c))"
proof -
  have once: "w_server v' = w_server v \<and> (s = Ok None \<longrightarrow> c_handshaked (w_conns v' c))"
    if h: "handshake_once ops c v = (s, v')" and c: "w_conns v c = w_conns w c" for v v' s
  proof (cases "c_handshaked (w_conns v c)")
    case True
    then show ?thesis using h by (auto simp: handshake_once_def monad_simps)
  next
    case False
    obtain r1 v1 where 1: "clientHandshake c v = (r1, v1)" by fastforce
    have "w_server v1 = w_server v" by (rule keepsD [OF keeps_server_client(3) 1])
    then show ?thesis using h 1 False c assms(2)
      by (cases r1) (auto simp: handshake_once_def IsServerConn_def monad_simps Let_def)
  qed
  show ?thesis
  proof (cases "0 < w_HandshakeTimeout w")
    case True
    let ?v = "set_deadline c (Some (w_now w + w_HandshakeTimeout w)) w"
    obtain s v' where h: "handshake_once ops c ?v = (s, v')" by fastforce
    have "r = s" "w' = set_deadline c None v'" using assms(1) True h by (simp_all add: Handshake_def)
    then show ?thesis using once [OF h] by (simp add: set_deadline_def Let_def)
  next
    case False
    then show ?thesis using once [of w r w'] assms(1) by (simp add: Handshake_def)
  qed
qed

lemma Conn_Write_server:
  assumes "c_handshaked (w_conns w c)"
  shows "w_server (snd (Conn_Write ops c p w)) = w_server w"
proof -
  obtain r w1 where h: "Handshake ops c w = (r, w1)" by fastforce
  have 1: "w_server w1 = w_server w" using Handshake_client [OF h] assms by simp
  have "w_server (snd (out_Write c p w1)) = w_server w1" using keeps_server_out_Write by (auto simp: keeps_def)
  then show ?thesis using h 1 by (auto simp: Conn_Write_def monad_simps split: res.split option.split)
qed

end
