(* ===== verification/Scp_Server.thy ===== *)
theory Scp_Server
  imports Id_Allocator Scp_Session Goscon_Config Scp_Frame
begin

text \<open>
  \<open>server.go\<close> and \<open>metric.go\<close>: the server, its table of connection pairs, and the handler of an accepted connection.

  The record \<open>SCPServer\<close> is what is behind the interface \<open>scp.SCPServer\<close>: the allocator of ids, the table of pairs, the
  pairs and sessions it points to, and the counters. \<open>goscon_ops\<close> gives the three methods of the
  interface, so that the handshakes of \<open>scp/conn.go\<close> run on this server.

  \<open>handleConn\<close> runs in a goroutine of its own for every connection. Its code is cut at the critical sections into
  control points \<open>hpc\<close>; \<open>handler_step\<close> is the code from one to the next, \<open>unwind\<close> where the deferred calls
  take over after a panic. The relation \<open>hstep\<close> interleaves any number of handlers with everything else that may
  happen to the connections. A handshake is one step: it looks at the server once, when it asks for an id or
  for the old connection.
\<close>

section \<open>State\<close>

record metrics =
  mt_connectionAccepts :: int
  mt_connectionAcceptFails :: int
  mt_connectionCloses :: int
  mt_handshakeErrors :: "string \<Rightarrow> int"
  mt_connectionReuses :: int
  mt_connectionResend :: "int list"
  mt_connectionReuseFails :: int
  mt_upstreamErrors :: int

text \<open>The connection to the backend: a TCP connection or a session.\<close>

datatype local_conn = NoLocal | LocalTcp nat | LocalScp nat

record connPair =
  cp_LocalConn :: local_conn
  cp_RemoteConn :: nat

record SCPServer =
  ss_idAllocator :: IDAllocator
  ss_connPairs :: "int \<rightharpoonup> nat"
  ss_pairs :: "nat \<Rightarrow> connPair"
  ss_sessions :: "nat \<Rightarrow> mon"
  ss_next :: nat
  ss_metrics :: metrics

type_synonym 'v program = "(SCPServer, 'v) goscon"

section \<open>The interface SCPServer\<close>

definition srv_AcquireID :: "SCPServer \<Rightarrow> int \<times> SCPServer" where
  "srv_AcquireID ss = (case AcquireID (ss_idAllocator ss) of (i, a) \<Rightarrow> (i, ss\<lparr>ss_idAllocator := a\<rparr>))"

definition srv_ReleaseID :: "SCPServer \<Rightarrow> int \<Rightarrow> SCPServer res" where
  "srv_ReleaseID ss i = map_res (\<lambda>a. ss\<lparr>ss_idAllocator := a\<rparr>) (ReleaseID (ss_idAllocator ss) i)"

definition getConnPair :: "SCPServer \<Rightarrow> int \<Rightarrow> nat option" where
  "getConnPair ss i = ss_connPairs ss i"

definition srv_QueryByID :: "SCPServer \<Rightarrow> int \<Rightarrow> nat option" where
  "srv_QueryByID ss i = (case getConnPair ss i of
     Some pair \<Rightarrow> Some (s_Conn (m_s (ss_sessions ss (cp_RemoteConn (ss_pairs ss pair)))))
   | None \<Rightarrow> None)"

definition goscon_ops :: "SCPServer SCPServer_ops" where
  "goscon_ops = \<lparr>op_AcquireID = srv_AcquireID, op_ReleaseID = srv_ReleaseID, op_QueryByID = srv_QueryByID\<rparr>"

text \<open>The server the program starts with.\<close>

definition defaultServer :: "SCPServer res" where
  "defaultServer = map_res (\<lambda>a. \<lparr>ss_idAllocator = a, ss_connPairs = Map.empty,
     ss_pairs = (\<lambda>_. \<lparr>cp_LocalConn = NoLocal, cp_RemoteConn = 0\<rparr>), ss_sessions = (\<lambda>_. NewSCPConn 0 0), ss_next = 0,
     ss_metrics = \<lparr>mt_connectionAccepts = 0, mt_connectionAcceptFails = 0, mt_connectionCloses = 0, mt_handshakeErrors = (\<lambda>_. 0),
       mt_connectionReuses = 0, mt_connectionResend = [], mt_connectionReuseFails = 0, mt_upstreamErrors = 0\<rparr>\<rparr>) (NewIDAllocator 1)"

section \<open>The table of pairs\<close>

definition onServer :: "(SCPServer \<Rightarrow> 'a res \<times> SCPServer) \<Rightarrow> (SCPServer world, 'a) M" where
  "onServer f = (\<lambda>w. case f (w_server w) of (r, ss) \<Rightarrow> (r, w\<lparr>w_server := ss\<rparr>))"

definition addConnPair :: "int \<Rightarrow> nat \<Rightarrow> (SCPServer, unit) M" where
  "addConnPair i pair = (\<lambda>ss.
     if ss_connPairs ss i \<noteq> None then (Panic (itoa i), ss)
     else (Ok (), ss\<lparr>ss_connPairs := (ss_connPairs ss)(i \<mapsto> pair)\<rparr>))"

definition removeConnPair :: "int \<Rightarrow> (SCPServer, unit) M" where
  "removeConnPair i = modM (\<lambda>ss. ss\<lparr>ss_connPairs := (ss_connPairs ss)(i := None)\<rparr>)"

definition new_session :: "mon \<Rightarrow> (SCPServer, nat) M" where
  "new_session m = (\<lambda>ss. (Ok (ss_next ss), ss\<lparr>ss_sessions := (ss_sessions ss)(ss_next ss := m), ss_next := Suc (ss_next ss)\<rparr>))"

definition new_pair :: "connPair \<Rightarrow> (SCPServer, nat) M" where
  "new_pair p = (\<lambda>ss. (Ok (ss_next ss), ss\<lparr>ss_pairs := (ss_pairs ss)(ss_next ss := p), ss_next := Suc (ss_next ss)\<rparr>))"

definition metric :: "(metrics \<Rightarrow> metrics) \<Rightarrow> (SCPServer world, unit) M" where
  "metric f = onServer (modM (\<lambda>ss. ss\<lparr>ss_metrics := f (ss_metrics ss)\<rparr>))"

text \<open>\<open>errors.As(err, &serr)\<close> succeeds exactly for the errors of the package \<open>scp\<close>.\<close>

definition metricOnHandshakeError :: "goerr \<Rightarrow> (SCPServer world, unit) M" where
  "metricOnHandshakeError err =
     (let code = (case err of ScpErr code _ \<Rightarrow> itoa code | _ \<Rightarrow> itoa SCPStatusNetworkError)
      in metric (\<lambda>m. m\<lparr>mt_handshakeErrors := (mt_handshakeErrors m)(code := mt_handshakeErrors m code + 1)\<rparr>))"

text \<open>A method of the session at an address of the server.\<close>

definition onSession :: "nat \<Rightarrow> (SCPServer world \<times> mon, 'a) M \<Rightarrow> (SCPServer world, 'a) M" where
  "onSession a f = (\<lambda>w. case f (w, ss_sessions (w_server w) a) of
     (r, w', m) \<Rightarrow> (r, w'\<lparr>w_server := (w_server w')\<lparr>ss_sessions := (ss_sessions (w_server w'))(a := m)\<rparr>\<rparr>))"

section \<open>Handlers\<close>

definition IsReused :: "Conn \<Rightarrow> bool" where
  "IsReused c = c_reused c"

definition ReuseState :: "Conn \<Rightarrow> int" where
  "ReuseState c = c_resend c"

definition reuse_fails :: "nat \<Rightarrow> (SCPServer world, bool) M" where
  "reuse_fails scon =
     bindM (Conn_Close scon) (\<lambda>_.
     bindM (metric (\<lambda>m. m\<lparr>mt_connectionReuseFails := mt_connectionReuseFails m + 1\<rparr>)) (\<lambda>_. retM False))"

definition onReuseConn :: "nat \<Rightarrow> (SCPServer world, bool) M" where
  "onReuseConn scon =
     bindM (conn_of scon) (\<lambda>cc.
     bindM (getM (\<lambda>w. getConnPair (w_server w) (c_id cc))) (\<lambda>pair.
     bindM (metric (\<lambda>m. m\<lparr>mt_connectionResend := mt_connectionResend m @ [ReuseState cc]\<rparr>)) (\<lambda>_.
     case pair of
       None \<Rightarrow> reuse_fails scon
     | Some p \<Rightarrow>
         bindM (getM (\<lambda>w. cp_RemoteConn (ss_pairs (w_server w) p))) (\<lambda>remote.
         bindM (onSession remote (ReplaceConn scon)) (\<lambda>ok.
         if \<not> ok then reuse_fails scon
         else bindM (metric (\<lambda>m. m\<lparr>mt_connectionReuses := mt_connectionReuses m + 1\<rparr>)) (\<lambda>_. retM True))))))"

definition onWU :: "(SCPServer world \<times> upstreams, 'a) M \<Rightarrow> ('v program, 'a) M" where
  "onWU f = (\<lambda>g. case f (g_w g, g_up g) of (r, w', u') \<Rightarrow> (r, g\<lparr>g_w := w', g_up := u'\<rparr>))"

definition newUpstreamConn :: "net_env \<Rightarrow> 'v viper_ops \<Rightarrow> SCPServer hook option \<Rightarrow> nat \<Rightarrow> ('v program, local_conn \<times> goerr option) M" where
  "newUpstreamConn env vp hook scon =
     bindM (onWU (NewConn env goscon_ops hook scon)) (\<lambda>(localconn, err).
     if err \<noteq> None then retM (NoLocal, err)
     else case localconn of
       ScpConn c \<Rightarrow>
         bindM (configItemTime vp ''scp.reuse_time'') (\<lambda>t.
         bindM (onWorld (onServer (new_session (NewLocalSCPConn c t)))) (\<lambda>a. retM (LocalScp a, None)))
     | TcpConn n \<Rightarrow> retM (LocalTcp n, None)
     | NilConn \<Rightarrow> retM (NoLocal, None))"

text \<open>Where a handler is: accepted; after a handshake that resumed a session, or one that began a session with an
  id; after the pair was added; pumping; at the deferred calls of \<open>onNewConn\<close>; at the deferred call of
  \<open>handleConn\<close>.\<close>

datatype hpc =
    Accepted nat
  | Reusing nat
  | Registering nat int
  | Connecting nat int nat
  | Pumping nat int nat
  | Removing int
  | Releasing int
  | Leaving

text \<open>\<open>handleConn\<close> up to the handlers of the two kinds of connection.\<close>

definition handle_handshake :: "nat \<Rightarrow> (SCPServer world, hpc) M" where
  "handle_handshake conn =
     bindM (metric (\<lambda>m. m\<lparr>mt_connectionAccepts := mt_connectionAccepts m + 1\<rparr>)) (\<lambda>_.
     bindM (Server conn \<lparr>cf_Flag = 0, cf_TargetServer = [], cf_ConnForReused = None, cf_ScpServer = True\<rparr>) (\<lambda>scon.
     bindM (Handshake goscon_ops scon) (\<lambda>err. case err of
       Some e \<Rightarrow> bindM (Conn_Close scon) (\<lambda>_. bindM (metricOnHandshakeError e) (\<lambda>_. retM Leaving))
     | None \<Rightarrow> bindM (conn_of scon) (\<lambda>cc.
         retM (if IsReused cc then Reusing scon else Registering scon (c_id cc))))))"

text \<open>\<open>onNewConn\<close>: the pair is made and added.\<close>

definition onNewConn_register :: "'v viper_ops \<Rightarrow> nat \<Rightarrow> int \<Rightarrow> ('v program, hpc) M" where
  "onNewConn_register vp scon i =
     bindM (configItemTime vp ''scp.reuse_time'') (\<lambda>t.
     bindM (onWorld (onServer (new_session (NewSCPConn scon t)))) (\<lambda>s.
     bindM (onWorld (onServer (new_pair \<lparr>cp_LocalConn = NoLocal, cp_RemoteConn = s\<rparr>))) (\<lambda>p.
     bindM (onWorld (onServer (addConnPair i p))) (\<lambda>_.
     retM (Connecting scon i p)))))"

definition onNewConn_connect :: "net_env \<Rightarrow> 'v viper_ops \<Rightarrow> SCPServer hook option \<Rightarrow> nat \<Rightarrow> int \<Rightarrow> nat \<Rightarrow> ('v program, hpc) M" where
  "onNewConn_connect env vp hook scon i p =
     bindM (newUpstreamConn env vp hook scon) (\<lambda>(localConn, err).
     if err \<noteq> None then
       bindM (onWorld (Conn_Close scon)) (\<lambda>_.
       bindM (onWorld (metric (\<lambda>m. m\<lparr>mt_upstreamErrors := mt_upstreamErrors m + 1\<rparr>))) (\<lambda>_.
       retM (Removing i)))
     else
       bindM (onWorld (onServer (modM (\<lambda>ss. ss\<lparr>ss_pairs := (ss_pairs ss)(p := (ss_pairs ss p)\<lparr>cp_LocalConn := localConn\<rparr>)\<rparr>)))) (\<lambda>_.
       retM (Pumping scon i p)))"

text \<open>The code from one control point to the next. \<open>Pump\<close> returns when both directions have ended.\<close>

fun handler_step :: "net_env \<Rightarrow> 'v viper_ops \<Rightarrow> SCPServer hook option \<Rightarrow> hpc \<Rightarrow> ('v program, hpc) M" where
  "handler_step env vp hook (Accepted conn) = onWorld (handle_handshake conn)"
| "handler_step env vp hook (Reusing scon) = bindM (onWorld (onReuseConn scon)) (\<lambda>_. retM Leaving)"
| "handler_step env vp hook (Registering scon i) = onNewConn_register vp scon i"
| "handler_step env vp hook (Connecting scon i p) = onNewConn_connect env vp hook scon i p"
| "handler_step env vp hook (Pumping scon i p) = retM (Removing i)"
| "handler_step env vp hook (Removing i) = bindM (onWorld (onServer (removeConnPair i))) (\<lambda>_. retM (Releasing i))"
| "handler_step env vp hook (Releasing i) = bindM (onWorld (ReleaseID_srv goscon_ops i)) (\<lambda>_. retM Leaving)"
| "handler_step env vp hook Leaving = retM Leaving"

text \<open>Where a panic takes the handler: to the calls deferred so far.\<close>

fun unwind :: "hpc \<Rightarrow> hpc" where
  "unwind (Registering scon i) = Releasing i"
| "unwind (Connecting scon i p) = Removing i"
| "unwind (Pumping scon i p) = Removing i"
| "unwind (Removing i) = Releasing i"
| "unwind h = Leaving"

record 'v gsys =
  gs_g :: "'v program"
  gs_h :: "nat \<Rightarrow> hpc option"

text \<open>The server of a state of the program.\<close>

abbreviation srv :: "'v program \<Rightarrow> SCPServer" where
  "srv g \<equiv> w_server (g_w g)"

text \<open>What the rest of the program does between the steps of the handlers leaves the allocator, the table and the two counters that only
  handlers change alone.\<close>

definition other_change :: "'v program \<Rightarrow> 'v program \<Rightarrow> bool" where
  "other_change g g' \<longleftrightarrow> ss_idAllocator (srv g') = ss_idAllocator (srv g) \<and> ss_connPairs (srv g') = ss_connPairs (srv g) \<and>
     mt_connectionAccepts (ss_metrics (srv g')) = mt_connectionAccepts (ss_metrics (srv g)) \<and>
     mt_connectionCloses (ss_metrics (srv g')) = mt_connectionCloses (ss_metrics (srv g))"

inductive hstep :: "net_env \<Rightarrow> 'v viper_ops \<Rightarrow> SCPServer hook option \<Rightarrow> 'v gsys \<Rightarrow> 'v gsys \<Rightarrow> bool" for env vp hook where
  Go: "gs_h s t = None \<Longrightarrow> hstep env vp hook s (s\<lparr>gs_h := (gs_h s)(t \<mapsto> Accepted conn)\<rparr>)"
| Step: "gs_h s t = Some h \<Longrightarrow> handler_step env vp hook h (gs_g s) = (Ok h', g') \<Longrightarrow>
    hstep env vp hook s \<lparr>gs_g = g', gs_h = (gs_h s)(t \<mapsto> h')\<rparr>"
| Panics: "gs_h s t = Some h \<Longrightarrow> handler_step env vp hook h (gs_g s) = (Panic m, g') \<Longrightarrow>
    hstep env vp hook s \<lparr>gs_g = g', gs_h = (gs_h s)(t \<mapsto> unwind h)\<rparr>"
| Leave: "gs_h s t = Some Leaving \<Longrightarrow>
    onWorld (metric (\<lambda>m. m\<lparr>mt_connectionCloses := mt_connectionCloses m + 1\<rparr>)) (gs_g s) = (Ok (), g') \<Longrightarrow>
    hstep env vp hook s \<lparr>gs_g = g', gs_h = (gs_h s)(t := None)\<rparr>"
| Other: "other_change (gs_g s) g' \<Longrightarrow> hstep env vp hook s (s\<lparr>gs_g := g'\<rparr>)"

section \<open>Serving a listener\<close>

text \<open>What \<open>Accept\<close> returns: a connection, an \<open>OpError\<close> that is temporary, or another error.\<close>

datatype accepted = AcceptConn nat | AcceptTemporary goerr | AcceptFailed goerr

datatype serve_event = Handle nat | Sleep int | AcceptFail

definition Millisecond :: int where
  "Millisecond = 1000000"

definition nextDelay :: "int \<Rightarrow> int" where
  "nextDelay tempDelay =
     (let d = (if tempDelay = 0 then 5 * Millisecond else tempDelay * 2);
          max = 1000 * Millisecond
      in if d > max then max else d)"

text \<open>The loop over the results of \<open>Accept\<close>: what it does, and the error it returns. The loop is still waiting in \<open>Accept\<close>
  when the results are used up.\<close>

fun Serve :: "int \<Rightarrow> accepted list \<Rightarrow> serve_event list \<times> goerr option" where
  "Serve tempDelay [] = ([], None)"
| "Serve tempDelay (AcceptConn conn # rs) = (case Serve 0 rs of (evs, e) \<Rightarrow> (Handle conn # evs, e))"
| "Serve tempDelay (AcceptTemporary err # rs) =
     (case Serve (nextDelay tempDelay) rs of (evs, e) \<Rightarrow> (AcceptFail # Sleep (nextDelay tempDelay) # evs, e))"
| "Serve tempDelay (AcceptFailed err # rs) = ([AcceptFail], Some err)"

section \<open>What the handlers leave alone\<close>

text \<open>The hook that the program installs: none, or the one of \<open>sproto_hook.go\<close>.\<close>

definition program_hook :: "net_env \<Rightarrow> SCPServer hook option \<Rightarrow> bool" where
  "program_hook env hook \<longleftrightarrow> hook = None \<or> (\<exists>optSproto parsed. hook = Some (AfterConnected env goscon_ops optSproto parsed))"

definition ready :: "upconn \<Rightarrow> 'srv world \<Rightarrow> bool" where
  "ready conn w \<longleftrightarrow> (\<forall>c. conn = ScpConn c \<longrightarrow> c_handshaked (w_conns w c))"

lemma upconn_Write_server: "ready conn w \<Longrightarrow> w_server (snd (upconn_Write ops conn p w)) = w_server w"
  by (cases conn) (simp_all add: upconn_Write_def monad_simps ready_def Conn_Write_server)

lemma AfterConnected_server:
  assumes "ready local w"
  shows "w_server (fst (snd (AfterConnected env ops sp parsed local remote (w, u)))) = w_server w"
proof (cases "\<not> parsed \<or> sp = -1 \<or> ForbidForwardIP (w_conns w remote)")
  case True
  then show ?thesis by (auto simp: AfterConnected_def monad_simps onW_def conn_of_eq)
next
  case False
  have "w_server (snd (upconn_Write ops local p w)) = w_server w" for p by (rule upconn_Write_server [OF assms])
  then show ?thesis
    using False
    by (auto simp: AfterConnected_def monad_simps onW_def onU_def sprotoHook_init_def Let_def case_prod_beta split: res.split)
qed

lemma upgradeConn_frame:
  assumes "upgradeConn ops net n rc w = (r, w')"
  shows "w_server w' = w_server w \<and> (\<forall>conn. r = Ok (conn, None) \<longrightarrow> ready conn w')"
proof (cases "net = ''scp''")
  case True
  let ?cf = "\<lparr>cf_Flag = SCPFlagForbidForwardIP, cf_TargetServer = cf_TargetServer (c_config (w_conns w rc)),
    cf_ConnForReused = None, cf_ScpServer = False\<rparr>"
  let ?w1 = "w\<lparr>w_conns := (w_conns w)(w_next w := zeroConn n ?cf), w_next := Suc (w_next w)\<rparr>"
  obtain r1 w2 where h: "Handshake ops (w_next w) ?w1 = (r1, w2)" by fastforce
  have "w_server w2 = w_server w \<and> (r1 = Ok None \<longrightarrow> c_handshaked (w_conns w2 (w_next w)))"
    using Handshake_client [OF h] by (simp add: zeroConn_def)
  then show ?thesis
    using assms True h by (cases r1) (auto simp: upgradeConn_def monad_simps Client_def Let_def alloc_conn_def ready_def split: option.splits)
next
  case False
  then show ?thesis using assms by (auto simp: upgradeConn_def monad_simps ready_def)
qed

lemma OnAfterConnected_server:
  assumes "program_hook env hook" "ready conn w"
  shows "w_server (fst (snd (OnAfterConnected hook conn rc (w, u)))) = w_server w"
  using assms AfterConnected_server [OF assms(2), of env goscon_ops]
  by (auto simp: OnAfterConnected_def program_hook_def monad_simps)

text \<open>The server of a state of connections and hosts.\<close>

abbreviation wsrv :: "SCPServer world \<times> upstreams \<Rightarrow> SCPServer" where
  "wsrv \<equiv> (\<lambda>s. w_server (fst s))"

lemma keeps_onW [keeps_intros]: "keeps w_server m \<Longrightarrow> keeps wsrv (onW m)"
  by (auto simp: keeps_def onW_def split: prod.split) (metis snd_conv)

lemma keeps_onU [keeps_intros]: "keeps wsrv (onU m)"
  by (auto simp: keeps_def onU_def split: prod.split)

lemma keeps_server_net [keeps_intros]: "keeps w_server (alloc_net x)" "keeps w_server (upconn_Close conn)"
proof -
  show "keeps w_server (alloc_net x)" by (simp add: keeps_def alloc_net_def)
  show "keeps w_server (upconn_Close conn)"
    by (cases conn) (simp_all add: upconn_Close_def keeps_prims keeps_bindM keeps_server_steps keeps_server_close)
qed

lemma keeps_dial_rest:
  assumes "program_hook env hook"
  shows "keeps wsrv (bindM (onW (upgradeConn goscon_ops net n rc)) (\<lambda>(conn, err). case err of
           Some e \<Rightarrow> bindM (onW (upconn_Close conn)) (\<lambda>_. retM (conn, Some e))
         | None \<Rightarrow> bindM (OnAfterConnected hook conn rc) (\<lambda>err. retM (conn, err))))"
proof (rule keeps_state)
  fix wu :: "SCPServer world \<times> upstreams"
  obtain w u where wu: "wu = (w, u)" by fastforce
  obtain r w1 where up: "upgradeConn goscon_ops net n rc w = (r, w1)" by fastforce
  note fr = upgradeConn_frame [OF up]
  have cl: "w_server (snd (upconn_Close conn w1)) = w_server w1" for conn
    by (rule keeps_server_net(2) [unfolded keeps_def, rule_format])
  show "wsrv (snd (bindM (onW (upgradeConn goscon_ops net n rc)) (\<lambda>(conn, err). case err of
           Some e \<Rightarrow> bindM (onW (upconn_Close conn)) (\<lambda>_. retM (conn, Some e))
         | None \<Rightarrow> bindM (OnAfterConnected hook conn rc) (\<lambda>err. retM (conn, err))) wu)) = wsrv wu"
  proof (cases r)
    case (Ok x)
    obtain conn err where x: "x = (conn, err)" by fastforce
    show ?thesis
    proof (cases err)
      case None
      then have "ready conn w1" using fr Ok x by simp
      from OnAfterConnected_server [OF assms this, of rc u] show ?thesis
        using None Ok x up fr by (auto simp: wu monad_simps onW_def split: prod.split res.split)
    next
      case (Some e)
      then show ?thesis using Ok x up fr cl [of conn]
        by (auto simp: wu monad_simps onW_def split: prod.split res.split)
    qed
  qed (use up fr in \<open>simp_all add: wu monad_simps onW_def\<close>)
qed

lemma keeps_NewConn:
  assumes "program_hook env hook"
  shows "keeps wsrv (NewConn env goscon_ops hook rc)"
  unfolding NewConn_def NewConn_dial_def
  by (intro keeps_intros keeps_dial_rest [OF assms])

text \<open>The allocator and the table, which the invariant is about.\<close>

definition core :: "SCPServer \<Rightarrow> IDAllocator \<times> (int \<rightharpoonup> nat)" where
  "core ss = (ss_idAllocator ss, ss_connPairs ss)"

abbreviation wcore :: "SCPServer world \<Rightarrow> IDAllocator \<times> (int \<rightharpoonup> nat)" where
  "wcore \<equiv> (\<lambda>w. core (w_server w))"

abbreviation gcore :: "'v program \<Rightarrow> IDAllocator \<times> (int \<rightharpoonup> nat)" where
  "gcore \<equiv> (\<lambda>g. core (w_server (g_w g)))"

lemma keeps_wcore: "keeps w_server m \<Longrightarrow> keeps wcore m"
  by (simp add: keeps_def)

lemma keeps_onServer: "keeps core m \<Longrightarrow> keeps wcore (onServer m)"
  by (auto simp: keeps_def onServer_def split: prod.split) (metis snd_conv)

lemma keeps_core [keeps_intros]: "keeps wcore (metric f)" "keeps wcore (metricOnHandshakeError e)"
  "keeps core (new_session m)" "keeps core (new_pair p)"
proof -
  show m: "keeps wcore (metric f)" for f
    unfolding metric_def by (intro keeps_onServer keeps_modM) (simp add: core_def)
  show "keeps wcore (metricOnHandshakeError e)" unfolding metricOnHandshakeError_def Let_def by (rule m)
qed (simp_all add: keeps_def new_session_def new_pair_def core_def)

lemma keeps_onWorld [keeps_intros]: "keeps wcore m \<Longrightarrow> keeps gcore (onWorld m)"
  by (auto simp: keeps_def onWorld_def split: prod.split) (metis snd_conv)

lemma keeps_onWU: "keeps wsrv m \<Longrightarrow> keeps gcore (onWU m)"
  by (auto simp: keeps_def onWU_def split: prod.split) (metis fst_conv snd_conv)

lemma keeps_config [keeps_intros]: "keeps gcore (configItemTime vp name)"
  unfolding configItemTime_def configItemInt_def
  by (intro keeps_intros keeps_modM; auto simp: keeps_def monad_simps split: cfgval.split)

lemma keeps_reuse [keeps_intros]: "keeps wcore (onReuseConn scon)"
proof -
  have "keeps wcore (onSession a (ReplaceConn scon))" for a
  proof (rule keeps_state)
    fix w :: "SCPServer world"
    let ?c = "s_Conn (m_s (ss_sessions (w_server w) a))"
    have "w_server (snd (Conn_Close ?c w)) = w_server w" by (rule keeps_server_close(2) [unfolded keeps_def, rule_format])
    then show "wcore (snd (onSession a (ReplaceConn scon) w)) = wcore w"
      by (cases "Conn_Close ?c w"; cases "fst (Conn_Close ?c w)") (auto simp: onSession_def ReplaceConn_def core_def)
  qed
  then show ?thesis unfolding onReuseConn_def reuse_fails_def
    by (intro keeps_intros keeps_conn_of keeps_wcore [OF keeps_server_close(2)])
qed

lemma keeps_newUpstreamConn [keeps_intros]:
  assumes "program_hook env hook"
  shows "keeps gcore (newUpstreamConn env vp hook scon)"
  unfolding newUpstreamConn_def
proof (intro keeps_intros)
  show "keeps gcore (onWU (NewConn env goscon_ops hook scon))" by (rule keeps_onWU [OF keeps_NewConn [OF assms]])
  show "keeps gcore (case conn of NilConn \<Rightarrow> retM (NoLocal, None) | TcpConn n \<Rightarrow> retM (LocalTcp n, None)
      | ScpConn c \<Rightarrow> bindM (configItemTime vp ''scp.reuse_time'') (\<lambda>t.
         bindM (onWorld (onServer (new_session (NewLocalSCPConn c t)))) (\<lambda>a. retM (LocalScp a, None))))" for conn
    by (cases conn) (simp_all add: keeps_intros keeps_onServer)
qed

lemma keeps_connect [keeps_intros]:
  assumes "program_hook env hook"
  shows "keeps gcore (onNewConn_connect env vp hook scon i p)"
  unfolding onNewConn_connect_def
  by (intro keeps_intros assms keeps_wcore [OF keeps_server_close(2)] keeps_onServer keeps_modM) (simp add: core_def)

section \<open>The invariant of the server\<close>

text \<open>The id a handler holds, and whether its pair is in the table.\<close>

fun id_of :: "hpc \<Rightarrow> int option" where
  "id_of (Registering c i) = Some i"
| "id_of (Connecting c i p) = Some i"
| "id_of (Pumping c i p) = Some i"
| "id_of (Removing i) = Some i"
| "id_of (Releasing i) = Some i"
| "id_of _ = None"

fun paired :: "hpc \<Rightarrow> int option" where
  "paired (Connecting c i p) = Some i"
| "paired (Pumping c i p) = Some i"
| "paired (Removing i) = Some i"
| "paired _ = None"

definition inv_at :: "IDAllocator \<times> (int \<rightharpoonup> nat) \<Rightarrow> (nat \<Rightarrow> hpc option) \<Rightarrow> bool" where
  "inv_at = (\<lambda>(a, P) hs. wf_ida a \<and>
     (\<forall>t h i. hs t = Some h \<longrightarrow> id_of h = Some i \<longrightarrow> i \<in> outstanding a) \<and>
     (\<forall>t t' h h' i. hs t = Some h \<longrightarrow> hs t' = Some h' \<longrightarrow> id_of h = Some i \<longrightarrow> id_of h' = Some i \<longrightarrow> t = t') \<and>
     (\<forall>i. P i \<noteq> None \<longleftrightarrow> (\<exists>t h. hs t = Some h \<and> paired h = Some i)))"

abbreviation server_inv :: "'v gsys \<Rightarrow> bool" where
  "server_inv s \<equiv> inv_at (gcore (gs_g s)) (gs_h s)"

lemma paired_id: "paired h = Some i \<Longrightarrow> id_of h = Some i"
  by (cases h) auto

lemma inv_atD:
  assumes "inv_at (a, P) hs"
  shows "wf_ida a" "hs t = Some h \<Longrightarrow> id_of h = Some i \<Longrightarrow> i \<in> outstanding a"
    "hs t = Some h \<Longrightarrow> hs t' = Some h' \<Longrightarrow> id_of h = Some i \<Longrightarrow> id_of h' = Some i \<Longrightarrow> t' = t"
    "P i \<noteq> None \<longleftrightarrow> (\<exists>t h. hs t = Some h \<and> paired h = Some i)"
  using assms unfolding inv_at_def prod.case by (blast, blast, metis, blast)

lemma inv_move:
  assumes "inv_at (a, P) hs" "hs t = Some h" "wf_ida a'"
    and others: "\<And>t' h' i. t' \<noteq> t \<Longrightarrow> hs t' = Some h' \<Longrightarrow> id_of h' = Some i \<Longrightarrow> i \<in> outstanding a'"
    and new: "\<And>i. id_of h' = Some i \<Longrightarrow> i \<in> outstanding a' \<and> (\<forall>t' h''. t' \<noteq> t \<longrightarrow> hs t' = Some h'' \<longrightarrow> id_of h'' \<noteq> Some i)"
    and pairs: "\<And>i. P' i \<noteq> None \<longleftrightarrow> paired h' = Some i \<or> (P i \<noteq> None \<and> paired h \<noteq> Some i)"
  shows "inv_at (a', P') (hs(t \<mapsto> h'))"
proof -
  note I = inv_atD(3,4) [OF assms(1)]
  have "P' i \<noteq> None \<longleftrightarrow> (\<exists>t' h''. (hs(t \<mapsto> h')) t' = Some h'' \<and> paired h'' = Some i)" for i
  proof -
    have "(\<exists>t' h''. (hs(t \<mapsto> h')) t' = Some h'' \<and> paired h'' = Some i) \<longleftrightarrow>
        paired h' = Some i \<or> (\<exists>t' h''. t' \<noteq> t \<and> hs t' = Some h'' \<and> paired h'' = Some i)" by (auto split: if_splits)
    also have "(\<exists>t' h''. t' \<noteq> t \<and> hs t' = Some h'' \<and> paired h'' = Some i) \<longleftrightarrow> P i \<noteq> None \<and> paired h \<noteq> Some i"
    proof
      assume "\<exists>t' h''. t' \<noteq> t \<and> hs t' = Some h'' \<and> paired h'' = Some i"
      then obtain t' h'' where x: "t' \<noteq> t" "hs t' = Some h''" "paired h'' = Some i" by blast
      then have "paired h \<noteq> Some i" using I(1) [OF x(2) assms(2) paired_id paired_id] by blast
      then show "P i \<noteq> None \<and> paired h \<noteq> Some i" using I(2) x(2,3) by blast
    next
      assume p: "P i \<noteq> None \<and> paired h \<noteq> Some i"
      then obtain t' h'' where x: "hs t' = Some h''" "paired h'' = Some i" using I(2) by blast
      then have "t' \<noteq> t" using p assms(2) by auto
      with x show "\<exists>t' h''. t' \<noteq> t \<and> hs t' = Some h'' \<and> paired h'' = Some i" by blast
    qed
    finally show ?thesis using pairs [of i] by simp
  qed
  moreover have "t1 = t2" if "(hs(t \<mapsto> h')) t1 = Some h1" "(hs(t \<mapsto> h')) t2 = Some h2" "id_of h1 = Some i" "id_of h2 = Some i"
    for t1 t2 h1 h2 i
    using that new [of i] I(1) [of t2 h2 t1 h1 i] by (cases "t1 = t"; cases "t2 = t") auto
  moreover have "i \<in> outstanding a'" if "(hs(t \<mapsto> h')) t1 = Some h1" "id_of h1 = Some i" for t1 h1 i
    using that others [of t1 h1 i] new [of i] by (cases "t1 = t") auto
  ultimately show ?thesis using assms(3) unfolding inv_at_def by blast
qed

section \<open>Steps of the handlers\<close>

text \<open>The effect of a handshake on the allocator: none, an id acquired, or one acquired and released; only an id acquired can
  lead to \<open>Registering\<close>.\<close>

lemma goscon_AcquireID:
  "core (snd (op_AcquireID goscon_ops ss)) = (snd (AcquireID (ss_idAllocator ss)), ss_connPairs ss)"
  "fst (op_AcquireID goscon_ops ss) = fst (AcquireID (ss_idAllocator ss))"
  by (simp_all add: goscon_ops_def srv_AcquireID_def core_def split: prod.split)

lemma goscon_ReleaseID:
  "op_ReleaseID goscon_ops ss i = Ok ss' \<Longrightarrow>
     ReleaseID (ss_idAllocator ss) i = Ok (ss_idAllocator ss') \<and> ss_connPairs ss' = ss_connPairs ss"
  by (auto simp: goscon_ops_def srv_ReleaseID_def map_res_def split: res.splits)

lemma handle_handshake_effect:
  assumes "handle_handshake conn w = (r, w')" "wcore w = (a, P)"
  obtains a' where "wcore w' = (a', P)"
    "a' = a \<and> (\<forall>h. r = Ok h \<longrightarrow> id_of h = None) \<or>
     a' = snd (AcquireID a) \<and> (\<forall>h. r = Ok h \<longrightarrow> id_of h = None \<or> id_of h = Some (fst (AcquireID a))) \<or>
     ReleaseID (snd (AcquireID a)) (fst (AcquireID a)) = Ok a' \<and> (\<forall>h. r = Ok h \<longrightarrow> id_of h = None)"
    "\<And>h. r = Ok h \<Longrightarrow> paired h = None"
proof -
  let ?m = "metric (\<lambda>m. m\<lparr>mt_connectionAccepts := mt_connectionAccepts m + 1\<rparr>)"
  let ?cf = "\<lparr>cf_Flag = 0, cf_TargetServer = [], cf_ConnForReused = None, cf_ScpServer = True\<rparr>"
  obtain w1 where w1: "?m w = (Ok (), w1)" by (simp add: metric_def onServer_def monad_simps)
  have c1: "wcore w1 = (a, P)" using keepsD [OF keeps_core(1) w1] assms(2) by simp
  define w2 where "w2 = w1\<lparr>w_conns := (w_conns w1)(w_next w1 := zeroConn conn (Config_clone ?cf)), w_next := Suc (w_next w1)\<rparr>"
  obtain rh w3 where h: "Handshake goscon_ops (w_next w1) w2 = (rh, w3)" by fastforce
  have c2: "\<not> c_handshaked (w_conns w2 (w_next w1))" "cf_ScpServer (c_config (w_conns w2 (w_next w1)))" "w_server w2 = w_server w1"
    by (simp_all add: w2_def zeroConn_def Config_clone_def)
  define after where "after = (\<lambda>err. case err of
       Some e \<Rightarrow> bindM (Conn_Close (w_next w1)) (\<lambda>_. bindM (metricOnHandshakeError e) (\<lambda>_. retM Leaving))
     | None \<Rightarrow> bindM (conn_of (w_next w1)) (\<lambda>cc.
         retM (if IsReused cc then Reusing (w_next w1) else Registering (w_next w1) (c_id cc))))"
  have "handle_handshake conn w = bindM (Handshake goscon_ops (w_next w1)) after w2"
    using w1 by (simp add: handle_handshake_def monad_simps Server_def alloc_conn_def w2_def after_def)
  with assms(1) have run: "bindM (Handshake goscon_ops (w_next w1)) after w2 = (r, w')" by simp
  have k: "keeps wcore (after err)" for err
    unfolding after_def by (intro keeps_intros keeps_conn_of keeps_wcore [OF keeps_server_close(2)])
  have core': "wcore w' = wcore w3"
  proof (cases rh)
    case (Ok err)
    then have "after err w3 = (r, w')" using run h by (simp add: monad_simps)
    from keepsD [OF k this] show ?thesis .
  qed (use run h in \<open>auto simp: monad_simps\<close>)
  have res: "id_of hh = None \<or> rh = Ok None \<and> \<not> c_reused (w_conns w3 (w_next w1)) \<and> id_of hh = Some (c_id (w_conns w3 (w_next w1)))"
    "paired hh = None" if "r = Ok hh" for hh
    using that run h
    by (auto simp: bindM_eq_Ok prim_simps after_def conn_of_eq IsReused_def split: option.splits if_splits)
  have eff: "srv_effect goscon_ops (w_server w1) (w_server w3)
      (\<lambda>b i. rh = Ok None \<and> c_reused (w_conns w3 (w_next w1)) = b \<and> c_id (w_conns w3 (w_next w1)) = i)"
    using Handshake_effect [OF h c2(1,2)] by (simp add: c2(3))
  have a: "ss_idAllocator (w_server w1) = a" "ss_connPairs (w_server w1) = P" using c1 by (simp_all add: core_def)
  show thesis
    using eff unfolding srv_effect_def goscon_AcquireID(2) a
  proof (elim disjE conjE)
    assume e: "w_server w3 = w_server w1"
      "\<forall>i. \<not> (rh = Ok None \<and> c_reused (w_conns w3 (w_next w1)) = False \<and> c_id (w_conns w3 (w_next w1)) = i)"
    show thesis by (rule that [of a]) (use e res c1 core' in auto)
  next
    assume e: "w_server w3 = snd (op_AcquireID goscon_ops (w_server w1))"
      "\<forall>b i. rh = Ok None \<and> c_reused (w_conns w3 (w_next w1)) = b \<and> c_id (w_conns w3 (w_next w1)) = i \<longrightarrow> \<not> b \<and> i = fst (AcquireID a)"
    show thesis by (rule that [of "snd (AcquireID a)"]) (use e res core' in \<open>auto simp: goscon_AcquireID a\<close>)
  next
    assume e: "op_ReleaseID goscon_ops (snd (op_AcquireID goscon_ops (w_server w1))) (fst (AcquireID a)) = Ok (w_server w3)"
      "\<forall>b i. \<not> (rh = Ok None \<and> c_reused (w_conns w3 (w_next w1)) = b \<and> c_id (w_conns w3 (w_next w1)) = i)"
    have "ss_idAllocator (snd (op_AcquireID goscon_ops (w_server w1))) = snd (AcquireID a)"
      "ss_connPairs (snd (op_AcquireID goscon_ops (w_server w1))) = P"
      using goscon_AcquireID(1) [of "w_server w1"] a by (simp_all add: core_def)
    with goscon_ReleaseID [OF e(1)] show thesis
      by (intro that [of "ss_idAllocator (w_server w3)"]) (use e(2) res core' in \<open>auto simp: core_def\<close>)
  qed
qed

lemma register_effect:
  assumes "onNewConn_register vp c i g = (r, g')" "gcore g = (a, P)"
  shows "P i = None \<Longrightarrow> r = Ok h \<Longrightarrow> \<exists>p. h = Connecting c i p \<and> gcore g' = (a, P(i \<mapsto> p))"
    "\<forall>h. r \<noteq> Ok h \<Longrightarrow> gcore g' = (a, P)"
proof -
  obtain rt g1 where t: "configItemTime vp ''scp.reuse_time'' g = (rt, g1)" by fastforce
  have g1: "gcore g1 = (a, P)" using keepsD [OF keeps_config t] assms(2) by simp
  have "(\<exists>p. r = Ok (Connecting c i p) \<and> gcore g' = (a, P(i \<mapsto> p))) \<or> (\<forall>h. r \<noteq> Ok h) \<and> gcore g' = (a, P)"
  proof (cases rt)
    case (Ok x)
    obtain s g2 where s: "onWorld (onServer (new_session (NewSCPConn c x))) g1 = (Ok s, g2)"
      by (simp add: onWorld_def onServer_def new_session_def)
    obtain p g3 where p: "onWorld (onServer (new_pair \<lparr>cp_LocalConn = NoLocal, cp_RemoteConn = s\<rparr>)) g2 = (Ok p, g3)"
      by (simp add: onWorld_def onServer_def new_pair_def)
    have "gcore g3 = (a, P)"
      using keepsD [OF keeps_onWorld [OF keeps_onServer [OF keeps_core(3)]] s] keepsD [OF keeps_onWorld [OF keeps_onServer [OF keeps_core(4)]] p] g1
      by simp
    moreover have "onNewConn_register vp c i g = bindM (onWorld (onServer (addConnPair i p))) (\<lambda>_. retM (Connecting c i p)) g3"
      using t Ok s p by (simp add: onNewConn_register_def monad_simps)
    ultimately show ?thesis
      using assms(1) by (cases "P i") (auto simp: monad_simps onWorld_def onServer_def addConnPair_def core_def)
  qed (use assms(1) t g1 in \<open>auto simp: onNewConn_register_def monad_simps\<close>)
  then show "P i = None \<Longrightarrow> r = Ok h \<Longrightarrow> \<exists>p. h = Connecting c i p \<and> gcore g' = (a, P(i \<mapsto> p))"
    "\<forall>h. r \<noteq> Ok h \<Longrightarrow> gcore g' = (a, P)" by auto
qed

text \<open>The next control point after a step that returns or panics.\<close>

definition next_pc :: "hpc \<Rightarrow> hpc res \<Rightarrow> hpc \<Rightarrow> bool" where
  "next_pc h r h' \<longleftrightarrow> r = Ok h' \<or> (\<exists>m. r = Panic m) \<and> h' = unwind h"

lemma inv_keep:
  assumes "inv_at (a, P) hs" "hs t = Some h" "id_of h' = None \<or> id_of h' = id_of h" "paired h' = paired h"
  shows "inv_at (a, P) (hs(t \<mapsto> h'))"
proof (rule inv_move [OF assms(1,2)])
  show "wf_ida a" by (rule inv_atD(1) [OF assms(1)])
  show "i \<in> outstanding a \<and> (\<forall>t' h''. t' \<noteq> t \<longrightarrow> hs t' = Some h'' \<longrightarrow> id_of h'' \<noteq> Some i)" if "id_of h' = Some i" for i
  proof -
    have "id_of h = Some i" using that assms(3) by auto
    then show ?thesis using inv_atD(2,3) [OF assms(1,2)] by blast
  qed
  show "(P i \<noteq> None) = (paired h' = Some i \<or> P i \<noteq> None \<and> paired h \<noteq> Some i)" for i
    using inv_atD(4) [OF assms(1), of i] assms(2) unfolding assms(4) by blast
qed (rule inv_atD(2) [OF assms(1)])

lemma accept_inv:
  assumes I: "inv_at (a, P) hs" "hs t = Some (Accepted conn)"
    and e: "a' = a \<and> id_of h' = None \<or>
     a' = snd (AcquireID a) \<and> (id_of h' = None \<or> id_of h' = Some (fst (AcquireID a))) \<or>
     ReleaseID (snd (AcquireID a)) (fst (AcquireID a)) = Ok a' \<and> id_of h' = None" "paired h' = None"
  shows "inv_at (a', P) (hs(t \<mapsto> h'))"
proof -
  note wf = inv_atD(1) [OF I(1)] and out = inv_atD(2) [OF I(1)]
  let ?i = "fst (AcquireID a)" and ?b = "snd (AcquireID a)"
  have acq: "wf_ida ?b" "?i \<notin> outstanding a" "outstanding ?b = insert ?i (outstanding a)"
    using AcquireID_step [OF wf, of ?i ?b] by simp_all
  have a': "wf_ida a'" "outstanding a \<subseteq> outstanding a'" "id_of h' = Some i \<Longrightarrow> i \<in> outstanding a' \<and> i \<notin> outstanding a" for i
    using e(1) acq wf ReleaseID_step [OF acq(1), of ?i] by auto
  show ?thesis
  proof (rule inv_move [OF I a'(1)])
    fix i assume "id_of h' = Some i"
    from a'(3) [OF this] show "i \<in> outstanding a' \<and> (\<forall>t' h''. t' \<noteq> t \<longrightarrow> hs t' = Some h'' \<longrightarrow> id_of h'' \<noteq> Some i)"
      using out by blast
  qed (use out a'(2) e(2) in auto)
qed

lemma inv_mine:
  assumes "inv_at (a, P) hs" "hs t = Some h" "id_of h = Some i"
  shows "i \<in> outstanding a \<and> (\<forall>t' h''. t' \<noteq> t \<longrightarrow> hs t' = Some h'' \<longrightarrow> id_of h'' \<noteq> Some i)"
  using inv_atD(2,3) [OF assms(1,2)] assms(3) by blast

lemma register_inv:
  assumes I: "inv_at (a, P) hs" "hs t = Some (Registering c i)"
  shows "P i = None" "inv_at (a, P(i \<mapsto> p)) (hs(t \<mapsto> Connecting c i p))"
proof -
  note mine = inv_mine [OF I, of i, simplified]
  have "paired h' \<noteq> Some i" if "hs t' = Some h'" for t' h'
    using mine paired_id [of h' i] I(2) that by (cases "t' = t") auto
  then show "P i = None" using inv_atD(4) [OF I(1), of i] by blast
  show "inv_at (a, P(i \<mapsto> p)) (hs(t \<mapsto> Connecting c i p))"
  proof (rule inv_move [OF I inv_atD(1) [OF I(1)] inv_atD(2) [OF I(1)]])
    fix j assume "id_of (Connecting c i p) = Some j"
    then show "j \<in> outstanding a \<and> (\<forall>t' h''. t' \<noteq> t \<longrightarrow> hs t' = Some h'' \<longrightarrow> id_of h'' \<noteq> Some j)" using mine by simp
  qed auto
qed

lemma remove_inv:
  assumes I: "inv_at (a, P) hs" "hs t = Some (Removing i)"
  shows "inv_at (a, P(i := None)) (hs(t \<mapsto> Releasing i))"
proof (rule inv_move [OF I inv_atD(1) [OF I(1)] inv_atD(2) [OF I(1)]])
  fix j assume "id_of (Releasing i) = Some j"
  then show "j \<in> outstanding a \<and> (\<forall>t' h''. t' \<noteq> t \<longrightarrow> hs t' = Some h'' \<longrightarrow> id_of h'' \<noteq> Some j)"
    using inv_mine [OF I, of i] by simp
qed auto

lemma release_inv:
  assumes I: "inv_at (a, P) hs" "hs t = Some (Releasing i)"
  obtains a' where "ReleaseID a i = Ok a'" "inv_at (a', P) (hs(t \<mapsto> Leaving))"
proof -
  note mine = inv_mine [OF I, of i, simplified]
  then obtain a' where a': "ReleaseID a i = Ok a'" "wf_ida a'" "outstanding a' = outstanding a - {i}"
    using ReleaseID_step [OF inv_atD(1) [OF I(1)]] by blast
  have "inv_at (a', P) (hs(t \<mapsto> Leaving))"
  proof (rule inv_move [OF I a'(2)])
    fix t' h' j assume "t' \<noteq> t" "hs t' = Some h'" "id_of h' = Some j"
    then show "j \<in> outstanding a'" using mine inv_atD(2) [OF I(1)] a'(3) by blast
  qed auto
  with a'(1) that show thesis by blast
qed

lemma step_inv:
  assumes inv: "inv_at (gcore g) hs" and h: "hs t = Some h" and hook: "program_hook env hook"
    and st: "handler_step env vp hook h g = (r, g')" "next_pc h r h'"
  shows "inv_at (gcore g') (hs(t \<mapsto> h'))"
proof -
  obtain a P where c: "gcore g = (a, P)" by fastforce
  note I = inv [unfolded c]
  show ?thesis
  proof (cases h)
    case (Accepted conn)
    obtain w' where w': "handle_handshake conn (g_w g) = (r, w')" "g' = g\<lparr>g_w := w'\<rparr>"
      using st(1) Accepted by (auto simp: onWorld_def split: prod.splits)
    have "id_of (unwind h) = None" "paired (unwind h) = None" by (simp_all add: Accepted)
    then have nx: "(\<forall>x. r = Ok x \<longrightarrow> Q (id_of x)) \<Longrightarrow> Q None \<Longrightarrow> Q (id_of h')" "(\<forall>x. r = Ok x \<longrightarrow> paired x = None) \<Longrightarrow> paired h' = None"
      for Q using st(2) by (auto simp: next_pc_def)
    obtain a' where a': "wcore w' = (a', P)"
      "a' = a \<and> (\<forall>h. r = Ok h \<longrightarrow> id_of h = None) \<or>
       a' = snd (AcquireID a) \<and> (\<forall>h. r = Ok h \<longrightarrow> id_of h = None \<or> id_of h = Some (fst (AcquireID a))) \<or>
       ReleaseID (snd (AcquireID a)) (fst (AcquireID a)) = Ok a' \<and> (\<forall>h. r = Ok h \<longrightarrow> id_of h = None)"
      "\<forall>h. r = Ok h \<longrightarrow> paired h = None"
      using handle_handshake_effect [OF w'(1) c] by metis
    have "inv_at (a', P) (hs(t \<mapsto> h'))"
      by (rule accept_inv [OF I h [unfolded Accepted]])
        (use a'(2) nx(1) [of "\<lambda>x. x = None"] nx(1) [of "\<lambda>x. x = None \<or> x = Some (fst (AcquireID a))"] nx(2) [OF a'(3)] in auto)
    then show ?thesis using a'(1) w'(2) by simp
  next
    case (Reusing scon)
    have "keeps gcore (handler_step env vp hook h)" unfolding Reusing handler_step.simps by (intro keeps_intros)
    from keepsD [OF this st(1)] c have "gcore g' = (a, P)" by simp
    moreover have "id_of h' = None" "paired h' = paired h"
      using st by (auto simp: next_pc_def Reusing bindM_eq_Ok prim_simps)
    ultimately show ?thesis using inv_keep [OF I h] by simp
  next
    case (Registering scon i)
    have g: "onNewConn_register vp scon i g = (r, g')" using st(1) Registering by simp
    note reg = register_inv [OF I h [unfolded Registering]]
    show ?thesis
    proof (cases "\<exists>x. r = Ok x")
      case True
      then have "r = Ok h'" using st(2) by (auto simp: next_pc_def)
      then obtain p where "h' = Connecting scon i p" "gcore g' = (a, P(i \<mapsto> p))"
        using register_effect(1) [OF g c reg(1)] by blast
      then show ?thesis using reg(2) by simp
    next
      case False
      then have "gcore g' = (a, P)" "h' = Releasing i"
        using register_effect(2) [OF g c] st(2) by (auto simp: next_pc_def Registering)
      then show ?thesis using inv_keep [OF I h] by (simp add: Registering)
    qed
  next
    case (Connecting scon i p)
    have "keeps gcore (handler_step env vp hook h)" unfolding Connecting handler_step.simps by (intro keeps_intros hook)
    from keepsD [OF this st(1)] c have "gcore g' = (a, P)" by simp
    moreover have "id_of h' = id_of h" "paired h' = paired h"
      using st by (auto simp: next_pc_def Connecting onNewConn_connect_def bindM_eq_Ok prim_simps split: if_splits)
    ultimately show ?thesis using inv_keep [OF I h] by simp
  next
    case (Pumping scon i p)
    then show ?thesis using st c inv_keep [OF I h, of "Removing i"] by (auto simp: next_pc_def monad_simps)
  next
    case (Removing i)
    then have "h' = Releasing i" "gcore g' = (a, P(i := None))"
      using st c by (auto simp: next_pc_def monad_simps onWorld_def onServer_def removeConnPair_def core_def)
    then show ?thesis using remove_inv [OF I h [unfolded Removing]] by simp
  next
    case (Releasing i)
    obtain a' where a': "ReleaseID a i = Ok a'" "inv_at (a', P) (hs(t \<mapsto> Leaving))"
      using release_inv [OF I h [unfolded Releasing]] by blast
    have "h' = Leaving" "gcore g' = (a', P)"
      using st c a'(1) by (auto simp: next_pc_def Releasing monad_simps onWorld_def ReleaseID_srv_def goscon_ops_def
          srv_ReleaseID_def core_def)
    then show ?thesis using a'(2) by simp
  next
    case Leaving
    then show ?thesis using st c inv_keep [OF I h, of Leaving] by (auto simp: next_pc_def monad_simps)
  qed
qed

lemma inv_start:
  assumes "inv_at (a, P) hs" "hs t = None"
  shows "inv_at (a, P) (hs(t \<mapsto> Accepted conn))"
proof -
  have "(\<exists>t' h. (hs(t \<mapsto> Accepted conn)) t' = Some h \<and> paired h = Some i) \<longleftrightarrow> (\<exists>t' h. hs t' = Some h \<and> paired h = Some i)" for i
    using assms(2) by (auto split: if_splits) (metis option.distinct(1))
  with inv_atD [OF assms(1)] show ?thesis unfolding inv_at_def prod.case by (auto split: if_splits)
qed

lemma inv_stop:
  assumes "inv_at (a, P) hs" "hs t = Some Leaving"
  shows "inv_at (a, P) (hs(t := None))"
proof -
  have "(\<exists>t' h. (hs(t := None)) t' = Some h \<and> paired h = Some i) \<longleftrightarrow> (\<exists>t' h. hs t' = Some h \<and> paired h = Some i)" for i
  proof
    assume "\<exists>t' h. hs t' = Some h \<and> paired h = Some i"
    then obtain t' h where "hs t' = Some h" "paired h = Some i" by blast
    moreover from this assms(2) have "t' \<noteq> t" by auto
    ultimately show "\<exists>t' h. (hs(t := None)) t' = Some h \<and> paired h = Some i" by (intro exI [of _ t'] exI [of _ h]) simp
  qed (auto split: if_splits)
  with inv_atD [OF assms(1)] show ?thesis unfolding inv_at_def prod.case by (auto split: if_splits)
qed

lemma hstep_inv:
  assumes "hstep env vp hook s s'" "server_inv s" "program_hook env hook"
  shows "server_inv s'"
  using assms
proof (induction rule: hstep.induct)
  case (Go s t conn)
  obtain a P where c: "gcore (gs_g s) = (a, P)" by fastforce
  with inv_start [of a P "gs_h s" t conn] Go show ?case by (simp add: fun_upd_def)
next
  case (Step s t h h' g')
  then show ?case using step_inv [of "gs_g s" "gs_h s" t h env hook vp "Ok h'" g' h'] by (simp add: next_pc_def fun_upd_def)
next
  case (Panics s t h m g')
  then show ?case using step_inv [of "gs_g s" "gs_h s" t h env hook vp "Panic m" g' "unwind h"] by (simp add: next_pc_def fun_upd_def)
next
  case (Leave s t g')
  have "gcore g' = gcore (gs_g s)" using keepsD [OF keeps_onWorld [OF keeps_core(1)] Leave(2)] .
  moreover obtain a P where c: "gcore (gs_g s) = (a, P)" by fastforce
  ultimately show ?case using inv_stop [of a P "gs_h s" t] Leave by (simp add: fun_upd_def)
next
  case (Other s g')
  then show ?case by (simp add: other_change_def core_def)
qed

lemma reach_inv:
  assumes "(hstep env vp hook)\<^sup>*\<^sup>* \<lparr>gs_g = g0, gs_h = Map.empty\<rparr> s" "defaultServer = Ok (srv g0)" "program_hook env hook"
  shows "server_inv s"
  using assms(1)
proof (induction rule: rtranclp_induct)
  case base
  have "core (srv g0) = (\<lparr>ida_start = 1, ida_off = 1, ida_free = []\<rparr>, Map.empty)"
    using assms(2) by (cases "srv g0") (auto simp: defaultServer_def map_res_def NewIDAllocator_def core_def)
  then show ?case by (simp add: inv_at_def wf_ida_def)
next
  case (step s s')
  then show ?case using hstep_inv assms(3) by blast
qed

section \<open>Reuse\<close>

lemma Conn_Close_closes:
  obtains w' where "Conn_Close c w = (Ok (), w')" "w_server w' = w_server w" "c_frozen (w_conns w' c)"
    "c_reuseBuffer (w_conns w' c) = None" "\<And>d. c_id (w_conns w' d) = c_id (w_conns w d)"
    "\<And>d. c_handshakes (w_conns w' d) = c_handshakes (w_conns w d)"
proof (rule freeze_run [of c w])
  fix e nt
  assume f: "freeze c w = (Ok (), w\<lparr>w_conns := (w_conns w)(c := (w_conns w c)\<lparr>c_frozen := True, c_connErr := e\<rparr>),
       w_nets := (w_nets w)(c_conn (w_conns w c) := nt)\<rparr>)"
  show thesis
  proof (cases "c_reuseBuffer (w_conns w c)")
    case None
    then show thesis using f that by (simp add: Conn_Close_def monad_simps)
  next
    case (Some b)
    then show thesis using f that by (simp add: Conn_Close_def monad_simps pool_put_def)
  qed
qed

lemma metric_eq [monad_simps]:
  "metric f w = (Ok (), w\<lparr>w_server := (w_server w)\<lparr>ss_metrics := f (ss_metrics (w_server w))\<rparr>\<rparr>)"
  by (simp add: metric_def onServer_def monad_simps)

lemma reuse_fails_run:
  obtains w' where "reuse_fails scon w = (Ok False, w')" "c_frozen (w_conns w' scon)" "c_reuseBuffer (w_conns w' scon) = None"
    "w_server w' = (w_server w)\<lparr>ss_metrics := (ss_metrics (w_server w))\<lparr>mt_connectionReuseFails := mt_connectionReuseFails (ss_metrics (w_server w)) + 1\<rparr>\<rparr>"
proof (rule Conn_Close_closes [of scon w])
  fix w1
  assume "Conn_Close scon w = (Ok (), w1)" "w_server w1 = w_server w" "c_frozen (w_conns w1 scon)" "c_reuseBuffer (w_conns w1 scon) = None"
  then show thesis using that by (simp add: reuse_fails_def monad_simps)
qed

text \<open>The session of an id, and whether a connection for it is accepted.\<close>

definition session_of :: "SCPServer \<Rightarrow> int \<Rightarrow> mon option" where
  "session_of ss i = map_option (\<lambda>p. ss_sessions ss (cp_RemoteConn (ss_pairs ss p))) (ss_connPairs ss i)"

definition reusable :: "SCPServer \<Rightarrow> int \<Rightarrow> bool" where
  "reusable ss i = (case session_of ss i of None \<Rightarrow> False | Some m \<Rightarrow> \<not> s_connClosed (m_s m))"

text \<open>The counters of a reuse.\<close>

definition reuse_metrics :: "bool \<Rightarrow> int \<Rightarrow> metrics \<Rightarrow> metrics" where
  "reuse_metrics ok resend m =
     (let m = m\<lparr>mt_connectionResend := mt_connectionResend m @ [resend]\<rparr>
      in if ok then m\<lparr>mt_connectionReuses := mt_connectionReuses m + 1\<rparr> else m\<lparr>mt_connectionReuseFails := mt_connectionReuseFails m + 1\<rparr>)"

lemma onReuseConn_accepts:
  assumes "session_of (w_server w) (c_id (w_conns w scon)) = Some m" "\<not> s_connClosed (m_s m)"
  obtains w' where "onReuseConn scon w = (Ok True, w')"
    "session_of (w_server w') (c_id (w_conns w scon)) = Some (m\<lparr>m_s := (m_s m)\<lparr>s_Conn := scon, s_connErr := None\<rparr>\<rparr>)"
    "core (w_server w') = core (w_server w)" "ss_metrics (w_server w') = reuse_metrics True (c_resend (w_conns w scon)) (ss_metrics (w_server w))"
    "\<And>d. c_id (w_conns w' d) = c_id (w_conns w d)" "\<And>d. c_handshakes (w_conns w' d) = c_handshakes (w_conns w d)"
proof -
  let ?i = "c_id (w_conns w scon)"
  obtain p where p: "ss_connPairs (w_server w) ?i = Some p" "m = ss_sessions (w_server w) (cp_RemoteConn (ss_pairs (w_server w) p))"
    using assms(1) by (auto simp: session_of_def)
  define a where "a = cp_RemoteConn (ss_pairs (w_server w) p)"
  define w1 where "w1 = w\<lparr>w_server := (w_server w)\<lparr>ss_metrics := (ss_metrics (w_server w))\<lparr>mt_connectionResend :=
    mt_connectionResend (ss_metrics (w_server w)) @ [c_resend (w_conns w scon)]\<rparr>\<rparr>\<rparr>"
  have a1: "cp_RemoteConn (ss_pairs (w_server w1) p) = a" by (simp add: w1_def a_def)
  have m1: "ss_sessions (w_server w1) a = m" using p(2) by (simp add: w1_def a_def)
  show thesis
  proof (rule Conn_Close_closes [of "s_Conn (m_s m)" w1])
    fix w2
    assume w2: "Conn_Close (s_Conn (m_s m)) w1 = (Ok (), w2)" "w_server w2 = w_server w1"
      "\<And>d. c_id (w_conns w2 d) = c_id (w_conns w1 d)" "\<And>d. c_handshakes (w_conns w2 d) = c_handshakes (w_conns w1 d)"
    have os: "onSession a (ReplaceConn scon) w1 = (Ok True, w2\<lparr>w_server := (w_server w1)\<lparr>ss_sessions :=
        (ss_sessions (w_server w1))(a := m\<lparr>m_s := (m_s m)\<lparr>s_Conn := scon, s_connErr := None\<rparr>\<rparr>)\<rparr>\<rparr>)" (is "_ = (_, ?w3)")
      using w2(1,2) assms(2) by (simp add: onSession_def ReplaceConn_def m1)
    define w4 where "w4 = ?w3\<lparr>w_server := (w_server ?w3)\<lparr>ss_metrics := (ss_metrics (w_server ?w3))\<lparr>mt_connectionReuses :=
      mt_connectionReuses (ss_metrics (w_server ?w3)) + 1\<rparr>\<rparr>\<rparr>"
    have "onReuseConn scon w = (Ok True, w4)"
      using p(1) os a1 by (simp add: onReuseConn_def monad_simps getConnPair_def ReuseState_def w1_def [symmetric] w4_def)
    then show thesis
      by (rule that [of w4]) (simp_all add: w4_def session_of_def core_def reuse_metrics_def Let_def p(1) w1_def a_def w2(3,4))
  qed
qed

lemma onReuseConn_refuses:
  assumes "\<not> reusable (w_server w) (c_id (w_conns w scon))"
  obtains w' where "onReuseConn scon w = (Ok False, w')" "c_frozen (w_conns w' scon)" "c_reuseBuffer (w_conns w' scon) = None"
    "w_server w' = (w_server w)\<lparr>ss_metrics := reuse_metrics False (c_resend (w_conns w scon)) (ss_metrics (w_server w))\<rparr>"
proof -
  let ?i = "c_id (w_conns w scon)"
  define w1 where "w1 = w\<lparr>w_server := (w_server w)\<lparr>ss_metrics := (ss_metrics (w_server w))\<lparr>mt_connectionResend :=
    mt_connectionResend (ss_metrics (w_server w)) @ [c_resend (w_conns w scon)]\<rparr>\<rparr>\<rparr>"
  have "onReuseConn scon w = reuse_fails scon w1"
  proof (cases "ss_connPairs (w_server w) ?i")
    case None
    then show ?thesis by (simp add: onReuseConn_def monad_simps getConnPair_def ReuseState_def w1_def)
  next
    case (Some p)
    define a where "a = cp_RemoteConn (ss_pairs (w_server w1) p)"
    have "s_connClosed (m_s (ss_sessions (w_server w1) a))"
      using assms Some by (simp add: reusable_def session_of_def w1_def a_def)
    then have "onSession a (ReplaceConn scon) w1 = (Ok False, w1)" by (simp add: onSession_def ReplaceConn_def)
    then show ?thesis
      using Some by (simp add: onReuseConn_def monad_simps getConnPair_def ReuseState_def w1_def [symmetric] a_def [symmetric])
  qed
  then show thesis
    using reuse_fails_run [of scon w1] that by (auto simp: w1_def reuse_metrics_def Let_def)
qed

lemma query_session: "srv_QueryByID ss i = map_option (\<lambda>m. s_Conn (m_s m)) (session_of ss i)"
  by (simp add: srv_QueryByID_def getConnPair_def session_of_def option.map_comp comp_def split: option.split)

section \<open>Properties\<close>

text \<open>C4. No two live connections share an id. However the handlers interleave, and whatever clients send, the ids that handlers
  hold are different and in use; adding a pair never finds the id taken (the panic of \<open>addConnPair\<close> is
  unreachable); releasing an id never panics; and an id is found by \<open>QueryByID\<close> exactly while the handler that holds
  it has its pair in the table.\<close>

theorem pair_ids_unique:
  assumes "(hstep env vp hook)\<^sup>*\<^sup>* \<lparr>gs_g = g0, gs_h = Map.empty\<rparr> s" "defaultServer = Ok (srv g0)" "program_hook env hook"
  shows "(\<forall>t t' h h' i. gs_h s t = Some h \<longrightarrow> gs_h s t' = Some h' \<longrightarrow> id_of h = Some i \<longrightarrow> id_of h' = Some i \<longrightarrow> t = t') \<and>
    (\<forall>t c i p. gs_h s t = Some (Registering c i) \<longrightarrow> fst (addConnPair i p (srv (gs_g s))) = Ok ()) \<and>
    (\<forall>t i. gs_h s t = Some (Releasing i) \<longrightarrow> (\<exists>ss. srv_ReleaseID (srv (gs_g s)) i = Ok ss)) \<and>
    (\<forall>i. srv_QueryByID (srv (gs_g s)) i \<noteq> None \<longleftrightarrow> (\<exists>t h. gs_h s t = Some h \<and> paired h = Some i))"
proof -
  let ?ss = "srv (gs_g s)"
  have I: "inv_at (ss_idAllocator ?ss, ss_connPairs ?ss) (gs_h s)" using reach_inv [OF assms] by (simp add: core_def)
  have "fst (addConnPair i p ?ss) = Ok ()" if "gs_h s t = Some (Registering c i)" for t c i p
    using register_inv(1) [OF I that] by (simp add: addConnPair_def)
  moreover have "\<exists>ss. srv_ReleaseID ?ss i = Ok ss" if "gs_h s t = Some (Releasing i)" for t i
    by (rule release_inv [OF I that]) (simp add: srv_ReleaseID_def)
  moreover have "srv_QueryByID ?ss i \<noteq> None \<longleftrightarrow> (\<exists>t h. gs_h s t = Some h \<and> paired h = Some i)" for i
    using inv_atD(4) [OF I, of i] by (simp add: query_session session_of_def)
  moreover have "t = t'" if "gs_h s t = Some h" "gs_h s t' = Some h'" "id_of h = Some i" "id_of h' = Some i" for t t' h h' i
    using inv_atD(3) [OF I that(2,1,4,3)] .
  ultimately show ?thesis by blast
qed

text \<open>C12. \<open>onReuseConn\<close> on every branch. A resumed connection is accepted exactly when the pair of its id is in the table and its
  session is not closed. Then the session goes on with it, and later requests for the id find it. Otherwise the new connection
  is closed and no session changes. The allocator and the table are never changed, and the counters record the
  outcome and the bytes sent again.\<close>

theorem onReuseConn_outcomes:
  "\<exists>w'. onReuseConn scon w = (Ok (reusable (w_server w) (c_id (w_conns w scon))), w') \<and>
    core (w_server w') = core (w_server w) \<and>
    ss_metrics (w_server w') = reuse_metrics (reusable (w_server w) (c_id (w_conns w scon))) (c_resend (w_conns w scon)) (ss_metrics (w_server w)) \<and>
    (if reusable (w_server w) (c_id (w_conns w scon))
     then srv_QueryByID (w_server w') (c_id (w_conns w scon)) = Some scon \<and>
       (\<exists>m. session_of (w_server w') (c_id (w_conns w scon)) = Some m \<and> s_connErr (m_s m) = None \<and> \<not> s_connClosed (m_s m))
     else c_frozen (w_conns w' scon) \<and> c_reuseBuffer (w_conns w' scon) = None \<and> ss_sessions (w_server w') = ss_sessions (w_server w))"
proof (cases "reusable (w_server w) (c_id (w_conns w scon))")
  case True
  then obtain m where m: "session_of (w_server w) (c_id (w_conns w scon)) = Some m" "\<not> s_connClosed (m_s m)"
    by (auto simp: reusable_def split: option.splits)
  show ?thesis
    by (rule onReuseConn_accepts [OF m]) (use True m in \<open>auto simp: query_session\<close>)
next
  case False
  show ?thesis by (rule onReuseConn_refuses [OF False]) (use False in \<open>auto simp: core_def\<close>)
qed

text \<open>\<open>ReplaceConn\<close> does not check which connection it replaces. When two resumptions of one session overlap (both shook hands
  before either reached \<open>onReuseConn\<close>), the later request can be replaced by the earlier one: the session goes on with
  a connection the client has already given up, and the current one is closed.\<close>

theorem stale_reuse_accepted:
  assumes "c_id (w_conns w c1) = i" "c_id (w_conns w c2) = i" "reusable (w_server w) i"
    "c_handshakes (w_conns w c1) < c_handshakes (w_conns w c2)"
  shows "\<exists>w1 w2. onReuseConn c2 w = (Ok True, w1) \<and> srv_QueryByID (w_server w1) i = Some c2 \<and>
    onReuseConn c1 w1 = (Ok True, w2) \<and> srv_QueryByID (w_server w2) i = Some c1 \<and>
    c_handshakes (w_conns w2 c1) < c_handshakes (w_conns w2 c2)"
proof -
  obtain m where m: "session_of (w_server w) (c_id (w_conns w c2)) = Some m" "\<not> s_connClosed (m_s m)"
    using assms(2,3) by (auto simp: reusable_def split: option.splits)
  obtain w1 where w1: "onReuseConn c2 w = (Ok True, w1)"
    "session_of (w_server w1) i = Some (m\<lparr>m_s := (m_s m)\<lparr>s_Conn := c2, s_connErr := None\<rparr>\<rparr>)"
    "\<And>d. c_id (w_conns w1 d) = c_id (w_conns w d)" "\<And>d. c_handshakes (w_conns w1 d) = c_handshakes (w_conns w d)"
    using onReuseConn_accepts [OF m] assms(2) by metis
  let ?m1 = "m\<lparr>m_s := (m_s m)\<lparr>s_Conn := c2, s_connErr := None\<rparr>\<rparr>"
  have m1: "session_of (w_server w1) (c_id (w_conns w1 c1)) = Some ?m1" "\<not> s_connClosed (m_s ?m1)" using w1(2,3) assms(1) m(2) by simp_all
  obtain w2 where w2: "onReuseConn c1 w1 = (Ok True, w2)"
    "session_of (w_server w2) (c_id (w_conns w1 c1)) = Some (?m1\<lparr>m_s := (m_s ?m1)\<lparr>s_Conn := c1, s_connErr := None\<rparr>\<rparr>)"
    "\<And>d. c_handshakes (w_conns w2 d) = c_handshakes (w_conns w1 d)"
    using onReuseConn_accepts [OF m1] by metis
  show ?thesis
    using w1 w2 assms(1,4) by (intro exI [of _ w1] exI [of _ w2]) (simp add: query_session)
qed

text \<open>What \<open>Serve\<close> did with the connections.\<close>

definition conns_of :: "accepted list \<Rightarrow> nat list" where
  "conns_of rs = concat (map (\<lambda>r. case r of AcceptConn c \<Rightarrow> [c] | _ \<Rightarrow> []) rs)"

definition handled :: "serve_event list \<Rightarrow> nat list" where
  "handled evs = concat (map (\<lambda>e. case e of Handle c \<Rightarrow> [c] | _ \<Rightarrow> []) evs)"

fun goes_on :: "accepted \<Rightarrow> bool" where
  "goes_on (AcceptFailed e) = False"
| "goes_on r = True"

definition backoff :: "nat \<Rightarrow> int" where
  "backoff k = min (1000 * Millisecond) (5 * Millisecond * 2 ^ k)"

lemma nextDelay_backoff: "nextDelay 0 = backoff 0" "nextDelay (backoff k) = backoff (Suc k)"
proof -
  show "nextDelay 0 = backoff 0" by (simp add: nextDelay_def backoff_def Millisecond_def Let_def)
  have "(1::int) \<le> 2 ^ k" by simp
  then show "nextDelay (backoff k) = backoff (Suc k)"
    by (auto simp: nextDelay_def backoff_def Millisecond_def Let_def min_def)
qed

lemma upt_shift: "[0..<Suc n] = 0 # map Suc [0..<n]"
  by (simp only: map_Suc_upt upt_conv_Cons [OF zero_less_Suc])

lemma Serve_temporary:
  "Serve (backoff k) (map AcceptTemporary errs) =
     (concat (map (\<lambda>j. [AcceptFail, Sleep (backoff (Suc (k + j)))]) [0..<length errs]), None)"
proof (induction errs arbitrary: k)
  case (Cons e errs)
  show ?case using Cons [of "Suc k"] by (simp add: nextDelay_backoff upt_shift comp_def del: upt_Suc)
qed simp

lemma Serve_run:
  assumes "d = 0 \<or> 5 * Millisecond \<le> d \<and> d \<le> 1000 * Millisecond"
  shows "handled (fst (Serve d rs)) = conns_of (takeWhile goes_on rs) \<and>
    snd (Serve d rs) = (case dropWhile goes_on rs of AcceptFailed e # _ \<Rightarrow> Some e | _ \<Rightarrow> None) \<and>
    (\<forall>p. Sleep p \<in> set (fst (Serve d rs)) \<longrightarrow> 5 * Millisecond \<le> p \<and> p \<le> 1000 * Millisecond)"
  using assms
proof (induction d rs rule: Serve.induct)
  case (3 d e rs)
  have "5 * Millisecond \<le> nextDelay d \<and> nextDelay d \<le> 1000 * Millisecond"
    using 3(2) by (auto simp: nextDelay_def Millisecond_def Let_def)
  moreover from this 3(1) have "handled (fst (Serve (nextDelay d) rs)) = conns_of (takeWhile goes_on rs) \<and>
      snd (Serve (nextDelay d) rs) = (case dropWhile goes_on rs of AcceptFailed e # _ \<Rightarrow> Some e | _ \<Rightarrow> None) \<and>
      (\<forall>p. Sleep p \<in> set (fst (Serve (nextDelay d) rs)) \<longrightarrow> 5 * Millisecond \<le> p \<and> p \<le> 1000 * Millisecond)" by blast
  ultimately show ?case by (cases "Serve (nextDelay d) rs") (auto simp: handled_def conns_of_def)
qed (auto simp: handled_def conns_of_def Millisecond_def split: prod.split)

text \<open>The loop of \<open>Serve\<close>. The connections accepted before the first error that is not temporary are handled, all of them and in
  order; that error is returned; every pause is between 5 milliseconds and a second, and \<open>n\<close> temporary errors in a row
  after a success pause 5, 10, 20 milliseconds and so on, each twice the last up to a second.\<close>

theorem Serve_accepts_all:
  "handled (fst (Serve 0 rs)) = conns_of (takeWhile goes_on rs) \<and>
    snd (Serve 0 rs) = (case dropWhile goes_on rs of AcceptFailed e # _ \<Rightarrow> Some e | _ \<Rightarrow> None) \<and>
    (\<forall>p. Sleep p \<in> set (fst (Serve 0 rs)) \<longrightarrow> 5 * Millisecond \<le> p \<and> p \<le> 1000 * Millisecond) \<and>
    Serve 0 (map AcceptTemporary errs) = (concat (map (\<lambda>j. [AcceptFail, Sleep (backoff j)]) [0..<length errs]), None)"
proof -
  have "Serve 0 (map AcceptTemporary errs) = (concat (map (\<lambda>j. [AcceptFail, Sleep (backoff j)]) [0..<length errs]), None)"
  proof (cases errs)
    case (Cons e es)
    show ?thesis using Serve_temporary [of 0 es] by (simp add: Cons nextDelay_backoff(1) upt_shift comp_def del: upt_Suc)
  qed simp
  with Serve_run [of 0 rs] show ?thesis by simp
qed

theorem Serve_accepts_all_witness:
  "handled (fst (Serve 0 [AcceptConn 1, AcceptTemporary (ErrNet ''busy''), AcceptConn 2, AcceptFailed (ErrNet ''closed''), AcceptConn 3])) = [1, 2] \<and>
    snd (Serve 0 [AcceptConn 1, AcceptTemporary (ErrNet ''busy''), AcceptConn 2, AcceptFailed (ErrNet ''closed''), AcceptConn 3]) = Some (ErrNet ''closed'')"
  using Serve_accepts_all [of "[AcceptConn 1, AcceptTemporary (ErrNet ''busy''), AcceptConn 2, AcceptFailed (ErrNet ''closed''), AcceptConn 3]" "[]"]
  by (simp add: conns_of_def)

text \<open>Two connections accepted by a fresh server.\<close>

definition ex_sworld :: "SCPServer \<Rightarrow> SCPServer world" where
  "ex_sworld ss = \<lparr>w_nets = (\<lambda>_. ex_net []), w_ciphers = (\<lambda>_. rc4_NewCipher [1]),
     w_bufs = (\<lambda>_. \<lparr>buf = [0], off = 0, looped = False\<rparr>),
     w_conns = (\<lambda>a. (zeroConn a defaultConfig)\<lparr>c_id := 1, c_handshakes := int a\<rparr>),
     w_pool = [], w_next = 9, w_rand = (\<lambda>_. 3), w_rpos = 0, w_server = ss, w_ReuseBufferSize = 4, w_HandshakeTimeout = 0, w_now = 0\<rparr>"

definition ex_program :: "SCPServer \<Rightarrow> nat program" where
  "ex_program ss = \<lparr>g_w = ex_sworld ss, g_up = ex_upstreams, g_viper = 0, g_cache = Map.empty\<rparr>"

theorem pair_ids_unique_witness:
  "\<exists>ss. defaultServer = Ok ss \<and>
    (hstep ex_env ex_viper None)\<^sup>*\<^sup>* \<lparr>gs_g = ex_program ss, gs_h = Map.empty\<rparr> \<lparr>gs_g = ex_program ss, gs_h = [0 \<mapsto> Accepted 5, 1 \<mapsto> Accepted 6]\<rparr> \<and>
    srv_QueryByID ss 1 = None"
proof -
  obtain ss where ss: "defaultServer = Ok ss" by (simp add: defaultServer_def NewIDAllocator_def)
  let ?s = "\<lambda>h. \<lparr>gs_g = ex_program ss, gs_h = h\<rparr>"
  have "hstep ex_env ex_viper None (?s Map.empty) (?s [0 \<mapsto> Accepted 5])"
    using hstep.Go [of "?s Map.empty" 0 ex_env ex_viper None 5] by simp
  moreover have "hstep ex_env ex_viper None (?s [0 \<mapsto> Accepted 5]) (?s [0 \<mapsto> Accepted 5, 1 \<mapsto> Accepted 6])"
    using hstep.Go [of "?s [0 \<mapsto> Accepted 5]" 1 ex_env ex_viper None 6] by simp
  ultimately have r: "(hstep ex_env ex_viper None)\<^sup>*\<^sup>* (?s Map.empty) (?s [0 \<mapsto> Accepted 5, 1 \<mapsto> Accepted 6])"
    by (meson converse_rtranclp_into_rtranclp rtranclp.rtrancl_refl)
  have srv: "srv (ex_program ss) = ss" by (simp add: ex_program_def ex_sworld_def)
  have "srv_QueryByID (srv (ex_program ss)) 1 \<noteq> None \<longleftrightarrow>
      (\<exists>t h. [0 \<mapsto> Accepted 5, 1 \<mapsto> Accepted 6] t = Some h \<and> paired h = Some 1)"
    using pair_ids_unique [OF r, unfolded srv, OF ss, THEN conjunct2, THEN conjunct2, THEN conjunct2, rule_format, of 1]
    by (simp add: program_hook_def srv)
  then have "srv_QueryByID ss 1 = None" by (auto simp: srv split: if_splits)
  with ss r show ?thesis by blast
qed

theorem stale_reuse_accepted_witness:
  "\<exists>ss w1 w2. onReuseConn 4 (ex_sworld ss) = (Ok True, w1) \<and> onReuseConn 3 w1 = (Ok True, w2) \<and>
    srv_QueryByID (w_server w2) 1 = Some 3 \<and> c_handshakes (w_conns w2 3) < c_handshakes (w_conns w2 4)"
proof -
  obtain ss where "defaultServer = Ok ss" by (simp add: defaultServer_def NewIDAllocator_def)
  let ?ss = "ss\<lparr>ss_connPairs := [1 \<mapsto> 0], ss_sessions := (\<lambda>_. NewSCPConn 2 30)\<rparr>"
  have "reusable (w_server (ex_sworld ?ss)) 1" by (simp add: reusable_def session_of_def ex_sworld_def NewSCPConn_def)
  then obtain w1 w2 where "onReuseConn 4 (ex_sworld ?ss) = (Ok True, w1)" "onReuseConn 3 w1 = (Ok True, w2)"
    "srv_QueryByID (w_server w2) 1 = Some 3" "c_handshakes (w_conns w2 3) < c_handshakes (w_conns w2 4)"
    using stale_reuse_accepted [of "ex_sworld ?ss" 3 1 4] by (auto simp: ex_sworld_def)
  then show ?thesis by blast
qed

end
