(* ===== verification/Goscon_Main.thy ===== *)
theory Goscon_Main
  imports Scp_Server
begin

text \<open>
  The rest of the program: the listeners (\<open>tcp.go\<close>, \<open>kcp.go\<close>), the manager (\<open>manager.go\<close>), \<open>main.go\<close> and \<open>util.go\<close>.

  Sockets, the library \<open>kcp-go\<close> and the HTTP server are not code of the repository. Opening a listener is a parameter
  (the record \<open>main_io\<close>); the options that are set on a connection are returned as a list of calls. The reading and
  writing deadlines of an accepted connection are kept in \<open>lconn\<close>.
\<close>

section \<open>Accepted connections\<close>

text \<open>A connection of a listener: \<open>tcpConn\<close> and \<open>kcpConn\<close>, with the deadlines of the connection inside.\<close>

record lconn =
  lc_net :: netconn
  lc_readDeadline :: "int option"
  lc_writeDeadline :: "int option"
  lc_readTimeout :: int

text \<open>The calls on the connection inside.\<close>

definition lc_SetReadDeadline :: "int option \<Rightarrow> lconn \<Rightarrow> lconn" where
  "lc_SetReadDeadline t c = c\<lparr>lc_readDeadline := t\<rparr>"

definition lc_SetDeadline :: "int option \<Rightarrow> lconn \<Rightarrow> lconn" where
  "lc_SetDeadline t c = c\<lparr>lc_readDeadline := t, lc_writeDeadline := t\<rparr>"

text \<open>\<open>Read\<close> at the time \<open>now\<close> into \<open>n\<close> bytes, the same for both kinds.\<close>

definition tcpConn_Read :: "int \<Rightarrow> nat \<Rightarrow> lconn \<Rightarrow> byte list res \<times> lconn" where
  "tcpConn_Read now n conn =
     (let conn = (if 0 < lc_readTimeout conn then lc_SetReadDeadline (Some (now + lc_readTimeout conn)) conn else conn)
      in case nc_Read n (lc_net conn) of (r, x) \<Rightarrow> (r, conn\<lparr>lc_net := x\<rparr>))"

definition kcpConn_Read :: "int \<Rightarrow> nat \<Rightarrow> lconn \<Rightarrow> byte list res \<times> lconn" where
  "kcpConn_Read now n conn =
     (let conn = (if 0 < lc_readTimeout conn then lc_SetReadDeadline (Some (now + lc_readTimeout conn)) conn else conn)
      in case nc_Read n (lc_net conn) of (r, x) \<Rightarrow> (r, conn\<lparr>lc_net := x\<rparr>))"

section \<open>Listeners\<close>

datatype sockcall =
    SetKeepAlive bool
  | SetKeepAlivePeriod int
  | SetMtu int
  | SetWindowSize int int
  | SetNoDelay int int int int
  | SetStreamMode bool
  | SetWriteDelay bool
  | SetReadBuffer int
  | SetWriteBuffer int

definition new_lconn :: "netconn \<Rightarrow> int \<Rightarrow> lconn" where
  "new_lconn x readTimeout = \<lparr>lc_net = x, lc_readDeadline = None, lc_writeDeadline = None, lc_readTimeout = readTimeout\<rparr>"

text \<open>\<open>Accept\<close>, given what the listener inside accepted: the connection and the options set on it.\<close>

definition TCPListener_Accept :: "'v viper_ops \<Rightarrow> goerr + netconn \<Rightarrow> (('srv, 'v) goscon, lconn \<times> sockcall list) M" where
  "TCPListener_Accept vp accepted = (case accepted of
     Inl err \<Rightarrow> failM err
   | Inr c \<Rightarrow>
       bindM (configItemBool vp ''tcp_option.keepalive'') (\<lambda>keepalive.
       bindM (configItemTime vp ''tcp_option.keepalive_interval'') (\<lambda>keepaliveInterval.
       bindM (configItemTime vp ''tcp_option.read_timeout'') (\<lambda>readTimeout.
       retM (new_lconn c readTimeout, [SetKeepAlive keepalive, SetKeepAlivePeriod keepaliveInterval])))))"

definition KCPListener_Accept :: "'v viper_ops \<Rightarrow> goerr + netconn \<Rightarrow> (('srv, 'v) goscon, lconn \<times> sockcall list) M" where
  "KCPListener_Accept vp accepted = (case accepted of
     Inl err \<Rightarrow> failM err
   | Inr conn \<Rightarrow>
       bindM (configItemInt vp ''kcp_option.opt_mtu'') (\<lambda>mtu.
       bindM (configItemInt vp ''kcp_option.opt_nodelay'') (\<lambda>nodelay.
       bindM (configItemInt vp ''kcp_option.opt_interval'') (\<lambda>interval.
       bindM (configItemInt vp ''kcp_option.opt_resend'') (\<lambda>resend.
       bindM (configItemInt vp ''kcp_option.opt_nc'') (\<lambda>nc.
       bindM (configItemInt vp ''kcp_option.opt_sndwnd'') (\<lambda>sndwnd.
       bindM (configItemInt vp ''kcp_option.opt_rcvwnd'') (\<lambda>rcvwnd.
       bindM (configItemBool vp ''kcp_option.opt_stream'') (\<lambda>stream.
       bindM (configItemBool vp ''kcp_option.opt_writedelay'') (\<lambda>writedelay.
       bindM (configItemTime vp ''kcp_option.read_timeout'') (\<lambda>readTimeout.
       retM (new_lconn conn readTimeout,
         [SetMtu mtu, SetWindowSize sndwnd rcvwnd, SetNoDelay nodelay interval resend nc, SetStreamMode stream,
          SetWriteDelay writedelay]))))))))))))"

text \<open>Opening listeners: \<open>net.Listen\<close>, \<open>reuseport.ListenPacket\<close> and \<open>kcp.ServeConn\<close> (with the two numbers of shards and the header
  size of the packet connection), and the text of an error.\<close>

record main_io =
  io_Listen :: "string \<Rightarrow> goerr + nat"
  io_ListenPacket :: "string \<Rightarrow> goerr + nat"
  io_ServeConn :: "int \<Rightarrow> int \<Rightarrow> nat \<times> nat \<Rightarrow> goerr + nat"
  io_Error :: "goerr \<Rightarrow> string"

definition liftE :: "goerr + 'a \<Rightarrow> ('s, 'a) M" where
  "liftE r = (case r of Inl e \<Rightarrow> failM e | Inr x \<Rightarrow> retM x)"

definition NewTCPListener :: "main_io \<Rightarrow> string \<Rightarrow> ('s, nat) M" where
  "NewTCPListener io laddr = liftE (io_Listen io laddr)"

definition fecHeaderSize :: "int \<Rightarrow> int \<Rightarrow> nat" where
  "fecHeaderSize fecDataShards fecParityShards = (if fecDataShards \<noteq> 0 \<and> fecParityShards \<noteq> 0 then 6 else 0)"

definition NewKCPListener :: "'v viper_ops \<Rightarrow> main_io \<Rightarrow> string \<Rightarrow> (('srv, 'v) goscon, nat \<times> sockcall list) M" where
  "NewKCPListener vp io laddr =
     bindM (liftE (io_ListenPacket io laddr)) (\<lambda>conn.
     bindM (configItemInt vp ''kcp_option.fec_data_shards'') (\<lambda>fecDataShards.
     bindM (configItemInt vp ''kcp_option.fec_parity_shards'') (\<lambda>fecParityShards.
     bindM (liftE (io_ServeConn io fecDataShards fecParityShards (conn, fecHeaderSize fecDataShards fecParityShards))) (\<lambda>ln.
     bindM (configItemInt vp ''kcp_option.read_buffer'') (\<lambda>readBuffer.
     bindM (configItemInt vp ''kcp_option.write_buffer'') (\<lambda>writeBuffer.
     retM (ln, [SetReadBuffer readBuffer, SetWriteBuffer writeBuffer])))))))"

text \<open>\<open>binary.LittleEndian.Uint32(p[off:])\<close> panics when fewer than four bytes are there.\<close>

definition Uint32_at :: "nat \<Rightarrow> byte list \<Rightarrow> u32 res" where
  "Uint32_at at p = (if at + 4 \<le> length p then Ok (le_get (take 4 (drop at p))) else Panic ''index out of range'')"

text \<open>\<open>ReadFrom\<close> and \<open>WriteTo\<close> pass on the result \<open>(n, addr, err)\<close> of the packet connection; \<open>verbose\<close> is \<open>glog.V(2)\<close>, and what is
  logged is the number of the conversation, or that the packet is too short.\<close>

definition kcpPacketConn_ReadFrom :: "bool \<Rightarrow> nat \<Rightarrow> byte list \<Rightarrow> nat \<times> string \<times> goerr option \<Rightarrow>
    ((nat \<times> string \<times> goerr option) \<times> (u32 option) option) res" where
  "kcpPacketConn_ReadFrom verbose headerSize p r =
     (if \<not> verbose then Ok (r, None)
      else if headerSize + 4 \<le> fst r then map_res (\<lambda>conv. (r, Some (Some conv))) (Uint32_at headerSize p)
      else Ok (r, Some None))"

definition kcpPacketConn_WriteTo :: "bool \<Rightarrow> nat \<Rightarrow> byte list \<Rightarrow> nat \<times> goerr option \<Rightarrow> ((nat \<times> goerr option) \<times> u32 option) res" where
  "kcpPacketConn_WriteTo verbose headerSize p r =
     (if verbose \<and> headerSize + 4 \<le> fst r then map_res (\<lambda>conv. (r, Some conv)) (Uint32_at headerSize p)
      else Ok (r, None))"

section \<open>The manager\<close>

definition startManager :: "main_io \<Rightarrow> string \<Rightarrow> ('s, nat option) M" where
  "startManager io laddr =
     (if laddr = [] then retM None
      else bindM (liftE (io_Listen io laddr)) (\<lambda>ln. retM (Some ln)))"

text \<open>The handlers of \<open>/config\<close> and \<open>/reload\<close>: the body of the answer.\<close>

definition manager_config :: "'v viper_ops \<Rightarrow> (('srv, 'v) goscon, string) M" where
  "manager_config vp = getM (\<lambda>g. marshalConfigFile vp (g_viper g))"

definition manager_reload :: "net_env \<Rightarrow> 'v viper_ops \<Rightarrow> main_io \<Rightarrow> (('srv, 'v) goscon, string) M" where
  "manager_reload env vp io =
     bindM (tryM (reloadConfig env vp)) (\<lambda>r. retM (case r of
       Inr _ \<Rightarrow> ''succeed''
     | Inl err \<Rightarrow> ''failed: '' @ io_Error io err))"

text \<open>What the manager answers to a request: the handlers registered with the default multiplexer, which matches these paths exactly. What
  \<open>kcp.DefaultSnmp\<close> encodes to and what \<open>promhttp\<close> makes of the counters are parameters. Encoding the counters of KCP cannot fail.\<close>

record http_answer =
  ha_status :: int
  ha_contentType :: "string option"
  ha_body :: string

record manager_io =
  mi_Snmp :: string
  mi_Metrics :: "metrics \<Rightarrow> http_answer"

definition manager_serve :: "net_env \<Rightarrow> 'v viper_ops \<Rightarrow> main_io \<Rightarrow> manager_io \<Rightarrow> string \<Rightarrow> ('v program, http_answer) M" where
  "manager_serve env vp io mi path =
     (if path = ''/config'' then
        bindM (manager_config vp) (\<lambda>b. retM \<lparr>ha_status = 200, ha_contentType = Some ''text/vnd.yaml'', ha_body = b\<rparr>)
      else if path = ''/reload'' then
        bindM (manager_reload env vp io) (\<lambda>b. retM \<lparr>ha_status = 200, ha_contentType = None, ha_body = b\<rparr>)
      else if path = ''/kcp/snmp'' then retM \<lparr>ha_status = 200, ha_contentType = Some ''application/json'', ha_body = mi_Snmp mi\<rparr>
      else if path = ''/metrics'' then getM (\<lambda>g. mi_Metrics mi (ss_metrics (srv g)))
      else retM \<lparr>ha_status = 404, ha_contentType = Some ''text/plain; charset=utf-8'', ha_body = ''404 page not found'' @ newline\<rparr>)"

text \<open>\<open>http.Serve\<close> runs until the listener fails: the requests it answers until then, one after the other.\<close>

fun manager_run :: "net_env \<Rightarrow> 'v viper_ops \<Rightarrow> main_io \<Rightarrow> manager_io \<Rightarrow> string list \<Rightarrow> ('v program, http_answer list) M" where
  "manager_run env vp io mi [] = retM []"
| "manager_run env vp io mi (path # paths) =
     bindM (manager_serve env vp io mi path) (\<lambda>a. bindM (manager_run env vp io mi paths) (\<lambda>as. retM (a # as)))"

section \<open>main\<close>

record main_flags =
  fl_version :: bool
  fl_t :: bool
  fl_T :: bool
  fl_config :: string

text \<open>\<open>main\<close> exits, with what it printed, or serves the listeners it has opened until they stop.\<close>

datatype listener = TcpListener nat | KcpListener nat

datatype main_result = Exit int "string list" | Serving "nat option" "listener list"

definition testConfigFile :: "'v viper_ops \<Rightarrow> string \<Rightarrow> (('srv, 'v) goscon, goerr option) M" where
  "testConfigFile vp filename = (\<lambda>g.
     case vp_ReadInConfig vp (vp_SetConfigFile vp filename (g_viper g)) of (err, v) \<Rightarrow> (Ok err, g\<lparr>g_viper := v\<rparr>))"

definition Version :: string where
  "Version = ''1.1.0''"

definition main_test :: "'v viper_ops \<Rightarrow> main_io \<Rightarrow> main_flags \<Rightarrow> (('srv, 'v) goscon, main_result) M" where
  "main_test vp io fl =
     bindM (testConfigFile vp (fl_config fl)) (\<lambda>err. case err of
       Some e \<Rightarrow> retM (Exit 1 [''read configuration file '' @ fl_config fl @ '' faield: '' @ io_Error io e])
     | None \<Rightarrow>
         bindM (getM (\<lambda>g. marshalConfigFile vp (g_viper g))) (\<lambda>dump.
         retM (Exit 0 ([''the configuration file '' @ fl_config fl @ '' syntax is ok''] @ (if fl_T fl then [dump] else [])))))"

fun listenKcp :: "'v viper_ops \<Rightarrow> main_io \<Rightarrow> string \<Rightarrow> nat \<Rightarrow> (('srv, 'v) goscon, listener list) M" where
  "listenKcp vp io laddr 0 = retM []"
| "listenKcp vp io laddr (Suc n) =
     bindM (NewKCPListener vp io laddr) (\<lambda>(l, calls).
     bindM (listenKcp vp io laddr n) (\<lambda>ls. retM (KcpListener l # ls)))"

definition listenAll :: "'v viper_ops \<Rightarrow> main_io \<Rightarrow> (('srv, 'v) goscon, listener list) M" where
  "listenAll vp io =
     bindM (getM (\<lambda>g. vp_GetString vp (g_viper g) ''tcp'')) (\<lambda>tcpListen.
     bindM (if tcpListen \<noteq> [] then bindM (NewTCPListener io tcpListen) (\<lambda>l. retM [TcpListener l]) else retM []) (\<lambda>tcp.
     bindM (getM (\<lambda>g. vp_GetString vp (g_viper g) ''kcp'')) (\<lambda>kcpListen.
     bindM (if kcpListen \<noteq> [] then
         bindM (getM (\<lambda>g. vp_GetInt vp (g_viper g) ''kcp_option.reuseport'')) (\<lambda>reuseport.
         listenKcp vp io kcpListen (nat (if reuseport \<le> 0 then 1 else reuseport)))
       else retM []) (\<lambda>kcp.
     retM (tcp @ kcp)))))"

definition main :: "net_env \<Rightarrow> 'v viper_ops \<Rightarrow> main_io \<Rightarrow> main_flags \<Rightarrow> (('srv, 'v) goscon, main_result) M" where
  "main env vp io fl =
     (if fl_version fl then retM (Exit 0 [''goscon version: goscon/'' @ Version])
      else if fl_t fl \<or> fl_T fl then main_test vp io fl
      else
        bindM (modM (\<lambda>g. g\<lparr>g_viper := vp_SetConfigFile vp (fl_config fl) (g_viper g)\<rparr>)) (\<lambda>_.
        bindM (tryM (reloadConfig env vp)) (\<lambda>r. case r of Inl err \<Rightarrow> retM (Exit 1 []) | Inr _ \<Rightarrow>
        bindM (getM (\<lambda>g. vp_GetString vp (g_viper g) ''manager'')) (\<lambda>manager.
        bindM (tryM (startManager io manager)) (\<lambda>m. case m of Inl err \<Rightarrow> retM (Exit 1 []) | Inr man \<Rightarrow>
        bindM (tryM (listenAll vp io)) (\<lambda>ls. case ls of Inl err \<Rightarrow> retM (Exit 1 []) | Inr listeners \<Rightarrow>
        retM (Serving man listeners)))))))"

section \<open>Stack traces\<close>

text \<open>\<open>stacks\<close>: \<open>trace\<close> is the whole trace, of which \<open>runtime.Stack\<close> writes as much as the buffer holds.\<close>

fun stacks_loop :: "nat \<Rightarrow> nat \<Rightarrow> byte list \<Rightarrow> byte list \<Rightarrow> byte list" where
  "stacks_loop 0 n whole trace = trace"
| "stacks_loop (Suc i) n whole trace =
     (let trace = take n whole; nbytes = length trace
      in if nbytes < n then trace else stacks_loop i (n * 2) whole trace)"

definition stacks :: "bool \<Rightarrow> (bool \<Rightarrow> byte list) \<Rightarrow> byte list" where
  "stacks all whole = stacks_loop 5 (if all then 100000 else 10000) (whole all) []"

section \<open>What the operations do\<close>

text \<open>\<open>stacks\<close> returns the whole trace when it is shorter than 16 times the first size, otherwise its beginning.\<close>

lemma stacks_loop_take: "length whole < n * 2 ^ i \<Longrightarrow> stacks_loop (Suc i) n whole t = whole"
proof (induction i arbitrary: n t)
  case (Suc i)
  from Suc.IH [of "n * 2" "take n whole"] Suc.prems show ?case by (simp add: Let_def)
qed simp

lemma stacks_whole: "length (whole all) < (if all then 1600000 else 160000) \<Longrightarrow> stacks all whole = whole all"
proof -
  assume l: "length (whole all) < (if all then 1600000 else 160000)"
  have "stacks_loop (Suc 4) (if all then 100000 else 10000) (whole all) [] = whole all"
    by (rule stacks_loop_take) (use l in \<open>cases all; simp\<close>)
  moreover have "Suc 4 = 5" by simp
  ultimately show ?thesis unfolding stacks_def by metis
qed

text \<open>A request changes the program only when it asks for a reload; then the answer says whether it succeeded.\<close>

lemma manager_reads:
  assumes "path \<noteq> ''/reload''"
  shows "\<exists>a. manager_serve env vp io mi path g = (Ok a, g)"
  using assms by (auto simp: manager_serve_def manager_config_def monad_simps)

lemma manager_reloads:
  "reloadConfig env vp g = (Ok (), g') \<Longrightarrow>
     manager_serve env vp io mi ''/reload'' g = (Ok \<lparr>ha_status = 200, ha_contentType = None, ha_body = ''succeed''\<rparr>, g')"
  "reloadConfig env vp g = (Fail e, g') \<Longrightarrow>
     manager_serve env vp io mi ''/reload'' g = (Ok \<lparr>ha_status = 200, ha_contentType = None, ha_body = ''failed: '' @ io_Error io e\<rparr>, g')"
  by (simp_all add: manager_serve_def manager_reload_def monad_simps)

lemma manager_run_reads:
  "''/reload'' \<notin> set paths \<Longrightarrow> \<exists>as. manager_run env vp io mi paths g = (Ok as, g) \<and> length as = length paths"
proof (induction paths)
  case (Cons path paths)
  then obtain as where "manager_run env vp io mi paths g = (Ok as, g)" "length as = length paths" by auto
  moreover obtain a where "manager_serve env vp io mi path g = (Ok a, g)" using manager_reads [of path env vp io mi g] Cons.prems by auto
  ultimately show ?case by (simp add: monad_simps)
qed (simp add: monad_simps)

text \<open>Logging never changes the result of a packet connection that keeps to its contract (\<open>n\<close> is at most the length of the buffer).\<close>

lemma kcp_logging_harmless:
  "fst r \<le> length p \<Longrightarrow> map_res fst (kcpPacketConn_ReadFrom v h p r) = Ok r"
  "fst r' \<le> length p \<Longrightarrow> map_res fst (kcpPacketConn_WriteTo v h p r') = Ok r'"
  by (auto simp: kcpPacketConn_ReadFrom_def kcpPacketConn_WriteTo_def Uint32_at_def)

lemma or_exit_eq_Ok:
  "bindM (tryM m) (\<lambda>r. case r of Inl e \<Rightarrow> retM z | Inr x \<Rightarrow> k x) s = (Ok y, t) \<longleftrightarrow>
     (\<exists>x s'. m s = (Ok x, s') \<and> k x s' = (Ok y, t)) \<or> (\<exists>e. m s = (Fail e, t) \<and> y = z)"
  by (auto simp: bindM_def tryM_def retM_def split: prod.splits res.splits)

lemma bind_get_mod: "bindM (getM f) k s = k (f s) s" "bindM (modM h) k' s = k' () (h s)"
  by (simp_all add: monad_simps)

lemma keeps_upviper_config:
  "keeps (\<lambda>g. (g_up g, g_viper g)) (configItemInt vp name)"
  unfolding configItemInt_def
  by (intro keeps_intros keeps_modM; auto simp: keeps_def monad_simps split: cfgval.split)

lemma keeps_liftE [keeps_intros]: "keeps f (liftE r)"
  by (cases r) (simp_all add: liftE_def keeps_prims)

lemma keeps_listenKcp: "keeps (\<lambda>g. (g_up g, g_viper g)) (listenKcp vp io laddr n)"
  by (induction n) (auto simp: NewKCPListener_def intro!: keeps_intros keeps_upviper_config)

lemma keeps_listenAll: "keeps (\<lambda>g. (g_up g, g_viper g)) (listenAll vp io)"
  unfolding listenAll_def NewTCPListener_def by (intro keeps_intros keeps_listenKcp)

lemma listenKcp_length: "listenKcp vp io laddr n g = (Ok ls, g') \<Longrightarrow> length ls = n \<and> (\<forall>l \<in> set ls. \<exists>k. l = KcpListener k)"
  by (induction n arbitrary: g ls) (fastforce simp: prim_simps bindM_eq_Ok)+

text \<open>The listeners that a configuration asks for.\<close>

definition asked :: "'v viper_ops \<Rightarrow> 'v \<Rightarrow> nat \<times> nat" where
  "asked vp v = (if vp_GetString vp v ''tcp'' \<noteq> [] then 1 else 0,
     if vp_GetString vp v ''kcp'' \<noteq> [] then nat (max 1 (vp_GetInt vp v ''kcp_option.reuseport'')) else 0)"

definition is_tcp :: "listener \<Rightarrow> bool" where
  "is_tcp l = (case l of TcpListener _ \<Rightarrow> True | KcpListener _ \<Rightarrow> False)"

lemma listenAll_counts:
  assumes "listenAll vp io g = (Ok ls, g')"
  shows "(length (filter is_tcp ls), length (filter (\<lambda>l. \<not> is_tcp l) ls)) = asked vp (g_viper g)"
proof -
  let ?v = "g_viper g"
  obtain tcp g1 where tcp: "(if vp_GetString vp ?v ''tcp'' \<noteq> [] then bindM (NewTCPListener io (vp_GetString vp ?v ''tcp'')) (\<lambda>l. retM [TcpListener l])
      else retM []) g = (Ok tcp, g1)" and rest: "bindM (getM (\<lambda>g. vp_GetString vp (g_viper g) ''kcp'')) (\<lambda>kcpListen.
     bindM (if kcpListen \<noteq> [] then
         bindM (getM (\<lambda>g. vp_GetInt vp (g_viper g) ''kcp_option.reuseport'')) (\<lambda>reuseport.
         listenKcp vp io kcpListen (nat (if reuseport \<le> 0 then 1 else reuseport)))
       else retM []) (\<lambda>kcp. retM (tcp @ kcp))) g1 = (Ok ls, g')"
    using assms by (auto simp: listenAll_def bindM_eq_Ok prim_simps)
  have "g1 = g" using tcp by (auto simp: NewTCPListener_def liftE_def bindM_eq_Ok prim_simps split: if_splits sum.splits)
  then obtain kcp where kcp: "ls = tcp @ kcp"
    "if vp_GetString vp ?v ''kcp'' = [] then kcp = [] else
       listenKcp vp io (vp_GetString vp ?v ''kcp'') (nat (if vp_GetInt vp ?v ''kcp_option.reuseport'' \<le> 0 then 1 else vp_GetInt vp ?v ''kcp_option.reuseport'')) g
         = (Ok kcp, g')"
    using rest by (auto simp: bindM_eq_Ok prim_simps split: if_splits)
  have t: "if vp_GetString vp ?v ''tcp'' = [] then tcp = [] else \<exists>l. tcp = [TcpListener l]"
    using tcp by (auto simp: bindM_eq_Ok prim_simps split: if_splits)
  have k: "length kcp = snd (asked vp ?v) \<and> (\<forall>l \<in> set kcp. \<not> is_tcp l)"
  proof (cases "vp_GetString vp ?v ''kcp'' = []")
    case False
    have n: "nat (if vp_GetInt vp ?v ''kcp_option.reuseport'' \<le> 0 then 1 else vp_GetInt vp ?v ''kcp_option.reuseport'') = snd (asked vp ?v)"
      using False by (simp add: asked_def max_def)
    show ?thesis using kcp(2) False listenKcp_length [of vp io "vp_GetString vp ?v ''kcp''" "snd (asked vp ?v)" g kcp g']
      unfolding n by (auto simp: is_tcp_def)
  qed (use kcp(2) in \<open>simp add: asked_def\<close>)
  have "filter is_tcp kcp = []" "filter (\<lambda>l. \<not> is_tcp l) kcp = kcp" using k by (auto simp: filter_empty_conv)
  then show ?thesis using t k kcp(1) by (auto simp: asked_def is_tcp_def split: if_splits)
qed

section \<open>Properties\<close>


text \<open>The handshake timeout does not bound the handshake of a connection with a read timeout. \<open>Handshake\<close> sets a deadline, but every \<open>Read\<close> of
  \<open>kcpConn\<close> and \<open>tcpConn\<close> sets the read deadline anew, so that each read may last until \<open>read_timeout\<close> after it began. With the
  defaults for KCP (60 seconds against 30 for the handshake) the deadline of the handshake never takes effect on a
  read.\<close>

theorem read_overrides_handshake_deadline:
  assumes "0 < lc_readTimeout conn" "handshakeTimeout < lc_readTimeout conn" "start \<le> now"
    "conn' = snd (kcpConn_Read now n (lc_SetDeadline (Some (start + handshakeTimeout)) conn)) \<or>
     conn' = snd (tcpConn_Read now n (lc_SetDeadline (Some (start + handshakeTimeout)) conn))"
  shows "\<exists>d. lc_readDeadline conn' = Some d \<and> start + handshakeTimeout < d \<and> lc_writeDeadline conn' = Some (start + handshakeTimeout)"
  using assms by (auto simp: kcpConn_Read_def tcpConn_Read_def lc_SetDeadline_def lc_SetReadDeadline_def Let_def split: prod.splits)

theorem read_overrides_handshake_deadline_witness:
  "\<exists>d. lc_readDeadline (snd (kcpConn_Read 5 2 (lc_SetDeadline (Some (0 + seconds 30)) (new_lconn (ex_net []) (seconds 60))))) = Some d \<and>
    seconds 30 < d"
  using read_overrides_handshake_deadline [of "new_lconn (ex_net []) (seconds 60)" "seconds 30" 0 5
      "snd (kcpConn_Read 5 2 (lc_SetDeadline (Some (0 + seconds 30)) (new_lconn (ex_net []) (seconds 60))))" 2, OF _ _ _ disjI1]
  by (auto simp: new_lconn_def seconds_def)

text \<open>A start with one listener of each kind.\<close>

definition ex_io :: main_io where
  "ex_io = \<lparr>io_Listen = (\<lambda>a. Inr 1), io_ListenPacket = (\<lambda>a. Inr 2), io_ServeConn = (\<lambda>d p c. Inr 3), io_Error = (\<lambda>e. [])\<rparr>"

definition ex_flags :: main_flags where
  "ex_flags = \<lparr>fl_version = False, fl_t = False, fl_T = False, fl_config = ''config.yaml''\<rparr>"

lemma ex_main: obtains g' where "main ex_env ex_viper ex_io ex_flags (ex_goscon 0) = (Ok (Serving (Some 1) [TcpListener 1, KcpListener 3]), g')"
proof (rule ex_reload)
  fix g1
  assume r: "reloadConfig ex_env ex_viper (ex_goscon 0) = (Ok (), g1)"
  have g1: "g_viper g1 = 1" "g_cache g1 = Map.empty"
    using reloadConfig_viper_cache [of ex_viper "ex_goscon 0" ex_env] r by (simp_all add: readable_def ex_viper_def ex_goscon_def)
  have sc: "(ex_goscon 0)\<lparr>g_viper := vp_SetConfigFile ex_viper x (g_viper (ex_goscon 0))\<rparr> = ex_goscon 0" for x
    by (simp add: ex_goscon_def ex_viper_def)
  have "fst (listenAll ex_viper ex_io g1) = Ok [TcpListener 1, KcpListener 3]"
    by (simp add: listenAll_def monad_simps NewTCPListener_def NewKCPListener_def liftE_def ex_io_def configItemInt_def g1 ex_viper_def numeral_eq_Suc)
  then obtain g2 where "listenAll ex_viper ex_io g1 = (Ok [TcpListener 1, KcpListener 3], g2)" by (metis prod.collapse)
  moreover have "startManager ex_io (vp_GetString ex_viper (g_viper g1) ''manager'') g1 = (Ok (Some 1), g1)"
    by (simp add: startManager_def liftE_def ex_io_def ex_viper_def monad_simps)
  ultimately show thesis using that r by (simp add: main_def ex_flags_def monad_simps sc)
qed


end
