(* ===== verification/Server_Accounts.thy ===== *)
theory Server_Accounts
  imports Scp_Server Scp_Connect
begin

text \<open>
  The accounts of the server (\<open>server.go\<close>, \<open>metric.go\<close>): the two counters of connections against the handlers that are running, and what a
  handler leaves behind when it ends.
\<close>

section \<open>The counters of connections\<close>

definition tally :: "SCPServer \<Rightarrow> int \<times> int" where
  "tally ss = (mt_connectionAccepts (ss_metrics ss), mt_connectionCloses (ss_metrics ss))"

abbreviation wtally :: "SCPServer world \<Rightarrow> int \<times> int" where
  "wtally \<equiv> (\<lambda>w. tally (w_server w))"

abbreviation gtally :: "'v program \<Rightarrow> int \<times> int" where
  "gtally \<equiv> (\<lambda>g. tally (w_server (g_w g)))"

lemma wtally_server: "keeps w_server m \<Longrightarrow> keeps wtally m"
  by (simp add: keeps_def)

lemma wtally_onServer: "keeps tally m \<Longrightarrow> keeps wtally (onServer m)"
  by (auto simp: keeps_def onServer_def split: prod.split) (metis snd_conv)

lemma gtally_onWorld: "keeps wtally m \<Longrightarrow> keeps gtally (onWorld m)"
  by (auto simp: keeps_def onWorld_def split: prod.split) (metis snd_conv)

lemma gtally_onWU: "keeps wsrv m \<Longrightarrow> keeps gtally (onWU m)"
  by (auto simp: keeps_def onWU_def split: prod.split) (metis fst_conv snd_conv)

lemma wtally_metric: "(\<And>m. mt_connectionAccepts (f m) = mt_connectionAccepts m) \<Longrightarrow> (\<And>m. mt_connectionCloses (f m) = mt_connectionCloses m) \<Longrightarrow>
    keeps wtally (metric f)"
  unfolding metric_def by (intro wtally_onServer keeps_modM) (simp add: tally_def)

lemma tally_tables: "keeps tally (new_session m)" "keeps tally (new_pair p)" "keeps tally (addConnPair i q)" "keeps tally (removeConnPair i)"
  by (simp_all add: keeps_def new_session_def new_pair_def addConnPair_def removeConnPair_def tally_def modM_def)

lemma wtally_onSession: "keeps wtally (onSession a (ReplaceConn scon))"
proof (rule keeps_state)
  fix w :: "SCPServer world"
  let ?c = "s_Conn (m_s (ss_sessions (w_server w) a))"
  have "w_server (snd (Conn_Close ?c w)) = w_server w" by (rule keeps_server_close(2) [unfolded keeps_def, rule_format])
  then show "wtally (snd (onSession a (ReplaceConn scon) w)) = wtally w"
    by (cases "Conn_Close ?c w"; cases "fst (Conn_Close ?c w)") (auto simp: onSession_def ReplaceConn_def tally_def)
qed

lemmas tally_intros = keeps_bindM keeps_tryM keeps_prims keeps_if keeps_option keeps_sum keeps_prod keeps_Let keeps_conn_of
  gtally_onWorld wtally_onServer wtally_onSession tally_tables wtally_server [OF keeps_server_close(2)]

lemma gtally_config: "keeps gtally (configItemTime vp name)"
  unfolding configItemTime_def configItemInt_def
  by (intro tally_intros keeps_modM; auto simp: keeps_def monad_simps split: cfgval.split)

lemma wtally_release: "keeps wtally (ReleaseID_srv goscon_ops i)"
  by (rule keeps_state) (auto simp: ReleaseID_srv_def goscon_ops_def srv_ReleaseID_def map_res_def tally_def split: res.split)

lemma gtally_connect:
  assumes "program_hook env hook"
  shows "keeps gtally (onNewConn_connect env vp hook scon i p)"
proof -
  have "keeps gtally (newUpstreamConn env vp hook scon)"
    unfolding newUpstreamConn_def
  proof (intro tally_intros)
    show "keeps gtally (onWU (NewConn env goscon_ops hook scon))" by (rule gtally_onWU [OF keeps_NewConn [OF assms]])
    show "keeps gtally (case conn of NilConn \<Rightarrow> retM (NoLocal, None) | TcpConn n \<Rightarrow> retM (LocalTcp n, None)
        | ScpConn c \<Rightarrow> bindM (configItemTime vp ''scp.reuse_time'') (\<lambda>t.
           bindM (onWorld (onServer (new_session (NewLocalSCPConn c t)))) (\<lambda>a. retM (LocalScp a, None))))" for conn
      by (cases conn) (auto intro!: tally_intros gtally_config)
  qed
  then show ?thesis
    unfolding onNewConn_connect_def by (intro tally_intros wtally_metric keeps_modM) (simp_all add: tally_def)
qed

lemma goscon_tally:
  "tally (snd (op_AcquireID goscon_ops ss)) = tally ss" "op_ReleaseID goscon_ops ss i = Ok ss' \<Longrightarrow> tally ss' = tally ss"
  by (auto simp: goscon_ops_def srv_AcquireID_def srv_ReleaseID_def map_res_def tally_def split: prod.split res.splits)

text \<open>A handshake is counted once, whatever becomes of it.\<close>

lemma handshake_tally:
  assumes "handle_handshake conn w = (r, w')"
  shows "tally (w_server w') = (fst (wtally w) + 1, snd (wtally w))"
proof -
  let ?cf = "\<lparr>cf_Flag = 0, cf_TargetServer = [], cf_ConnForReused = None, cf_ScpServer = True\<rparr>"
  obtain w1 where w1: "metric (\<lambda>m. m\<lparr>mt_connectionAccepts := mt_connectionAccepts m + 1\<rparr>) w = (Ok (), w1)"
    and t1: "wtally w1 = (fst (wtally w) + 1, snd (wtally w))" by (simp add: metric_eq tally_def)
  define w2 where "w2 = w1\<lparr>w_conns := (w_conns w1)(w_next w1 := zeroConn conn (Config_clone ?cf)), w_next := Suc (w_next w1)\<rparr>"
  define after where "after = (\<lambda>err. case err of
       Some e \<Rightarrow> bindM (Conn_Close (w_next w1)) (\<lambda>_. bindM (metricOnHandshakeError e) (\<lambda>_. retM Leaving))
     | None \<Rightarrow> bindM (conn_of (w_next w1)) (\<lambda>cc.
         retM (if IsReused cc then Reusing (w_next w1) else Registering (w_next w1) (c_id cc))))"
  obtain rh w3 where h: "Handshake goscon_ops (w_next w1) w2 = (rh, w3)" by fastforce
  have run: "bindM (Handshake goscon_ops (w_next w1)) after w2 = (r, w')"
    using assms w1 by (simp add: handle_handshake_def bindM_app Server_def alloc_conn_def w2_def after_def Config_clone_def)
  have "srv_effect goscon_ops (w_server w2) (w_server w3)
      (\<lambda>b i. rh = Ok None \<and> c_reused (w_conns w3 (w_next w1)) = b \<and> c_id (w_conns w3 (w_next w1)) = i)"
    by (rule Handshake_effect [OF h]) (simp_all add: w2_def zeroConn_def Config_clone_def)
  then have t3: "tally (w_server w3) = tally (w_server w2)"
    unfolding srv_effect_def by (elim disjE conjE) (simp_all add: goscon_tally goscon_tally(2) [of _ _ "w_server w3"])
  have "keeps wtally (after err)" for err
    unfolding after_def metricOnHandshakeError_def by (intro tally_intros wtally_metric) simp_all
  then have "tally (w_server w') = tally (w_server w3)"
    using run h keepsD [of wtally "after x" for x] by (cases rh) (auto simp: monad_simps)
  then show ?thesis using t3 t1 by (simp add: w2_def)
qed

lemma step_tally:
  assumes "handler_step env vp hook h g = (r, g')" "program_hook env hook"
  shows "gtally g' = (case h of Accepted c \<Rightarrow> (fst (gtally g) + 1, snd (gtally g)) | _ \<Rightarrow> gtally g)"
proof (cases h)
  case (Accepted conn)
  then obtain w' where "handle_handshake conn (g_w g) = (r, w')" "g' = g\<lparr>g_w := w'\<rparr>"
    using assms(1) by (auto simp: onWorld_def split: prod.splits)
  then show ?thesis using handshake_tally Accepted by simp
next
  case (Reusing scon)
  have "keeps wtally (onReuseConn scon)"
    unfolding onReuseConn_def reuse_fails_def by (intro tally_intros wtally_metric) simp_all
  then have "keeps gtally (handler_step env vp hook h)" unfolding Reusing handler_step.simps by (intro tally_intros)
  from keepsD [OF this assms(1)] Reusing show ?thesis by simp
next
  case (Registering scon i)
  have "keeps gtally (handler_step env vp hook h)"
    unfolding Registering handler_step.simps onNewConn_register_def by (intro tally_intros gtally_config)
  from keepsD [OF this assms(1)] Registering show ?thesis by simp
next
  case (Connecting scon i p)
  from keepsD [OF gtally_connect [OF assms(2)]] Connecting assms(1) show ?thesis by auto
next
  case (Releasing i)
  have "keeps gtally (handler_step env vp hook h)"
    unfolding Releasing handler_step.simps by (intro tally_intros wtally_release)
  from keepsD [OF this assms(1)] Releasing show ?thesis by simp
next
  case (Removing i)
  have "keeps gtally (handler_step env vp hook h)" unfolding Removing handler_step.simps by (intro tally_intros)
  from keepsD [OF this assms(1)] Removing show ?thesis by simp
qed (use assms(1) in \<open>auto simp: monad_simps\<close>)

section \<open>Registration\<close>

text \<open>\<open>MustRegister\<close> panics when a name is already registered; the registry is the list of names.\<close>

definition MustRegister :: "string \<Rightarrow> string list \<Rightarrow> string list res" where
  "MustRegister name reg = (if name \<in> set reg then Panic ''duplicate metrics collector registration attempted'' else Ok (reg @ [name]))"

definition metric_names :: "string list" where
  "metric_names = [''goscon_connection_accepts'', ''goscon_connection_accept_fails'', ''goscon_connection_close'', ''goscon_handshake_errors'',
     ''goscon_connection_reuses'', ''goscon_connection_resend'', ''goscon_connection_reuse_fails'', ''goscon_upstream_fails'']"

definition metric_init :: "string list \<Rightarrow> string list res" where
  "metric_init reg = fold (\<lambda>name r. bind_res r (MustRegister name)) metric_names (Ok reg)"

text \<open>The start of the program does not panic on its counters unless another package has taken one of their names.\<close>

lemma register_all:
  "distinct names \<Longrightarrow> set names \<inter> set reg = {} \<Longrightarrow> fold (\<lambda>name r. bind_res r (MustRegister name)) names (Ok reg) = Ok (reg @ names)"
  by (induction names arbitrary: reg) (auto simp: MustRegister_def bind_res_def)

lemma metric_init_ok: "set metric_names \<inter> set reg = {} \<Longrightarrow> metric_init reg = Ok (reg @ metric_names)"
  unfolding metric_init_def by (rule register_all) (simp_all add: metric_names_def)

section \<open>The handlers that are running\<close>

text \<open>The handlers that have begun and not ended.\<close>

definition running :: "(nat \<Rightarrow> hpc option) \<Rightarrow> nat set" where
  "running hs = {t. \<exists>h. hs t = Some h \<and> (\<forall>c. h \<noteq> Accepted c)}"

definition balanced :: "int \<times> int \<Rightarrow> (nat \<Rightarrow> hpc option) \<Rightarrow> bool" where
  "balanced = (\<lambda>(accepts, closes) hs. finite (running hs) \<and> accepts - closes = int (card (running hs)))"

lemma running_start: "hs t = None \<Longrightarrow> running (hs(t \<mapsto> Accepted c)) = running hs"
  by (auto simp: running_def split: if_splits)

lemma running_stop: "hs t = Some Leaving \<Longrightarrow> t \<in> running hs \<and> running (hs(t := None)) = running hs - {t}"
  by (auto simp: running_def)

lemma running_move:
  assumes "hs t = Some h" "\<forall>c. h' \<noteq> Accepted c"
  shows "running (hs(t \<mapsto> h')) = insert t (running hs)" "t \<in> running hs \<longleftrightarrow> (\<forall>c. h \<noteq> Accepted c)"
  using assms by (auto simp: running_def)

lemma next_not_accepted:
  assumes "handler_step env vp hook h g = (r, g')" "next_pc h r h'"
  shows "h' \<noteq> Accepted c"
proof (cases "r = Ok h'")
  case True
  show ?thesis
  proof (cases h)
    case (Accepted conn)
    then obtain w' where "handle_handshake conn (g_w g) = (Ok h', w')" using assms(1) True by (auto simp: onWorld_def split: prod.splits)
    then show ?thesis by (auto simp: handle_handshake_def bindM_eq_Ok prim_simps split: option.splits if_splits)
  qed (use assms(1) True in \<open>auto simp: onNewConn_register_def onNewConn_connect_def bindM_eq_Ok prim_simps split: if_splits\<close>)
next
  case False
  then have "h' = unwind h" using assms(2) by (auto simp: next_pc_def)
  then show ?thesis by (cases h) auto
qed

lemma step_balanced:
  assumes b: "balanced (gtally g) hs" and h: "hs t = Some h" and hook: "program_hook env hook"
    and st: "handler_step env vp hook h g = (r, g')" "next_pc h r h'"
  shows "balanced (gtally g') (hs(t \<mapsto> h'))"
proof -
  have "\<forall>c. h' \<noteq> Accepted c" using next_not_accepted [OF st] by blast
  note m = running_move [of hs t h h', OF h this]
  show ?thesis using b m step_tally [OF st(1) hook]
    by (cases h) (auto simp: balanced_def insert_absorb split: prod.splits)
qed

lemma hstep_balanced:
  assumes "hstep env vp hook s s'" "balanced (gtally (gs_g s)) (gs_h s)" "program_hook env hook"
  shows "balanced (gtally (gs_g s')) (gs_h s')"
  using assms
proof (induction rule: hstep.induct)
  case (Go s t conn)
  then show ?case using running_start [of "gs_h s" t conn] by (simp add: balanced_def fun_upd_def split: prod.splits)
next
  case (Step s t h h' g')
  then show ?case using step_balanced [of "gs_g s" "gs_h s" t h env hook vp "Ok h'" g' h'] by (simp add: next_pc_def fun_upd_def)
next
  case (Panics s t h m g')
  then show ?case using step_balanced [of "gs_g s" "gs_h s" t h env hook vp "Panic m" g' "unwind h"] by (simp add: next_pc_def fun_upd_def)
next
  case (Leave s t g')
  have "gtally g' = (fst (gtally (gs_g s)), snd (gtally (gs_g s)) + 1)"
    using Leave(2) by (auto simp: onWorld_def metric_eq tally_def)
  moreover have "t \<in> running (gs_h s)" "running ((gs_h s)(t := None)) = running (gs_h s) - {t}" using running_stop [of "gs_h s" t, OF Leave(1)] by simp_all
  moreover have "int (card (running (gs_h s))) = int (card (running (gs_h s) - {t})) + 1" if "finite (running (gs_h s))"
    using card_Suc_Diff1 [OF that calculation(2)] by linarith
  ultimately show ?case using Leave(3) by (cases "gtally (gs_g s)") (simp add: balanced_def fun_upd_def del: card_Diff_insert)
next
  case (Other s g')
  then show ?case by (simp add: other_change_def tally_def)
qed

lemma reach_balanced:
  assumes "(hstep env vp hook)\<^sup>*\<^sup>* \<lparr>gs_g = g0, gs_h = Map.empty\<rparr> s" "defaultServer = Ok (srv g0)" "program_hook env hook"
  shows "balanced (gtally (gs_g s)) (gs_h s)"
  using assms(1)
proof (induction rule: rtranclp_induct)
  case base
  have "tally (srv g0) = (0, 0)" using assms(2) by (cases "srv g0") (auto simp: defaultServer_def map_res_def NewIDAllocator_def tally_def)
  then show ?case by (simp add: balanced_def running_def)
next
  case (step s s')
  then show ?case using hstep_balanced assms(3) by blast
qed

section \<open>The end of a handler\<close>

lemma release_run:
  assumes I: "inv_at (gcore (gs_g s)) (gs_h s)" and h: "gs_h s t = Some (Releasing i)"
  obtains g' where "(hstep env vp hook)\<^sup>*\<^sup>* s \<lparr>gs_g = g', gs_h = (gs_h s)(t := None)\<rparr>"
    "outstanding (ss_idAllocator (srv g')) = outstanding (ss_idAllocator (srv (gs_g s))) - {i}"
    "ss_connPairs (srv g') = ss_connPairs (srv (gs_g s))" "gtally g' = (fst (gtally (gs_g s)), snd (gtally (gs_g s)) + 1)"
proof -
  let ?ss = "srv (gs_g s)"
  have I': "inv_at (ss_idAllocator ?ss, ss_connPairs ?ss) (gs_h s)" using I by (simp add: core_def)
  obtain a' where a': "ReleaseID (ss_idAllocator ?ss) i = Ok a'" "inv_at (a', ss_connPairs ?ss) ((gs_h s)(t \<mapsto> Leaving))"
    by (rule release_inv [OF I' h])
  have out: "outstanding a' = outstanding (ss_idAllocator ?ss) - {i}"
    using ReleaseID_step [OF inv_atD(1) [OF I'], of i] inv_mine [OF I' h, of i] a'(1) by auto
  define g1 where "g1 = (gs_g s)\<lparr>g_w := (g_w (gs_g s))\<lparr>w_server := ?ss\<lparr>ss_idAllocator := a'\<rparr>\<rparr>\<rparr>"
  have "handler_step env vp hook (Releasing i) (gs_g s) = (Ok Leaving, g1)"
    using a'(1) by (simp add: monad_simps onWorld_def ReleaseID_srv_def goscon_ops_def srv_ReleaseID_def g1_def)
  from hstep.Step [OF h this] have s1: "hstep env vp hook s \<lparr>gs_g = g1, gs_h = (gs_h s)(t \<mapsto> Leaving)\<rparr>" (is "hstep _ _ _ _ ?s1") .
  define g2 where "g2 = g1\<lparr>g_w := (g_w g1)\<lparr>w_server := (srv g1)\<lparr>ss_metrics := (ss_metrics (srv g1))\<lparr>mt_connectionCloses :=
    mt_connectionCloses (ss_metrics (srv g1)) + 1\<rparr>\<rparr>\<rparr>\<rparr>"
  have "hstep env vp hook ?s1 \<lparr>gs_g = g2, gs_h = (gs_h ?s1)(t := None)\<rparr>"
    by (rule hstep.Leave) (simp_all add: onWorld_def metric_eq g2_def)
  then have "(hstep env vp hook)\<^sup>*\<^sup>* s \<lparr>gs_g = g2, gs_h = (gs_h s)(t := None)\<rparr>"
    using s1 by (simp add: converse_rtranclp_into_rtranclp r_into_rtranclp)
  then show thesis by (rule that) (simp_all add: g2_def g1_def out tally_def)
qed

lemma remove_run:
  assumes I: "inv_at (gcore (gs_g s)) (gs_h s)" and h: "gs_h s t = Some (Removing i)"
  obtains g' where "(hstep env vp hook)\<^sup>*\<^sup>* s \<lparr>gs_g = g', gs_h = (gs_h s)(t := None)\<rparr>"
    "outstanding (ss_idAllocator (srv g')) = outstanding (ss_idAllocator (srv (gs_g s))) - {i}"
    "ss_connPairs (srv g') = (ss_connPairs (srv (gs_g s)))(i := None)" "gtally g' = (fst (gtally (gs_g s)), snd (gtally (gs_g s)) + 1)"
proof -
  let ?ss = "srv (gs_g s)"
  have I': "inv_at (ss_idAllocator ?ss, ss_connPairs ?ss) (gs_h s)" using I by (simp add: core_def)
  define g1 where "g1 = (gs_g s)\<lparr>g_w := (g_w (gs_g s))\<lparr>w_server := ?ss\<lparr>ss_connPairs := (ss_connPairs ?ss)(i := None)\<rparr>\<rparr>\<rparr>"
  have "handler_step env vp hook (Removing i) (gs_g s) = (Ok (Releasing i), g1)"
    by (simp add: monad_simps onWorld_def onServer_def removeConnPair_def g1_def)
  from hstep.Step [OF h this] have s1: "hstep env vp hook s \<lparr>gs_g = g1, gs_h = (gs_h s)(t \<mapsto> Releasing i)\<rparr>" (is "hstep _ _ _ _ ?s1") .
  have "inv_at (gcore (gs_g ?s1)) (gs_h ?s1)" using remove_inv [OF I' h] by (simp add: g1_def core_def)
  moreover have "gs_h ?s1 t = Some (Releasing i)" by simp
  ultimately obtain g' where g': "(hstep env vp hook)\<^sup>*\<^sup>* ?s1 \<lparr>gs_g = g', gs_h = (gs_h ?s1)(t := None)\<rparr>"
    "outstanding (ss_idAllocator (srv g')) = outstanding (ss_idAllocator (srv (gs_g ?s1))) - {i}"
    "ss_connPairs (srv g') = ss_connPairs (srv (gs_g ?s1))" "gtally g' = (fst (gtally (gs_g ?s1)), snd (gtally (gs_g ?s1)) + 1)"
    by (rule release_run)
  have "(hstep env vp hook)\<^sup>*\<^sup>* s \<lparr>gs_g = g', gs_h = (gs_h s)(t := None)\<rparr>" using s1 g'(1) by (simp add: converse_rtranclp_into_rtranclp)
  then show thesis by (rule that) (use g'(2-4) in \<open>simp_all add: g1_def tally_def\<close>)
qed

section \<open>Properties\<close>

text \<open>C17. The counters of connections balance: in every reachable state, the number of connections accepted less the number closed, as the
  server counts them for its monitoring, is the number of handlers that have begun and not ended. No panic, failed handshake or refused
  backend makes them drift.\<close>

theorem metrics_balance:
  assumes "(hstep env vp hook)\<^sup>*\<^sup>* \<lparr>gs_g = g0, gs_h = Map.empty\<rparr> s" "defaultServer = Ok (srv g0)" "program_hook env hook"
  shows "finite (running (gs_h s)) \<and>
    mt_connectionAccepts (ss_metrics (srv (gs_g s))) - mt_connectionCloses (ss_metrics (srv (gs_g s))) = int (card (running (gs_h s)))"
  using reach_balanced [OF assms] by (simp add: balanced_def tally_def)

text \<open>C16. A handler leaves nothing behind. When the pump of a session has returned, or a panic after its registration has unwound to the
  deferred calls, the handler by itself gets to its end: its id is released and its pair removed, nothing of any other handler changes, the
  id is no longer found, and the connection is counted as closed.\<close>

theorem handler_cleans_up:
  assumes "(hstep env vp hook)\<^sup>*\<^sup>* \<lparr>gs_g = g0, gs_h = Map.empty\<rparr> s" "defaultServer = Ok (srv g0)" "program_hook env hook"
    and h: "gs_h s t = Some h" "h \<in> {Pumping c i p, Removing i, Releasing i}"
  shows "\<exists>g'. (hstep env vp hook)\<^sup>*\<^sup>* s \<lparr>gs_g = g', gs_h = (gs_h s)(t := None)\<rparr> \<and>
    outstanding (ss_idAllocator (srv g')) = outstanding (ss_idAllocator (srv (gs_g s))) - {i} \<and>
    ss_connPairs (srv g') = (ss_connPairs (srv (gs_g s)))(i := None) \<and> srv_QueryByID (srv g') i = None \<and>
    mt_connectionCloses (ss_metrics (srv g')) = mt_connectionCloses (ss_metrics (srv (gs_g s))) + 1"
proof -
  note I = reach_inv [OF assms(1-3)]
  then have I': "inv_at (ss_idAllocator (srv (gs_g s)), ss_connPairs (srv (gs_g s))) (gs_h s)" by (simp add: core_def)
  have "\<exists>g'. (hstep env vp hook)\<^sup>*\<^sup>* s \<lparr>gs_g = g', gs_h = (gs_h s)(t := None)\<rparr> \<and>
    outstanding (ss_idAllocator (srv g')) = outstanding (ss_idAllocator (srv (gs_g s))) - {i} \<and>
    ss_connPairs (srv g') = (ss_connPairs (srv (gs_g s)))(i := None) \<and> gtally g' = (fst (gtally (gs_g s)), snd (gtally (gs_g s)) + 1)"
    using h(2)
  proof (elim insertE emptyE)
    assume p: "h = Pumping c i p"
    let ?s = "s\<lparr>gs_h := (gs_h s)(t \<mapsto> Removing i)\<rparr>"
    have "hstep env vp hook s \<lparr>gs_g = gs_g s, gs_h = (gs_h s)(t \<mapsto> Removing i)\<rparr>"
      by (rule hstep.Step [OF h(1)]) (simp add: p monad_simps)
    then have st: "hstep env vp hook s ?s" by (cases s) simp
    have "inv_at (gcore (gs_g ?s)) (gs_h ?s)" using inv_keep [OF I' h(1), of "Removing i"] by (simp add: p core_def)
    then obtain g' where "(hstep env vp hook)\<^sup>*\<^sup>* ?s \<lparr>gs_g = g', gs_h = (gs_h ?s)(t := None)\<rparr>"
      "outstanding (ss_idAllocator (srv g')) = outstanding (ss_idAllocator (srv (gs_g ?s))) - {i}"
      "ss_connPairs (srv g') = (ss_connPairs (srv (gs_g ?s)))(i := None)" "gtally g' = (fst (gtally (gs_g ?s)), snd (gtally (gs_g ?s)) + 1)"
      by (rule remove_run [where t = t]) simp
    then show ?thesis using st by (intro exI [of _ g']) (simp add: converse_rtranclp_into_rtranclp)
  next
    assume "h = Removing i"
    then show ?thesis using remove_run [OF I, of t i env vp hook] h(1) by metis
  next
    assume r: "h = Releasing i"
    have "paired h' \<noteq> Some i" if "gs_h s t' = Some h'" for t' h'
      using inv_mine [OF I' h(1), of i] paired_id [of h' i] h(1) r that by (cases "t' = t") auto
    then have "ss_connPairs (srv (gs_g s)) i = None" using inv_atD(4) [OF I', of i] by blast
    then have "(ss_connPairs (srv (gs_g s)))(i := None) = ss_connPairs (srv (gs_g s))" by (rule fun_upd_idem)
    then show ?thesis using release_run [OF I, of t i env vp hook] h(1) r by metis
  qed
  then show ?thesis by (auto simp: tally_def query_session session_of_def)
qed

section \<open>A new session\<close>

lemma handler_begins:
  assumes w: "wf_world w" "nc_good (w_nets w conn)" "w_HandshakeTimeout w = 0" "PrivateKey (w_rand w) (w_rpos w) = Some (y, j)" "w_server w = ss"
    and rq: "CHR 0x0A \<notin> set (cf_TargetServer cf)" "length (cf_TargetServer cf) < 60000" "int64 (cf_Flag cf)" "kx \<noteq> 0"
    and rx: "concat (nc_rx (w_nets w conn)) = frame (newConnReq_marshal (new_request cf kx)) @ p"
    and x: "x \<noteq> 0" "PublicKey x = Some (Ok kx)"
  obtains w' where "handle_handshake conn w = (Ok (Registering (w_next w) (fst (AcquireID (ss_idAllocator ss)))), w')"
    "cf_TargetServer (c_config (w_conns w' (w_next w))) = cf_TargetServer cf"
proof -
  let ?cf = "\<lparr>cf_Flag = 0, cf_TargetServer = [], cf_ConnForReused = None, cf_ScpServer = True\<rparr>" and ?c = "w_next w"
  obtain sv where sv: "metric (\<lambda>m. m\<lparr>mt_connectionAccepts := mt_connectionAccepts m + 1\<rparr>) w = (Ok (), w\<lparr>w_server := sv\<rparr>)"
    "ss_idAllocator sv = ss_idAllocator ss" using w(5) by (simp add: metric_eq)
  define w2 where "w2 = w\<lparr>w_server := sv, w_conns := (w_conns w)(?c := zeroConn conn (Config_clone ?cf)), w_next := Suc ?c\<rparr>"
  have c2: "w_conns w2 ?c = zeroConn conn (Config_clone ?cf)" "net_of w2 ?c = w_nets w conn" "w_HandshakeTimeout w2 = 0"
    "PrivateKey (w_rand w2) (w_rpos w2) = Some (y, j)" "w_server w2 = sv"
    using w(3,4) by (simp_all add: w2_def net_of_def zeroConn_def)
  have wf2: "wf_world w2" using w(1) unfolding w2_def by (fastforce simp: wf_world_def zeroConn_def)
  have cl: "\<not> nc_closed (net_of w2 ?c)" using w(2) c2(2) by (simp add: nc_good_def)
  have rx2: "concat (nc_rx (net_of w2 ?c)) = frame (newConnReq_marshal (new_request cf kx)) @ p" using rx c2(2) by simp
  obtain xs where sh: "serverHandshake goscon_ops ?c w2 = serverNewHandshake goscon_ops ?c (new_request cf kx) (rx_on ?c xs w2)"
    by (rule serverHandshake_new [OF cl rq(1-3) rx2])
  have y: "y \<noteq> 0" using PrivateKey_nonzero w(4) by fastforce
  obtain kx' ky t where t: "PublicKey x = Some (Ok kx')" "PublicKey y = Some (Ok ky)" "Secret y kx' = Some (Ok t)"
    using Secret_commutes [OF x(1) y] by metis
  have sec: "Secret y (Uint64 (nq_key (new_request cf kx))) = Some (Ok t)" using t(1,3) x(2) by (simp add: new_request_def)
  obtain w3 where w3: "serverNewHandshake goscon_ops ?c (new_request cf kx) (rx_on ?c xs w2) = (Ok (), w3)"
    "established w3 ?c (fst (op_AcquireID goscon_ops (w_server (rx_on ?c xs w2)))) (toLeu64 t)"
    "cf_TargetServer (c_config (w_conns w3 ?c)) = nq_targetServer (new_request cf kx)"
    by (rule serverNewHandshake_run [of "rx_on ?c xs w2" ?c y j ky "new_request cf kx" t goscon_ops])
      (use wf2 c2 t(2) sec w(2) in simp_all)
  define w4 where "w4 = w3\<lparr>w_conns := (w_conns w3)(?c := (setConnErr None (w_conns w3 ?c))\<lparr>c_handshaked := True\<rparr>)\<rparr>"
  have "Handshake goscon_ops ?c w2 = (Ok None, w4)"
    using c2(1,3) sh w3(1) by (simp add: w4_def Handshake_def handshake_once_def monad_simps zeroConn_def Config_clone_def IsServerConn_def)
  moreover have "c_id (w_conns w4 ?c) = fst (AcquireID (ss_idAllocator ss))" "\<not> IsReused (w_conns w4 ?c)"
    "cf_TargetServer (c_config (w_conns w4 ?c)) = cf_TargetServer cf"
    using w3(2,3) c2(5) sv(2) by (simp_all add: w4_def established_def goscon_AcquireID setConnErr_def new_request_def IsReused_def)
  ultimately show thesis
    using sv(1) by (intro that [of w4])
      (simp_all add: handle_handshake_def bindM_app Server_def alloc_conn_def w2_def Config_clone_def conn_of_eq monad_simps)
qed

text \<open>A client that begins a session when no backends are configured: the handler panics after it has registered the pair, and is left with
  the deferred calls.\<close>

definition ex_request :: "SCPServer \<Rightarrow> nat program" where
  "ex_request ss = (ex_program ss)\<lparr>g_w := (ex_sworld ss)\<lparr>w_nets := \<lambda>_. ex_net [frame (newConnReq_marshal (new_request defaultConfig 125))]\<rparr>\<rparr>"

lemma ex_begins:
  obtains g1 where "handler_step ex_env ex_viper None (Accepted 5) (ex_request ss) = (Ok (Registering 9 (fst (AcquireID (ss_idAllocator ss)))), g1)"
    "cf_TargetServer (c_config (w_conns (g_w g1) 9)) = []" "g_up g1 = ex_upstreams" "g_cache g1 = Map.empty"
proof -
  let ?w = "g_w (ex_request ss)"
  have w: "wf_world ?w" "nc_good (w_nets ?w 5)" "w_HandshakeTimeout ?w = 0" "w_server ?w = ss" "w_next ?w = 9"
    "concat (nc_rx (w_nets ?w 5)) = frame (newConnReq_marshal (new_request defaultConfig 125)) @ []"
    by (simp_all add: ex_request_def ex_program_def ex_sworld_def wf_world_def nc_good_def ex_net_def zeroConn_def)
  have pk: "PrivateKey (w_rand ?w) (w_rpos ?w) = Some (3, 1)"
    using PrivateKey_from [of "\<lambda>_. 3" 0 0] by (simp add: ex_request_def ex_program_def ex_sworld_def)
  obtain w' where "handle_handshake 5 ?w = (Ok (Registering (w_next ?w) (fst (AcquireID (ss_idAllocator ss)))), w')"
    "cf_TargetServer (c_config (w_conns w' (w_next ?w))) = cf_TargetServer defaultConfig"
    by (rule handler_begins [OF w(1-3) pk w(4) _ _ _ _ w(6) _ PublicKey_3]) (simp_all add: defaultConfig_def)
  note h = this [unfolded w(5)]
  show thesis
  proof (rule that [of "(ex_request ss)\<lparr>g_w := w'\<rparr>"])
    show "handler_step ex_env ex_viper None (Accepted 5) (ex_request ss) =
        (Ok (Registering 9 (fst (AcquireID (ss_idAllocator ss)))), (ex_request ss)\<lparr>g_w := w'\<rparr>)" by (simp add: onWorld_def h(1))
  qed (use h(2) in \<open>simp_all add: ex_request_def ex_program_def defaultConfig_def\<close>)
qed

lemma hstep_alone:
  "handler_step env vp hook h g = (Ok h', g') \<Longrightarrow> hstep env vp hook \<lparr>gs_g = g, gs_h = [t \<mapsto> h]\<rparr> \<lparr>gs_g = g', gs_h = [t \<mapsto> h']\<rparr>"
  "handler_step env vp hook h g = (Panic m, g') \<Longrightarrow> hstep env vp hook \<lparr>gs_g = g, gs_h = [t \<mapsto> h]\<rparr> \<lparr>gs_g = g', gs_h = [t \<mapsto> unwind h]\<rparr>"
  using hstep.Step [of "\<lparr>gs_g = g, gs_h = [t \<mapsto> h]\<rparr>" t h env vp hook h' g'] hstep.Panics [of "\<lparr>gs_g = g, gs_h = [t \<mapsto> h]\<rparr>" t h env vp hook m g']
  by simp_all

lemma ex_removing:
  assumes "defaultServer = Ok ss"
  obtains g' where "(hstep ex_env ex_viper None)\<^sup>*\<^sup>* \<lparr>gs_g = ex_request ss, gs_h = Map.empty\<rparr> \<lparr>gs_g = g', gs_h = [0 \<mapsto> Removing 1]\<rparr>"
proof -
  let ?s = "\<lambda>g h. \<lparr>gs_g = g, gs_h = [0 \<mapsto> h]\<rparr> :: nat gsys"
  have i: "fst (AcquireID (ss_idAllocator ss)) = 1" using assms by (auto simp: defaultServer_def map_res_def NewIDAllocator_def AcquireID_def)
  obtain g1 where g1: "handler_step ex_env ex_viper None (Accepted 5) (ex_request ss) = (Ok (Registering 9 1), g1)"
    "cf_TargetServer (c_config (w_conns (g_w g1) 9)) = []" "g_up g1 = ex_upstreams" "g_cache g1 = Map.empty"
    using ex_begins [of ss] i by metis
  have s1: "(hstep ex_env ex_viper None)\<^sup>*\<^sup>* \<lparr>gs_g = ex_request ss, gs_h = Map.empty\<rparr> (?s g1 (Registering 9 1))"
    using hstep.Go [of "\<lparr>gs_g = ex_request ss, gs_h = Map.empty\<rparr>" 0 ex_env ex_viper None 5]
      hstep_alone(1) [OF g1(1), of 0] by (simp add: converse_rtranclp_into_rtranclp)
  have "server_inv (?s g1 (Registering 9 1))"
    by (rule reach_inv [OF s1]) (simp_all add: assms program_hook_def ex_request_def ex_sworld_def ex_program_def)
  then have p: "ss_connPairs (srv g1) 1 = None"
    using register_inv(1) [of "ss_idAllocator (srv g1)" "ss_connPairs (srv g1)" "[0 \<mapsto> Registering 9 1]" 0 9 1] by (simp add: core_def)
  obtain g2 q where g2: "handler_step ex_env ex_viper None (Registering 9 1) g1 = (Ok (Connecting 9 1 q), g2)"
    "cf_TargetServer (c_config (w_conns (g_w g2) 9)) = []" "g_up g2 = ex_upstreams"
    using p g1(2-4) by (simp add: onNewConn_register_def configItemTime_def configItemInt_def bindM_app onWorld_def onServer_def new_session_def
        new_pair_def addConnPair_def monad_simps)
  obtain m g3 where g3: "handler_step ex_env ex_viper None (Connecting 9 1 q) g2 = (Panic m, g3)"
    using g2(2,3) by (simp add: onNewConn_connect_def newUpstreamConn_def bindM_app onWU_def NewConn_def GetHost_def GetRandomHost_def load_def
        onW_def onU_def conn_of_eq monad_simps ex_upstreams_def Let_def)
  have "hstep ex_env ex_viper None (?s g1 (Registering 9 1)) (?s g2 (Connecting 9 1 q))"
    by (rule hstep_alone(1) [OF g2(1)])
  moreover have "hstep ex_env ex_viper None (?s g2 (Connecting 9 1 q)) (?s g3 (Removing 1))"
    using hstep_alone(2) [OF g3, of 0] by simp
  ultimately show thesis using s1 that by (meson rtranclp.rtrancl_into_rtrancl)
qed

theorem metrics_balance_witness:
  "\<exists>(s :: nat gsys). gs_h s = [0 \<mapsto> Removing 1] \<and>
    mt_connectionAccepts (ss_metrics (srv (gs_g s))) - mt_connectionCloses (ss_metrics (srv (gs_g s))) = 1"
proof -
  obtain ss where ss: "defaultServer = Ok ss" by (simp add: defaultServer_def NewIDAllocator_def)
  then obtain g' where r: "(hstep ex_env ex_viper None)\<^sup>*\<^sup>* \<lparr>gs_g = ex_request ss, gs_h = Map.empty\<rparr> \<lparr>gs_g = g', gs_h = [0 \<mapsto> Removing 1]\<rparr>"
    by (rule ex_removing)
  have "running [0 \<mapsto> Removing 1] = {0}" by (auto simp: running_def split: if_splits)
  with metrics_balance [OF r] ss show ?thesis
    by (intro exI [of _ "\<lparr>gs_g = g', gs_h = [0 \<mapsto> Removing 1]\<rparr>"]) (simp add: program_hook_def ex_request_def ex_sworld_def ex_program_def)
qed

theorem handler_cleans_up_witness:
  "\<exists>(s :: nat gsys) g'. gs_h s = [0 \<mapsto> Removing 1] \<and> (hstep ex_env ex_viper None)\<^sup>*\<^sup>* s \<lparr>gs_g = g', gs_h = Map.empty\<rparr> \<and> srv_QueryByID (srv g') 1 = None"
proof -
  obtain ss where ss: "defaultServer = Ok ss" by (simp add: defaultServer_def NewIDAllocator_def)
  then obtain g' where r: "(hstep ex_env ex_viper None)\<^sup>*\<^sup>* \<lparr>gs_g = ex_request ss, gs_h = Map.empty\<rparr> \<lparr>gs_g = g', gs_h = [0 \<mapsto> Removing 1]\<rparr>"
    by (rule ex_removing)
  let ?s = "\<lparr>gs_g = g', gs_h = [0 \<mapsto> Removing 1]\<rparr>"
  have "\<exists>g'. (hstep ex_env ex_viper None)\<^sup>*\<^sup>* ?s \<lparr>gs_g = g', gs_h = (gs_h ?s)(0 := None)\<rparr> \<and>
      outstanding (ss_idAllocator (srv g')) = outstanding (ss_idAllocator (srv (gs_g ?s))) - {1} \<and>
      ss_connPairs (srv g') = (ss_connPairs (srv (gs_g ?s)))(1 := None) \<and> srv_QueryByID (srv g') 1 = None \<and>
      mt_connectionCloses (ss_metrics (srv g')) = mt_connectionCloses (ss_metrics (srv (gs_g ?s))) + 1"
    by (rule handler_cleans_up [OF r, where h = "Removing 1"]) (simp_all add: ss program_hook_def ex_request_def ex_sworld_def ex_program_def)
  then show ?thesis by (intro exI [of _ ?s]) auto
qed

end
