(* ===== verification/Byte_Pool.thy ===== *)
theory Byte_Pool
  imports Scp_Frame
begin

text \<open>
  \<open>scp/pool.go\<close>: the pool of scratch buffers, and the four functions of \<open>scp/conn.go\<close> that work in one.

  \<open>Scp_Conn\<close> describes those functions without the pool. Here they are as the code has them: a buffer with whatever is
  left in it is taken from the pool, a slice of its array is filled, used, and the buffer is put back by a deferred
  call. A \<open>bytes.Buffer\<close> is its array and the number of bytes in use (the functions never read from it, so that the
  read offset stays 0). \<open>sync.Pool\<close> may return any buffer that was put back or a new one: \<open>pick\<close> is its choice. A
  buffer that was taken is not in the pool, so that nobody else has it.

  The theorem is that the pool cannot be noticed: for every pool and every choice the functions with the pool return what
  those of \<open>Scp_Conn\<close> return and leave the same world, the reslicing beyond the length of the buffer never
  panics, and the buffers in the pool stay well-formed.
\<close>

section \<open>Buffers\<close>

record bytesBuffer =
  bb_arr :: "byte list"
  bb_len :: nat

definition bb_Reset :: "bytesBuffer \<Rightarrow> bytesBuffer" where
  "bb_Reset b = b\<lparr>bb_len := 0\<rparr>"

text \<open>\<open>Grow\<close>: nothing when the array has room; a first array of 64 bytes for a small request; else a larger array.\<close>

definition bb_Grow :: "nat \<Rightarrow> bytesBuffer \<Rightarrow> bytesBuffer" where
  "bb_Grow n b =
     (let c = length (bb_arr b) in
      if n \<le> c - bb_len b then b
      else if c = 0 \<and> n \<le> 64 then b\<lparr>bb_arr := replicate 64 0\<rparr>
      else b\<lparr>bb_arr := take (bb_len b) (bb_arr b) @ replicate (2 * c + n - bb_len b) 0\<rparr>)"

text \<open>\<open>buf.Bytes()[:n]\<close>: a slice may be extended to its capacity, not beyond.\<close>

definition bb_slice :: "nat \<Rightarrow> bytesBuffer \<Rightarrow> byte list res" where
  "bb_slice n b = (if n \<le> length (bb_arr b) then Ok (take n (bb_arr b)) else Panic ''slice bounds out of range'')"

definition bb_ok :: "bytesBuffer \<Rightarrow> bool" where
  "bb_ok b \<longleftrightarrow> bb_len b \<le> length (bb_arr b)"

section \<open>The pool (pool.go)\<close>

type_synonym bufferPool = "bytesBuffer list"

definition newBufferPool :: bufferPool where
  "newBufferPool = []"

definition sync_Get :: "nat \<Rightarrow> 'a \<Rightarrow> 'a list \<Rightarrow> 'a \<times> 'a list" where
  "sync_Get pick new pool =
     (if pick < length pool then (pool ! pick, take pick pool @ drop (Suc pick) pool) else (new, pool))"

definition bufferPool_Get :: "nat \<Rightarrow> nat \<Rightarrow> bufferPool \<Rightarrow> bytesBuffer \<times> bufferPool" where
  "bufferPool_Get pick n p =
     (case sync_Get pick \<lparr>bb_arr = [], bb_len = 0\<rparr> p of (b, p') \<Rightarrow> (bb_Grow n (bb_Reset b), p'))"

definition bufferPool_Put :: "bytesBuffer \<Rightarrow> bufferPool \<Rightarrow> bufferPool" where
  "bufferPool_Put b p = b # p"

section \<open>Functions that use it\<close>

text \<open>\<open>b := Get(n); defer Put(b); space := b.Bytes()[:n]\<close>, then a body that returns its outcome and what is
  in the slice at the end.\<close>

definition with_buffer :: "nat \<Rightarrow> nat \<Rightarrow> (byte list \<Rightarrow> 's \<Rightarrow> ('a res \<times> byte list) \<times> 's) \<Rightarrow> ('s \<times> bufferPool, 'a) M" where
  "with_buffer pick n body = (\<lambda>(s, p).
     case bufferPool_Get pick n p of (b, p') \<Rightarrow>
     case bb_slice n b of
       Ok space \<Rightarrow> (case body space s of ((r, space'), s') \<Rightarrow>
         (r, s', bufferPool_Put (b\<lparr>bb_arr := space' @ drop n (bb_arr b)\<rparr>) p'))
     | Fail e \<Rightarrow> (Fail e, s, bufferPool_Put b p')
     | Panic m \<Rightarrow> (Panic m, s, bufferPool_Put b p')
     | Hang \<Rightarrow> (Hang, s, p'))"

text \<open>A call before the buffer is taken.\<close>

definition onP :: "('s, 'a) M \<Rightarrow> ('s \<times> bufferPool, 'a) M" where
  "onP f = (\<lambda>(s, p). case f s of (r, s') \<Rightarrow> (r, s', p))"

definition out_Write_pooled :: "nat \<Rightarrow> nat \<Rightarrow> byte list \<Rightarrow> ('srv world \<times> bufferPool, nat \<times> goerr option) M" where
  "out_Write_pooled pick c b =
     bindM (onP (conn_of c)) (\<lambda>cc. bindM (onP (deref (c_out cc))) (\<lambda>r.
     let sz = length b in
     with_buffer pick sz (\<lambda>space w.
       let (q, k) = XORKeyStream (w_ciphers w (cw_cipher r)) b;
           space = go_copy space 0 q;
           w = w\<lparr>w_ciphers := (w_ciphers w)(cw_cipher r := k)\<rparr>;
           (res, w) = bindM (upd_conn c (\<lambda>cc. cc\<lparr>c_out := Some (r\<lparr>cw_count := cw_count r + int sz\<rparr>)\<rparr>)) (\<lambda>_.
             bindM (deref (cw_wr r)) (\<lambda>wr.
             bindM (multi_Write wr space) (\<lambda>err. retM (sz, err)))) w
       in ((res, space), w))))"

text \<open>The 32 bytes of the key, written over what is in the slice.\<close>

definition rc4_key_into :: "leu64 \<Rightarrow> byte list \<Rightarrow> byte list" where
  "rc4_key_into secret key =
     genRC4Key secret (toLeu64 0) (take 8 key) @ genRC4Key secret (toLeu64 1) (take 8 (drop 8 key)) @
     genRC4Key secret (toLeu64 2) (take 8 (drop 16 key)) @ genRC4Key secret (toLeu64 3) (take 8 (drop 24 key))"

definition newCipherConnReader_pooled :: "nat \<Rightarrow> leu64 \<Rightarrow> ('srv world \<times> bufferPool, cipherConnReader) M" where
  "newCipherConnReader_pooled pick secret = with_buffer pick 32 (\<lambda>key w.
     let key = rc4_key_into secret key;
         (r, w) = bindM (alloc_cipher (rc4_NewCipher key)) (\<lambda>k. retM \<lparr>cr_rd = None, cr_cipher = k, cr_count = 0\<rparr>) w
     in ((r, key), w))"

definition newCipherConnWriter_pooled :: "nat \<Rightarrow> leu64 \<Rightarrow> ('srv world \<times> bufferPool, cipherConnWriter) M" where
  "newCipherConnWriter_pooled pick secret = with_buffer pick 32 (\<lambda>key w.
     let key = rc4_key_into secret key;
         (r, w) = bindM (alloc_cipher (rc4_NewCipher key)) (\<lambda>k. retM \<lparr>cw_wr = None, cw_cipher = k, cw_count = 0\<rparr>) w
     in ((r, key), w))"

text \<open>\<open>io.ReadFull\<close> into the slice leaves there what was read, also when it fails.\<close>

definition readRecord_pooled :: "nat \<Rightarrow> nat \<Rightarrow> (byte list \<Rightarrow> 'a res) \<Rightarrow> ('srv world \<times> bufferPool, 'a) M" where
  "readRecord_pooled pick c unmarshal =
     bindM (onP (conn_of c)) (\<lambda>cc.
     bindM (onP (on_net_res (c_conn cc) (nc_ReadFull 2))) (\<lambda>h.
     let sz = be_get16 h in
     with_buffer pick (unat sz) (\<lambda>b w.
       let got = fst (chunk_take (unat sz) (nc_rx (w_nets w (c_conn cc))));
           b = go_copy b 0 got;
           (r, w) = bindM (on_net_res (c_conn cc) (nc_ReadFull (unat sz))) (\<lambda>_. liftM (unmarshal b)) w
       in ((r, b), w))))"

section \<open>Lemmas\<close>

lemma bb_Grow_ok:
  assumes "bb_ok b"
  shows "bb_ok (bb_Grow n b)" "n + bb_len b \<le> length (bb_arr (bb_Grow n b))" "bb_len (bb_Grow n b) = bb_len b"
    "take (bb_len b) (bb_arr (bb_Grow n b)) = take (bb_len b) (bb_arr b)"
  using assms by (auto simp: bb_ok_def bb_Grow_def Let_def)

lemma sync_Get_ok:
  assumes "sync_Get pick new p = (b, p')" "P new" "\<forall>x \<in> set p. P x"
  shows "P b \<and> (\<forall>x \<in> set p'. P x)"
  using assms set_take_subset [of pick p] set_drop_subset [of "Suc pick" p] by (fastforce simp: sync_Get_def split: if_splits)

text \<open>\<open>Get\<close> guarantees the capacity.\<close>

lemma bufferPool_Get_ok:
  assumes "\<forall>x \<in> set p. bb_ok x"
  obtains b p' where "bufferPool_Get pick n p = (b, p')" "bb_ok b" "bb_len b = 0" "n \<le> length (bb_arr b)" "\<forall>x \<in> set p'. bb_ok x"
proof -
  obtain b p' where g: "sync_Get pick \<lparr>bb_arr = [], bb_len = 0\<rparr> p = (b, p')" by fastforce
  have ok: "bb_ok b \<and> (\<forall>x \<in> set p'. bb_ok x)" by (rule sync_Get_ok [OF g _ assms]) (simp add: bb_ok_def)
  have r: "bb_ok (bb_Reset b)" "bb_len (bb_Reset b) = 0" by (simp_all add: bb_Reset_def bb_ok_def)
  show thesis
    by (rule that [of "bb_Grow n (bb_Reset b)" p'])
      (use g ok bb_Grow_ok [OF r(1), of n] r in \<open>simp_all add: bufferPool_Get_def\<close>)
qed

text \<open>A body that does not depend on what it finds in the slice runs as without a pool.\<close>

lemma with_buffer_transparent:
  assumes p: "\<forall>x \<in> set p. bb_ok x"
    and body: "\<And>space. length space = n \<Longrightarrow> \<exists>space'. body space s = ((fst (f s), space'), snd (f s)) \<and> length space' = n"
  shows "\<exists>p'. with_buffer pick n body (s, p) = (fst (f s), snd (f s), p') \<and> (\<forall>x \<in> set p'. bb_ok x)"
proof -
  obtain b p1 where g: "bufferPool_Get pick n p = (b, p1)" "bb_ok b" "n \<le> length (bb_arr b)" "\<forall>x \<in> set p1. bb_ok x"
    using bufferPool_Get_ok [OF p] by metis
  obtain space' where sp: "body (take n (bb_arr b)) s = ((fst (f s), space'), snd (f s))" "length space' = n"
    using body [of "take n (bb_arr b)"] g(3) by auto
  have "bb_ok (b\<lparr>bb_arr := space' @ drop n (bb_arr b)\<rparr>)" using g sp by (simp add: bb_ok_def)
  then show ?thesis using g sp by (auto simp: with_buffer_def bb_slice_def bufferPool_Put_def)
qed

lemma rc4_key_into_eq: "length key = 32 \<Longrightarrow> rc4_key_into secret key = rc4_key secret"
  by (simp add: rc4_key_into_def rc4_key_def genRC4Key_def slice_simps)

lemma length_rc4_key [simp]: "length (rc4_key secret) = 32"
  by (simp add: rc4_key_def genRC4Key_def)

lemma onP_app [monad_simps]: "onP f (s, p) = (fst (f s), snd (f s), p)"
  by (simp add: onP_def split: prod.split)

lemma newCipherConnReader_pooled_eq:
  assumes "\<forall>x \<in> set p. bb_ok x"
  shows "\<exists>p'. newCipherConnReader_pooled pick secret (w, p) =
      (fst (newCipherConnReader secret w), snd (newCipherConnReader secret w), p') \<and> (\<forall>x \<in> set p'. bb_ok x)"
  unfolding newCipherConnReader_pooled_def
  by (rule with_buffer_transparent [OF assms])
    (simp add: Let_def rc4_key_into_eq newCipherConnReader_def case_prod_beta)

lemma newCipherConnWriter_pooled_eq:
  assumes "\<forall>x \<in> set p. bb_ok x"
  shows "\<exists>p'. newCipherConnWriter_pooled pick secret (w, p) =
      (fst (newCipherConnWriter secret w), snd (newCipherConnWriter secret w), p') \<and> (\<forall>x \<in> set p'. bb_ok x)"
  unfolding newCipherConnWriter_pooled_def
  by (rule with_buffer_transparent [OF assms])
    (simp add: Let_def rc4_key_into_eq newCipherConnWriter_def case_prod_beta)

lemma out_Write_pooled_eq:
  assumes "\<forall>x \<in> set p. bb_ok x"
  shows "\<exists>p'. out_Write_pooled pick c b (w, p) = (fst (out_Write c b w), snd (out_Write c b w), p') \<and> (\<forall>x \<in> set p'. bb_ok x)"
proof (cases "c_out (w_conns w c)")
  case None
  then show ?thesis using assms by (simp add: out_Write_pooled_def out_Write_def monad_simps deref_def)
next
  case (Some r)
  let ?body = "\<lambda>space w.
       let (q, k) = XORKeyStream (w_ciphers w (cw_cipher r)) b;
           space = go_copy space 0 q;
           w = w\<lparr>w_ciphers := (w_ciphers w)(cw_cipher r := k)\<rparr>;
           (res, w) = bindM (upd_conn c (\<lambda>cc. cc\<lparr>c_out := Some (r\<lparr>cw_count := cw_count r + int (length b)\<rparr>)\<rparr>)) (\<lambda>_.
             bindM (deref (cw_wr r)) (\<lambda>wr.
             bindM (multi_Write wr space) (\<lambda>err. retM (length b, err)))) w
       in ((res, space), w)"
  have run: "out_Write_pooled pick c b (w, p) = with_buffer pick (length b) ?body (w, p)"
    using Some by (simp add: out_Write_pooled_def monad_simps deref_def Let_def)
  have "\<exists>space'. ?body space w = ((fst (out_Write c b w), space'), snd (out_Write c b w)) \<and> length space' = length b"
    if "length space = length b" for space
    using that Some
    by (simp add: out_Write_def xor_key_stream_def deref_def Let_def case_prod_beta slice_simps bindM_app [where m = "conn_of c"]
        bindM_app [where m = "retM x" for x] bindM_app [where m = "\<lambda>w. (Ok (f w), g w)" for f g] prim_simps conn_of_eq)
  then show ?thesis unfolding run
    by (rule with_buffer_transparent [OF assms, where body = ?body and f = "out_Write c b"])
qed

lemma readRecord_pooled_eq:
  assumes "\<forall>x \<in> set p. bb_ok x"
  shows "\<exists>p'. readRecord_pooled pick c unmarshal (w, p) =
      (fst (readRecord c unmarshal w), snd (readRecord c unmarshal w), p') \<and> (\<forall>x \<in> set p'. bb_ok x)"
proof (cases "nc_ReadFull 2 (w_nets w (c_conn (w_conns w c)))")
  case (Pair r x)
  let ?n = "c_conn (w_conns w c)" and ?w1 = "w\<lparr>w_nets := (w_nets w)(c_conn (w_conns w c) := x)\<rparr>"
  have h: "on_net_res ?n (nc_ReadFull 2) w = (r, ?w1)" using Pair by (simp add: on_net_res_def on_net_def monad_simps)
  show ?thesis
  proof (cases r)
    case (Ok hd)
    let ?sz = "unat (be_get16 hd)"
    let ?f = "bindM (on_net_res ?n (nc_ReadFull ?sz)) (\<lambda>b. liftM (unmarshal b))"
    let ?body = "\<lambda>b w. let got = fst (chunk_take ?sz (nc_rx (w_nets w ?n)));
           b = go_copy b 0 got;
           (r, w) = bindM (on_net_res ?n (nc_ReadFull ?sz)) (\<lambda>_. liftM (unmarshal b)) w
       in ((r, b), w)"
    have "\<exists>b'. ?body b ?w1 = ((fst (?f ?w1), b'), snd (?f ?w1)) \<and> length b' = ?sz" if "length b = ?sz" for b
    proof (cases "nc_ReadFull ?sz (w_nets ?w1 ?n)")
      case (Pair r2 y)
      have "go_copy b 0 (fst (chunk_take ?sz (nc_rx (w_nets ?w1 ?n)))) = q" if "r2 = Ok q" for q
        using Pair that \<open>length b = ?sz\<close>
        by (auto simp: nc_ReadFull_def Let_def go_copy_all split: if_splits)
      then show ?thesis using Pair \<open>length b = ?sz\<close> by (cases r2) (auto simp: Let_def on_net_res_def on_net_def monad_simps)
    qed
    then have "\<exists>p'. with_buffer pick ?sz ?body (?w1, p) = (fst (?f ?w1), snd (?f ?w1), p') \<and> (\<forall>x \<in> set p'. bb_ok x)"
      by (rule with_buffer_transparent [OF assms, where body = ?body and f = ?f])
    then show ?thesis using Ok by (simp add: readRecord_pooled_def readRecord_def bindM_app [where m = "conn_of c"] bindM_app [where m = "onP m" for m]
          bindM_app [where m = "on_net_res ?n (nc_ReadFull 2)"] conn_of_eq onP_app h Let_def)
  qed (use assms in \<open>simp_all add: readRecord_pooled_def readRecord_def bindM_app conn_of_eq onP_app h\<close>)
qed

section \<open>Properties\<close>



end
