(* ===== verification/Echo_Test.thy ===== *)
theory Echo_Test
  imports Go_Net Scp_Frame
begin

text \<open>
  The test of the example client (\<open>examples/client/main.go\<close>): one goroutine writes random packets and passes each on to
  a second one, which reads as many bytes and compares; both report on a channel, and \<open>testN\<close> waits for two
  reports.

  \<open>writer_step\<close>, \<open>reader_step\<close> and \<open>main_step\<close> are the three goroutines, each from one control point to the next; a result
  \<open>None\<close> means that the goroutine is blocked (a channel is full or empty, or the call does not return). \<open>estep\<close>
  interleaves them. A panic of any of them ends the program. The record \<open>net_Conn\<close> is the interface \<open>net.Conn\<close> the
  test runs on. The fields \<open>es_log\<close>, \<open>es_sent\<close>, \<open>es_wrote\<close> and \<open>es_got\<close> are histories: the reports with their senders, the packets
  passed on, those written without an error, and all bytes read.

  The locale \<open>byte_conn\<close> states what a connection does with bytes; it is interpreted on \<open>scp.Conn\<close>.
\<close>

section \<open>The program\<close>

record client_opts =
  optPacketsPerSecond :: int
  optMinPacket :: int
  optMaxPacket :: int
  optPackets :: int
  optReuses :: int

definition packetSize :: "client_opts \<Rightarrow> (rng, int) M" where
  "packetSize opts =
     (if optMaxPacket opts > optMinPacket opts
      then bindM (Intn (optMaxPacket opts - optMinPacket opts)) (\<lambda>v. retM (optMinPacket opts + v))
      else retM (optMinPacket opts))"

record 's net_Conn =
  cn_Read :: "nat \<Rightarrow> ('s, byte list \<times> goerr option) M"
  cn_Write :: "byte list \<Rightarrow> ('s, nat \<times> goerr option) M"

datatype wpc =
    WStart
  | WLoop nat
  | WWrite nat "byte list"
  | WErr nat "byte list" goerr
  | WSend nat "byte list"
  | WClose
  | WNil
  | WEnd

datatype rpc =
    RStart
  | RRange
  | RRead "byte list" nat
  | RErr "byte list" goerr
  | RCmp "byte list"
  | RBad
  | RNil
  | REnd

datatype mpc = MWait nat | MRet "goerr option"

record 's echo_sys =
  es_s :: 's
  es_rng :: rng
  es_wr :: wpc
  es_rd :: rpc
  es_main :: mpc
  es_rbuf :: "byte list"
  es_ch :: "byte list list"
  es_closed :: bool
  es_done :: "goerr option list"
  es_crashed :: bool
  es_log :: "(bool \<times> goerr option) list"
  es_sent :: "byte list list"
  es_wrote :: "byte list list"
  es_got :: "byte list"

text \<open>\<open>done <- err\<close>: the channel holds two values.\<close>

definition sendDone :: "bool \<Rightarrow> goerr option \<Rightarrow> 's echo_sys \<Rightarrow> 's echo_sys option" where
  "sendDone who err s =
     (if length (es_done s) < 2 then Some (s\<lparr>es_done := es_done s @ [err], es_log := es_log s @ [(who, err)]\<rparr>) else None)"

definition crash :: "'s echo_sys \<Rightarrow> 's echo_sys option" where
  "crash s = Some (s\<lparr>es_crashed := True\<rparr>)"

text \<open>\<open>testEchoWrite\<close>; \<open>fill\<close> is what \<open>crand.Read\<close> puts into the packet. After an error it goes on.\<close>

definition writer_step :: "client_opts \<Rightarrow> 's net_Conn \<Rightarrow> nat \<Rightarrow> (nat \<Rightarrow> byte) \<Rightarrow> 's echo_sys \<Rightarrow> 's echo_sys option" where
  "writer_step opts cn packets fill s = (case es_wr s of
     WStart \<Rightarrow> if optPacketsPerSecond opts = 0 then crash s else Some (s\<lparr>es_wr := WLoop 0\<rparr>)
   | WLoop i \<Rightarrow>
       if i < packets then
         (case packetSize opts (es_rng s) of
            (Ok sz, r) \<Rightarrow> if sz < 0 then crash s else Some (s\<lparr>es_rng := r, es_wr := WWrite i (map fill [0..<nat sz])\<rparr>)
          | _ \<Rightarrow> crash s)
       else Some (s\<lparr>es_wr := WClose\<rparr>)
   | WWrite i pkt \<Rightarrow>
       (case cn_Write cn pkt (es_s s) of
          (Ok (_, None), t) \<Rightarrow> Some (s\<lparr>es_s := t, es_wrote := es_wrote s @ [pkt], es_wr := WSend i pkt\<rparr>)
        | (Ok (_, Some err), t) \<Rightarrow> Some (s\<lparr>es_s := t, es_wr := WErr i pkt err\<rparr>)
        | (Hang, t) \<Rightarrow> None
        | (_, t) \<Rightarrow> crash (s\<lparr>es_s := t\<rparr>))
   | WErr i pkt err \<Rightarrow> sendDone True (Some err) (s\<lparr>es_wr := WSend i pkt\<rparr>)
   | WSend i pkt \<Rightarrow>
       if length (es_ch s) < packets
       then Some (s\<lparr>es_ch := es_ch s @ [pkt], es_sent := es_sent s @ [pkt], es_wr := WLoop (Suc i)\<rparr>) else None
   | WClose \<Rightarrow> Some (s\<lparr>es_closed := True, es_wr := WNil\<rparr>)
   | WNil \<Rightarrow> sendDone True None (s\<lparr>es_wr := WEnd\<rparr>)
   | WEnd \<Rightarrow> None)"

text \<open>\<open>testEchoRead\<close>. \<open>io.ReadFull\<close> reads until the slice is full or an error comes; the end of the stream in the middle of a
  packet is \<open>ErrUnexpectedEOF\<close>. After an error the packet is compared all the same.\<close>

definition reader_step :: "client_opts \<Rightarrow> 's net_Conn \<Rightarrow> 's echo_sys \<Rightarrow> 's echo_sys option" where
  "reader_step opts cn s = (case es_rd s of
     RStart \<Rightarrow>
       if optMaxPacket opts < 0 then crash s
       else Some (s\<lparr>es_rbuf := replicate (nat (optMaxPacket opts)) 0, es_rd := RRange\<rparr>)
   | RRange \<Rightarrow>
       (case es_ch s of
          pkt # ch \<Rightarrow>
            if length pkt \<le> length (es_rbuf s) then Some (s\<lparr>es_ch := ch, es_rd := RRead pkt 0\<rparr>) else crash s
        | [] \<Rightarrow> if es_closed s then Some (s\<lparr>es_rd := RNil\<rparr>) else None)
   | RRead pkt n \<Rightarrow>
       if length pkt \<le> n then Some (s\<lparr>es_rd := RCmp pkt\<rparr>)
       else (case cn_Read cn (length pkt - n) (es_s s) of
          (Ok (q, e), t) \<Rightarrow>
            let s = s\<lparr>es_s := t, es_rbuf := go_copy (es_rbuf s) n q, es_got := es_got s @ q\<rparr>;
                m = n + length q
            in Some (s\<lparr>es_rd := (case e of
                 Some err \<Rightarrow> if m < length pkt then RErr pkt (if 0 < m \<and> err = ErrEOF then ErrUnexpectedEOF else err) else RCmp pkt
               | None \<Rightarrow> RRead pkt m)\<rparr>)
        | (Hang, t) \<Rightarrow> None
        | (_, t) \<Rightarrow> crash (s\<lparr>es_s := t\<rparr>))
   | RErr pkt err \<Rightarrow> sendDone False (Some err) (s\<lparr>es_rd := RCmp pkt\<rparr>)
   | RCmp pkt \<Rightarrow> Some (s\<lparr>es_rd := (if pkt = take (length pkt) (es_rbuf s) then RRange else RBad)\<rparr>)
   | RBad \<Rightarrow> sendDone False (Some (FmtErr ''echo unexpected'')) (s\<lparr>es_rd := RRange\<rparr>)
   | RNil \<Rightarrow> sendDone False None (s\<lparr>es_rd := REnd\<rparr>)
   | REnd \<Rightarrow> None)"

definition main_step :: "'s echo_sys \<Rightarrow> 's echo_sys option" where
  "main_step s = (case es_main s of
     MWait i \<Rightarrow>
       if i < 2 then
         (case es_done s of
            [] \<Rightarrow> None
          | err # rest \<Rightarrow> Some (s\<lparr>es_done := rest, es_main := (if err \<noteq> None then MRet err else MWait (Suc i))\<rparr>))
       else Some (s\<lparr>es_main := MRet None\<rparr>)
   | MRet r \<Rightarrow> None)"

inductive estep :: "client_opts \<Rightarrow> 's net_Conn \<Rightarrow> nat \<Rightarrow> 's echo_sys \<Rightarrow> 's echo_sys \<Rightarrow> bool" for opts cn packets where
  Writer: "\<not> es_crashed s \<Longrightarrow> writer_step opts cn packets fill s = Some s' \<Longrightarrow> estep opts cn packets s s'"
| Reader: "\<not> es_crashed s \<Longrightarrow> reader_step opts cn s = Some s' \<Longrightarrow> estep opts cn packets s s'"
| Main: "\<not> es_crashed s \<Longrightarrow> main_step s = Some s' \<Longrightarrow> estep opts cn packets s s'"

text \<open>The state when \<open>testN\<close> has made the channels and started the goroutines.\<close>

definition echo_start :: "'s \<Rightarrow> rng \<Rightarrow> 's echo_sys" where
  "echo_start s r = \<lparr>es_s = s, es_rng = r, es_wr = WStart, es_rd = RStart, es_main = MWait 0, es_rbuf = [], es_ch = [],
     es_closed = False, es_done = [], es_crashed = False, es_log = [], es_sent = [], es_wrote = [], es_got = []\<rparr>"

section \<open>The invariant\<close>

text \<open>The reports of one goroutine: errors, and nil as the last one when it has ended.\<close>

definition said :: "bool \<Rightarrow> (bool \<times> goerr option) list \<Rightarrow> goerr option list" where
  "said who log = map snd (filter (\<lambda>x. fst x = who) log)"

definition said_ok :: "bool \<Rightarrow> goerr option list \<Rightarrow> bool" where
  "said_ok fin ms \<longleftrightarrow> (if fin then \<exists>es. ms = es @ [None] \<and> None \<notin> set es else None \<notin> set ms)"

text \<open>What \<open>testN\<close> has received, and what is in the channel.\<close>

definition main_ok :: "mpc \<Rightarrow> goerr option list \<Rightarrow> (bool \<times> goerr option) list \<Rightarrow> bool" where
  "main_ok m ds log \<longleftrightarrow> (case m of
     MWait i \<Rightarrow> i \<le> 2 \<and> i \<le> length log \<and> ds = map snd (drop i log) \<and> (\<forall>x \<in> set (take i log). snd x = None)
   | MRet None \<Rightarrow> 2 \<le> length log \<and> (\<forall>x \<in> set (take 2 log). snd x = None)
   | MRet (Some e) \<Rightarrow> True)"

text \<open>The writer: how many packets it has passed on and, while it has reported no error, that it has written them.\<close>

fun writer_at :: "nat \<Rightarrow> wpc \<Rightarrow> nat \<Rightarrow> bool" where
  "writer_at packets WStart k = (k = 0)"
| "writer_at packets (WLoop i) k = (k = i \<and> i \<le> packets)"
| "writer_at packets (WWrite i b) k = (k = i \<and> i < packets)"
| "writer_at packets (WErr i b e) k = (k = i \<and> i < packets)"
| "writer_at packets (WSend i b) k = (k = i \<and> i < packets)"
| "writer_at packets p k = (k = packets)"

fun pending :: "wpc \<Rightarrow> byte list list" where
  "pending (WErr i b e) = [b]"
| "pending (WSend i b) = [b]"
| "pending p = []"

definition writer_ok :: "nat \<Rightarrow> wpc \<Rightarrow> byte list list \<Rightarrow> byte list list \<Rightarrow> goerr option list \<Rightarrow> bool" where
  "writer_ok packets p sent wrote ms \<longleftrightarrow> writer_at packets p (length sent) \<and>
     (set ms \<subseteq> {None} \<and> (\<forall>i b e. p \<noteq> WErr i b e) \<longrightarrow> wrote = sent @ pending p)"

text \<open>The reader: the packets it has taken from the channel are the first ones sent, and while it has nothing to report, what it
  has read is those packets (of the current one, the part read so far).\<close>

fun current :: "rpc \<Rightarrow> byte list list" where
  "current (RRead b n) = [b]"
| "current (RErr b e) = [b]"
| "current (RCmp b) = [b]"
| "current p = []"

fun reader_at :: "rpc \<Rightarrow> byte list \<Rightarrow> byte list \<Rightarrow> byte list \<Rightarrow> bool" where
  "reader_at (RRead b n) rbuf before got = (n \<le> length b \<and> got = before @ take n rbuf)"
| "reader_at (RCmp b) rbuf before got = (got = before @ take (length b) rbuf)"
| "reader_at (RErr b e) rbuf before got = True"
| "reader_at RBad rbuf before got = True"
| "reader_at p rbuf before got = (got = before)"

definition reader_ok :: "rpc \<Rightarrow> byte list \<Rightarrow> byte list \<Rightarrow> byte list list \<Rightarrow> byte list list \<Rightarrow> bool \<Rightarrow> goerr option list \<Rightarrow> bool" where
  "reader_ok p rbuf got sent ch closed ms \<longleftrightarrow>
     (\<forall>b n. p = RRead b n \<longrightarrow> n \<le> length b) \<and> (\<forall>b \<in> set (current p). length b \<le> length rbuf) \<and>
     (p = RNil \<or> p = REnd \<longrightarrow> closed \<and> ch = []) \<and>
     (\<exists>t. sent = t @ current p @ ch \<and> (set ms \<subseteq> {None} \<longrightarrow> reader_at p rbuf (concat t) got))"

fun closed_at :: "wpc \<Rightarrow> bool" where
  "closed_at WNil = True"
| "closed_at WEnd = True"
| "closed_at p = False"

definition echo_ok :: "nat \<Rightarrow> 's echo_sys \<Rightarrow> bool" where
  "echo_ok packets s \<longleftrightarrow>
     main_ok (es_main s) (es_done s) (es_log s) \<and>
     said_ok (es_wr s = WEnd) (said True (es_log s)) \<and> said_ok (es_rd s = REnd) (said False (es_log s)) \<and>
     writer_ok packets (es_wr s) (es_sent s) (es_wrote s) (said True (es_log s)) \<and>
     reader_ok (es_rd s) (es_rbuf s) (es_got s) (es_sent s) (es_ch s) (es_closed s) (said False (es_log s)) \<and>
     closed_at (es_wr s) = es_closed s"

lemma said_append [simp]:
  "said who (log @ [(w, m)]) = said who log @ (if w = who then [m] else [])" "said who [] = []"
  by (simp_all add: said_def)

lemma said_ok_err [simp]: "said_ok False (ms @ [Some e]) = said_ok False ms"
  by (simp add: said_ok_def)

lemma said_ok_nil: "said_ok False ms \<Longrightarrow> said_ok True (ms @ [None])"
  by (simp add: said_ok_def)

lemma main_ok_send: "main_ok m ds log \<Longrightarrow> main_ok m (ds @ [snd x]) (log @ [x])"
  by (auto simp: main_ok_def split: mpc.splits option.splits)

lemma writer_ok_end: "writer_ok packets p sent wrote ms \<Longrightarrow> p = WNil \<Longrightarrow> writer_ok packets WEnd sent wrote (ms @ [None])"
  by (simp add: writer_ok_def)

lemma writer_ok_err: "writer_ok packets (WErr i b e) sent wrote ms \<Longrightarrow> writer_ok packets (WSend i b) sent wrote (ms @ [Some e])"
  by (simp add: writer_ok_def)

lemma echo_ok_start: "echo_ok packets (echo_start s r)"
  by (simp add: echo_ok_def echo_start_def main_ok_def said_ok_def writer_ok_def reader_ok_def)

lemma sendDone_Some:
  "sendDone who err s = Some s' \<Longrightarrow> s' = s\<lparr>es_done := es_done s @ [err], es_log := es_log s @ [(who, err)]\<rparr> \<and> length (es_done s) < 2"
  by (simp add: sendDone_def split: if_splits)

lemma reader_ok_more:
  "reader_ok p rbuf got sent ch closed ms \<Longrightarrow> p \<noteq> RNil \<and> p \<noteq> REnd \<Longrightarrow> reader_ok p rbuf got (sent @ [b]) (ch @ [b]) closed ms"
  by (auto simp: reader_ok_def)

lemma reader_ok_close: "reader_ok p rbuf got sent ch closed ms \<Longrightarrow> reader_ok p rbuf got sent ch True ms"
  by (auto simp: reader_ok_def)

lemma writer_step_ok:
  assumes ok: "echo_ok packets s" and st: "writer_step opts cn packets fill s = Some s'"
  shows "echo_ok packets s'"
proof (cases "es_wr s")
  case WStart
  then show ?thesis using ok st by (auto simp: writer_step_def crash_def echo_ok_def writer_ok_def split: if_splits)
next
  case (WLoop i)
  then show ?thesis using ok st
    by (auto simp: writer_step_def crash_def echo_ok_def writer_ok_def split: if_splits prod.splits res.splits)
next
  case (WWrite i b)
  then show ?thesis using ok st
    by (auto simp: writer_step_def crash_def echo_ok_def writer_ok_def split: option.splits prod.splits res.splits)
next
  case (WErr i b e)
  then have "s' = s\<lparr>es_wr := WSend i b, es_done := es_done s @ [Some e], es_log := es_log s @ [(True, Some e)]\<rparr>"
    using st by (auto simp: writer_step_def dest!: sendDone_Some)
  then show ?thesis
    using ok WErr main_ok_send [of "es_main s" "es_done s" "es_log s" "(True, Some e)"] by (auto simp: echo_ok_def intro: writer_ok_err)
next
  case (WSend i b)
  then show ?thesis using ok st
    by (auto simp: writer_step_def echo_ok_def writer_ok_def reader_ok_def split: if_splits)
next
  case WClose
  then show ?thesis using ok st
    by (auto simp: writer_step_def echo_ok_def writer_ok_def said_ok_def intro: reader_ok_close)
next
  case WNil
  then have "s' = s\<lparr>es_wr := WEnd, es_done := es_done s @ [None], es_log := es_log s @ [(True, None)]\<rparr>"
    using st by (auto simp: writer_step_def dest!: sendDone_Some)
  then show ?thesis
    using ok WNil main_ok_send [of "es_main s" "es_done s" "es_log s" "(True, None)"]
    by (auto simp: echo_ok_def intro: writer_ok_end said_ok_nil)
next
  case WEnd
  then show ?thesis using st by (simp add: writer_step_def)
qed

text \<open>A read into the part of the packet that is missing.\<close>

lemma reader_ok_read:
  assumes "reader_ok (RRead b n) rbuf got sent ch closed ms" "length q \<le> length b - n"
  shows "reader_ok (RRead b (n + length q)) (go_copy rbuf n q) (got @ q) sent ch closed ms"
    and "length b \<le> n + length q \<Longrightarrow> reader_ok (RCmp b) (go_copy rbuf n q) (got @ q) sent ch closed ms"
    and "reader_ok (RErr b e) (go_copy rbuf n q) (got @ q) sent ch closed ms"
proof -
  have l: "n \<le> length b" "length b \<le> length rbuf" using assms(1) by (auto simp: reader_ok_def)
  have c: "take (n + length q) (go_copy rbuf n q) = take n rbuf @ q"
    using l assms(2) by (simp add: go_copy_fits)
  show "reader_ok (RRead b (n + length q)) (go_copy rbuf n q) (got @ q) sent ch closed ms"
    using assms l c by (auto simp: reader_ok_def)
  show "reader_ok (RErr b e) (go_copy rbuf n q) (got @ q) sent ch closed ms"
    using assms l by (auto simp: reader_ok_def)
  assume "length b \<le> n + length q"
  then have "length b = n + length q" using assms(2) l by simp
  then show "reader_ok (RCmp b) (go_copy rbuf n q) (got @ q) sent ch closed ms"
    using assms l c by (auto simp: reader_ok_def)
qed

lemma reader_ok_err:
  "reader_ok (RErr b e) rbuf got sent ch closed ms \<Longrightarrow> reader_ok (RCmp b) rbuf got sent ch closed (ms @ [Some e'])"
  "reader_ok RBad rbuf got sent ch closed ms \<Longrightarrow> reader_ok RRange rbuf got sent ch closed (ms @ [Some e'])"
  "reader_ok RNil rbuf got sent ch closed ms \<Longrightarrow> reader_ok REnd rbuf got sent ch closed (ms @ [None])"
  by (auto simp: reader_ok_def)

lemma reader_ok_cmp:
  assumes "reader_ok (RCmp b) rbuf got sent ch closed ms"
  shows "reader_ok (if b = take (length b) rbuf then RRange else RBad) rbuf got sent ch closed ms"
proof -
  obtain t where t: "sent = t @ [b] @ ch" "set ms \<subseteq> {None} \<Longrightarrow> got = concat t @ take (length b) rbuf"
    using assms by (auto simp: reader_ok_def)
  show ?thesis using t by (auto simp: reader_ok_def intro!: exI [of _ "t @ [b]"])
qed

lemma echo_ok_send:
  assumes "echo_ok packets s" "sendDone False m (s\<lparr>es_rd := p\<rparr>) = Some s'"
    "reader_ok p (es_rbuf s) (es_got s) (es_sent s) (es_ch s) (es_closed s) (said False (es_log s) @ [m])"
    "said_ok (p = REnd) (said False (es_log s) @ [m])"
  shows "echo_ok packets s'"
proof -
  have "s' = s\<lparr>es_rd := p, es_done := es_done s @ [m], es_log := es_log s @ [(False, m)]\<rparr>"
    using assms(2) by (auto dest!: sendDone_Some)
  then show ?thesis
    using assms main_ok_send [of "es_main s" "es_done s" "es_log s" "(False, m)"] by (simp add: echo_ok_def)
qed

text \<open>\<open>Read\<close> returns no more than was asked for.\<close>

definition bounded_Read :: "'s net_Conn \<Rightarrow> 's \<Rightarrow> bool" where
  "bounded_Read cn s \<longleftrightarrow> (\<forall>n q e t. cn_Read cn n s = (Ok (q, e), t) \<longrightarrow> length q \<le> n)"

lemma reader_step_ok:
  assumes ok: "echo_ok packets s" and st: "reader_step opts cn s = Some s'" and cn: "bounded_Read cn (es_s s)"
  shows "echo_ok packets s'"
proof (cases "es_rd s")
  case RStart
  then show ?thesis using ok st
    by (auto simp: reader_step_def crash_def echo_ok_def reader_ok_def split: if_splits)
next
  case RRange
  have r: "reader_ok RRange (es_rbuf s) (es_got s) (es_sent s) (es_ch s) (es_closed s) (said False (es_log s))"
    using ok RRange by (simp add: echo_ok_def)
  show ?thesis
  proof (cases "es_ch s")
    case Nil
    then have "s' = s\<lparr>es_rd := RNil\<rparr>" "es_closed s" using st RRange by (auto simp: reader_step_def split: if_splits)
    then show ?thesis using ok r RRange Nil by (auto simp: echo_ok_def reader_ok_def)
  next
    case (Cons b ch)
    then consider "s' = s\<lparr>es_crashed := True\<rparr>" | "s' = s\<lparr>es_ch := ch, es_rd := RRead b 0\<rparr>" "length b \<le> length (es_rbuf s)"
      using st RRange by (auto simp: reader_step_def crash_def split: if_splits)
    then show ?thesis
    proof cases
      case 2
      have "reader_ok (RRead b 0) (es_rbuf s) (es_got s) (es_sent s) ch (es_closed s) (said False (es_log s))"
        using r 2(2) Cons by (auto simp: reader_ok_def)
      then show ?thesis using ok RRange unfolding 2(1) by (simp add: echo_ok_def)
    qed (use ok in \<open>simp add: echo_ok_def\<close>)
  qed
next
  case (RRead b n)
  have r: "reader_ok (RRead b n) (es_rbuf s) (es_got s) (es_sent s) (es_ch s) (es_closed s) (said False (es_log s))"
    using ok RRead by (simp add: echo_ok_def)
  show ?thesis
  proof (cases "length b \<le> n")
    case True
    then have "s' = s\<lparr>es_rd := RCmp b\<rparr>" "n = length b" using st RRead r by (auto simp: reader_step_def reader_ok_def)
    then show ?thesis using ok RRead by (auto simp: echo_ok_def reader_ok_def)
  next
    case False
    obtain x t where c: "cn_Read cn (length b - n) (es_s s) = (x, t)" by fastforce
    show ?thesis
    proof (cases x)
      case (Ok qe)
      obtain q e where qe: "qe = (q, e)" by fastforce
      let ?p = "case e of Some err \<Rightarrow> if n + length q < length b then RErr b (if 0 < n + length q \<and> err = ErrEOF then ErrUnexpectedEOF else err)
          else RCmp b | None \<Rightarrow> RRead b (n + length q)"
      have s': "s' = s\<lparr>es_s := t, es_rbuf := go_copy (es_rbuf s) n q, es_got := es_got s @ q, es_rd := ?p\<rparr>"
        using st RRead False by (simp add: reader_step_def c Ok qe Let_def)
      have "length q \<le> length b - n" using cn c unfolding Ok qe bounded_Read_def by blast
      note read = reader_ok_read [OF r this]
      have "reader_ok ?p (go_copy (es_rbuf s) n q) (es_got s @ q) (es_sent s) (es_ch s) (es_closed s) (said False (es_log s)) \<and> ?p \<noteq> REnd"
        using read by (auto split: option.split)
      then show ?thesis using ok RRead unfolding s' by (simp add: echo_ok_def)
    qed (use st RRead False ok in \<open>simp_all add: reader_step_def crash_def echo_ok_def c, auto\<close>)
  qed
next
  case (RErr b e)
  then show ?thesis using ok st
    by (intro echo_ok_send [OF ok]) (auto simp: reader_step_def echo_ok_def intro: reader_ok_err)
next
  case (RCmp b)
  then show ?thesis using ok st reader_ok_cmp [of b "es_rbuf s"] by (auto simp: reader_step_def echo_ok_def split: if_splits)
next
  case RBad
  then show ?thesis using ok st
    by (intro echo_ok_send [OF ok]) (auto simp: reader_step_def echo_ok_def intro: reader_ok_err)
next
  case RNil
  then show ?thesis using ok st
    by (intro echo_ok_send [OF ok]) (auto simp: reader_step_def echo_ok_def intro: reader_ok_err said_ok_nil)
next
  case REnd
  then show ?thesis using st by (simp add: reader_step_def)
qed

lemma main_step_ok:
  assumes ok: "echo_ok packets s" and st: "main_step s = Some s'"
  shows "echo_ok packets s'"
proof (cases "es_main s")
  case (MWait i)
  have m: "main_ok (MWait i) (es_done s) (es_log s)" using ok MWait by (simp add: echo_ok_def)
  show ?thesis
  proof (cases "i < 2")
    case False
    then have "s' = s\<lparr>es_main := MRet None\<rparr>" "i = 2" using st MWait m by (auto simp: main_step_def main_ok_def)
    then show ?thesis using ok MWait by (auto simp: echo_ok_def main_ok_def)
  next
    case True
    then obtain err rest where d: "es_done s = err # rest"
      "s' = s\<lparr>es_done := rest, es_main := (if err \<noteq> None then MRet err else MWait (Suc i))\<rparr>"
      using st MWait by (auto simp: main_step_def split: list.splits)
    have dr: "map snd (drop i (es_log s)) = err # rest" "i \<le> length (es_log s)" "\<forall>x \<in> set (take i (es_log s)). snd x = None"
      using m d(1) by (auto simp: main_ok_def)
    have i: "i < length (es_log s)" using dr(1) by (cases "i < length (es_log s)") simp_all
    have l: "err = snd (es_log s ! i)" "rest = map snd (drop (Suc i) (es_log s))"
      using dr(1) Cons_nth_drop_Suc [OF i, symmetric] by simp_all
    have "main_ok (if err \<noteq> None then MRet err else MWait (Suc i)) rest (es_log s)"
      using dr(3) i l True by (auto simp: main_ok_def take_Suc_conv_app_nth)
    then show ?thesis using ok unfolding d(2) by (simp add: echo_ok_def)
  qed
qed (use st in \<open>simp add: main_step_def\<close>)

text \<open>Two reports of nil are one from each goroutine, and its only one.\<close>

lemma both_ended:
  assumes "said_ok we (said True log)" "said_ok re (said False log)" "2 \<le> length log" "\<forall>x \<in> set (take 2 log). snd x = None"
  shows "we \<and> re \<and> said True log = [None] \<and> said False log = [None]"
proof -
  obtain a b rest where log: "log = (a, None) # (b, None) # rest"
    using assms(3,4) by (cases log; cases "tl log") (auto simp: numeral_2_eq_2)
  have one: "fin \<and> ms = []" if "said_ok fin (None # ms)" for fin ms
    using that by (auto simp: said_ok_def Cons_eq_append_conv split: if_splits)
  have "a \<noteq> b" using assms(1,2) one unfolding log by (cases a; cases b) (fastforce simp: said_def)+
  then show ?thesis using assms(1,2) one unfolding log by (cases a; cases b) (fastforce simp: said_def)+
qed

section \<open>Packets of the sizes asked for\<close>

definition opts_ok :: "client_opts \<Rightarrow> bool" where
  "opts_ok opts \<longleftrightarrow> optPacketsPerSecond opts \<noteq> 0 \<and> 0 \<le> optMinPacket opts \<and> optMinPacket opts \<le> optMaxPacket opts"

text \<open>The largest packet is one byte shorter than \<open>optMaxPacket\<close>, unless both bounds are equal.\<close>

lemma packetSize_range:
  assumes "optMinPacket opts \<le> optMaxPacket opts"
  obtains sz r' where "packetSize opts r = (Ok sz, r')" "optMinPacket opts \<le> sz" "sz \<le> optMaxPacket opts"
    "optMinPacket opts < optMaxPacket opts \<Longrightarrow> sz < optMaxPacket opts"
proof (cases "optMinPacket opts < optMaxPacket opts")
  case True
  then obtain v r' where "Intn (optMaxPacket opts - optMinPacket opts) r = (Ok v, r')" "0 \<le> v" "v < optMaxPacket opts - optMinPacket opts"
    using Intn_range [of "optMaxPacket opts - optMinPacket opts" r] by auto
  then show thesis using True by (intro that [of "optMinPacket opts + v" r']) (simp_all add: packetSize_def monad_simps)
qed (use assms that in \<open>simp_all add: packetSize_def monad_simps\<close>)

definition sizes_ok :: "client_opts \<Rightarrow> 's echo_sys \<Rightarrow> bool" where
  "sizes_ok opts s \<longleftrightarrow> \<not> es_crashed s \<and> (\<forall>b \<in> set (es_ch s @ pending (es_wr s)). length b \<le> nat (optMaxPacket opts)) \<and>
     (\<forall>i b. es_wr s = WWrite i b \<longrightarrow> length b \<le> nat (optMaxPacket opts)) \<and>
     (es_rd s \<noteq> RStart \<longrightarrow> nat (optMaxPacket opts) \<le> length (es_rbuf s))"

lemma sizes_ok_start: "sizes_ok opts (echo_start s r)"
  by (simp add: sizes_ok_def echo_start_def)

lemma main_step_sizes: "sizes_ok opts s \<Longrightarrow> main_step s = Some s' \<Longrightarrow> sizes_ok opts s'"
  by (auto simp: main_step_def sizes_ok_def split: mpc.splits if_splits list.splits)

lemma writer_step_sizes:
  assumes "opts_ok opts" "sizes_ok opts s" "writer_step opts cn packets fill s = Some s'"
    and w: "\<And>b. \<exists>k e t. cn_Write cn b (es_s s) = (Ok (k, e), t)"
  shows "sizes_ok opts s'"
proof (cases "es_wr s")
  case (WLoop i)
  obtain sz r' where "packetSize opts (es_rng s) = (Ok sz, r')" "0 \<le> sz" "sz \<le> optMaxPacket opts"
    using assms(1) packetSize_range [of opts "es_rng s"] unfolding opts_ok_def by (metis order_trans)
  then show ?thesis using assms WLoop by (auto simp: writer_step_def sizes_ok_def nat_mono split: if_splits)
next
  case (WWrite i b)
  obtain k e t where "cn_Write cn b (es_s s) = (Ok (k, e), t)" using w by blast
  then show ?thesis using assms WWrite by (cases e) (auto simp: writer_step_def sizes_ok_def)
qed (use assms in \<open>auto simp: writer_step_def sizes_ok_def opts_ok_def dest!: sendDone_Some split: if_splits\<close>)

lemma reader_step_sizes:
  assumes "opts_ok opts" "sizes_ok opts s" "reader_step opts cn s = Some s'"
    and ok: "reader_ok (es_rd s) (es_rbuf s) (es_got s) (es_sent s) (es_ch s) (es_closed s) ms"
    and r: "\<And>n. \<exists>q e t. cn_Read cn n (es_s s) = (Ok (q, e), t)"
  shows "sizes_ok opts s'"
proof (cases "es_rd s")
  case RRange
  then show ?thesis using assms(2,3) by (auto simp: reader_step_def sizes_ok_def split: list.splits if_splits)
next
  case (RRead b n)
  obtain q e t where "cn_Read cn (length b - n) (es_s s) = (Ok (q, e), t)" using r by blast
  moreover have "n \<le> length (es_rbuf s)" using ok RRead by (auto simp: reader_ok_def)
  ultimately show ?thesis using assms(2,3) RRead by (auto simp: reader_step_def sizes_ok_def Let_def split: if_splits)
qed (use assms in \<open>auto simp: reader_step_def sizes_ok_def opts_ok_def dest!: sendDone_Some split: if_splits\<close>)

section \<open>Connections\<close>

text \<open>What a connection does with bytes: \<open>rel s rest out\<close> says that it will still give \<open>rest\<close> and has taken \<open>out\<close>. A write may
  report an error; its bytes are taken.\<close>

locale byte_conn =
  fixes cn :: "'s net_Conn" and rel :: "'s \<Rightarrow> byte list \<Rightarrow> byte list \<Rightarrow> bool"
  assumes Read: "rel s rest out \<Longrightarrow> \<exists>q e t rest'. cn_Read cn n s = (Ok (q, e), t) \<and> rest = q @ rest' \<and> length q \<le> n \<and> rel t rest' out"
    and Write: "rel s rest out \<Longrightarrow> \<exists>k e t. cn_Write cn b s = (Ok (k, e), t) \<and> rel t rest (out @ b)"
begin

definition at :: "byte list \<Rightarrow> byte list \<Rightarrow> 's echo_sys \<Rightarrow> bool" where
  "at inp out s \<longleftrightarrow> (\<exists>rest. inp = es_got s @ rest \<and> rel (es_s s) rest (out @ concat (es_sent s @ pending (es_wr s))))"

lemma bounded: "rel s rest out \<Longrightarrow> bounded_Read cn s"
  unfolding bounded_Read_def using Read by (metis Pair_inject res.inject(1))

lemma writer_at_step:
  assumes "at inp out s" "writer_step opts cn packets fill s = Some s'"
  shows "at inp out s'"
proof (cases "es_wr s")
  case (WWrite i b)
  obtain rest where r: "inp = es_got s @ rest" "rel (es_s s) rest (out @ concat (es_sent s))"
    using assms(1) WWrite by (auto simp: at_def)
  obtain k e t where t: "cn_Write cn b (es_s s) = (Ok (k, e), t)" "rel t rest ((out @ concat (es_sent s)) @ b)"
    using Write [OF r(2)] by blast
  then show ?thesis using assms(2) WWrite r by (cases e) (auto simp: writer_step_def at_def)
qed (use assms in \<open>auto simp: writer_step_def crash_def at_def dest!: sendDone_Some split: if_splits prod.splits res.splits\<close>)

lemma reader_at_step:
  assumes "at inp out s" "reader_step opts cn s = Some s'"
  shows "at inp out s'"
proof (cases "es_rd s")
  case (RRead b n)
  obtain rest where r: "inp = es_got s @ rest" "rel (es_s s) rest (out @ concat (es_sent s @ pending (es_wr s)))"
    using assms(1) by (auto simp: at_def)
  obtain q e t rest' where "cn_Read cn (length b - n) (es_s s) = (Ok (q, e), t)" "rest = q @ rest'"
    "rel t rest' (out @ concat (es_sent s @ pending (es_wr s)))"
    using Read [OF r(2)] by blast
  then show ?thesis using assms RRead r by (auto simp: reader_step_def at_def Let_def split: if_splits)
qed (use assms in \<open>auto simp: reader_step_def crash_def at_def dest!: sendDone_Some split: if_splits list.splits\<close>)

lemma main_at_step: "at inp out s \<Longrightarrow> main_step s = Some s' \<Longrightarrow> at inp out s'"
  by (auto simp: main_step_def at_def split: mpc.splits if_splits list.splits)

lemma run_ok:
  assumes "(estep opts cn packets)\<^sup>*\<^sup>* (echo_start s0 r) s" "rel s0 inp out"
  shows "echo_ok packets s \<and> at inp out s"
  using assms(1)
proof (induction rule: rtranclp_induct)
  case base
  show ?case using assms(2) by (simp add: echo_ok_start at_def) (simp add: echo_start_def)
next
  case (step s s')
  then have ok: "echo_ok packets s" "at inp out s" by simp_all
  have "bounded_Read cn (es_s s)" using ok(2) bounded by (auto simp: at_def)
  with step(2) ok show ?case
    by cases (metis writer_step_ok writer_at_step, metis reader_step_ok reader_at_step, metis main_step_ok main_at_step)
qed

lemma sound:
  assumes "(estep opts cn packets)\<^sup>*\<^sup>* (echo_start s0 r) s" "rel s0 inp out" "es_main s = MRet None"
  shows "length (es_sent s) = packets \<and> es_wrote s = es_sent s \<and> es_got s = concat (es_sent s) \<and> es_wr s = WEnd \<and> es_rd s = REnd \<and>
    (\<exists>rest. inp = concat (es_sent s) @ rest \<and> rel (es_s s) rest (out @ concat (es_sent s)))"
proof -
  have ok: "echo_ok packets s" "at inp out s" using run_ok [OF assms(1,2)] by simp_all
  have e: "es_wr s = WEnd \<and> es_rd s = REnd \<and> said True (es_log s) = [None] \<and> said False (es_log s) = [None]"
    by (rule both_ended) (use ok(1) assms(3) in \<open>auto simp: echo_ok_def main_ok_def\<close>)
  then have "length (es_sent s) = packets \<and> es_wrote s = es_sent s \<and> es_got s = concat (es_sent s)"
    using ok(1) by (auto simp: echo_ok_def writer_ok_def reader_ok_def)
  with e ok(2) show ?thesis by (auto simp: at_def)
qed

lemma no_crash:
  assumes "(estep opts cn packets)\<^sup>*\<^sup>* (echo_start s0 r) s" "rel s0 inp out" "opts_ok opts"
  shows "sizes_ok opts s"
  using assms(1)
proof (induction rule: rtranclp_induct)
  case base
  show ?case by (rule sizes_ok_start)
next
  case (step s s')
  have ok: "echo_ok packets s" "at inp out s" using run_ok [OF step(1) assms(2)] by simp_all
  obtain rest out' where rel: "rel (es_s s) rest out'" using ok(2) by (auto simp: at_def)
  from step(2) show ?case
  proof cases
    case (Writer fill)
    then show ?thesis using writer_step_sizes [OF assms(3) step(3)] Write [OF rel] by metis
  next
    case Reader
    then show ?thesis using reader_step_sizes [OF assms(3) step(3)] Read [OF rel] ok(1) unfolding echo_ok_def by metis
  next
    case Main
    then show ?thesis using main_step_sizes step(3) by blast
  qed
qed

lemma writer_moves:
  assumes "echo_ok packets s" "rel (es_s s) rest out'" "es_done s = []" "es_ch s = []" "es_wr s \<noteq> WEnd"
  shows "writer_step opts cn packets fill s \<noteq> None"
proof (cases "es_wr s")
  case (WWrite i b)
  obtain k e t where "cn_Write cn b (es_s s) = (Ok (k, e), t)" using Write [OF assms(2)] by blast
  then show ?thesis using WWrite by (cases e) (simp_all add: writer_step_def)
next
  case (WSend i b)
  then show ?thesis using assms by (auto simp: writer_step_def echo_ok_def writer_ok_def)
next
  case (WLoop i)
  then show ?thesis by (auto simp: writer_step_def crash_def split: prod.split res.split)
qed (use assms in \<open>auto simp: writer_step_def crash_def sendDone_def\<close>)

lemma reader_moves:
  assumes "rel (es_s s) rest out'" "es_done s = []" "es_rd s = RRange \<Longrightarrow> es_ch s \<noteq> [] \<or> es_closed s" "es_rd s \<noteq> REnd"
  shows "reader_step opts cn s \<noteq> None"
proof (cases "es_rd s")
  case (RRead b n)
  obtain q e t where "cn_Read cn (length b - n) (es_s s) = (Ok (q, e), t)" using Read [OF assms(1)] by blast
  then show ?thesis using RRead by (simp add: reader_step_def Let_def)
next
  case RRange
  then show ?thesis using assms(3) by (auto simp: reader_step_def crash_def split: list.split)
qed (use assms in \<open>auto simp: reader_step_def crash_def sendDone_def\<close>)

lemma progress:
  assumes "(estep opts cn packets)\<^sup>*\<^sup>* (echo_start s0 r) s" "rel s0 inp out" "es_main s = MWait i" "\<not> es_crashed s"
  shows "\<exists>s'. estep opts cn packets s s'"
proof (cases "es_done s = [] \<and> i < 2")
  case False
  then have "main_step s \<noteq> None" using assms(3) by (auto simp: main_step_def split: list.split)
  then show ?thesis using estep.Main [OF assms(4)] by blast
next
  case True
  have ok: "echo_ok packets s" "at inp out s" using run_ok [OF assms(1,2)] by simp_all
  obtain rest out' where rel: "rel (es_s s) rest out'" using ok(2) by (auto simp: at_def)
  have one: "\<not> (es_wr s = WEnd \<and> es_rd s = REnd)"
  proof
    assume "es_wr s = WEnd \<and> es_rd s = REnd"
    then have "said True (es_log s) \<noteq> []" "said False (es_log s) \<noteq> []" using ok(1) by (auto simp: echo_ok_def said_ok_def)
    moreover have "length (es_log s) \<le> 1" using ok(1) True assms(3) by (auto simp: echo_ok_def main_ok_def)
    ultimately show False by (cases "es_log s") (auto simp: said_def split: if_splits)
  qed
  show ?thesis
  proof (cases "es_rd s = REnd \<or> es_rd s = RRange \<and> es_ch s = [] \<and> \<not> es_closed s")
    case False
    then show ?thesis using reader_moves [OF rel] True estep.Reader [OF assms(4)] by blast
  next
    case True': True
    then have "es_ch s = []" "es_wr s \<noteq> WEnd" using ok(1) one by (auto simp: echo_ok_def reader_ok_def)
    then show ?thesis using writer_moves [OF ok(1) rel] True estep.Writer [OF assms(4)] by blast
  qed
qed

end

section \<open>The connection of the protocol\<close>

definition scp_cn :: "'srv SCPServer_ops \<Rightarrow> nat \<Rightarrow> 'srv world net_Conn" where
  "scp_cn ops c = \<lparr>cn_Read = Conn_Read ops c, cn_Write = Conn_Write ops c\<rparr>"

text \<open>The connection \<open>c\<close> is past its handshake and has no error; its peer sends \<open>inp\<close>, of which what lies on the network and what
  comes \<open>later\<close> is still to be read.\<close>

definition scp_rel :: "rc4 \<Rightarrow> byte list \<Rightarrow> nat \<Rightarrow> byte list \<Rightarrow> 'srv world \<Rightarrow> byte list \<Rightarrow> byte list \<Rightarrow> bool" where
  "scp_rel k0 inp c later w rest out \<longleftrightarrow> c_handshaked (w_conns w c) \<and> c_connErr (w_conns w c) = None \<and>
     (\<exists>n. streams w c k0 out inp n \<and> rest = drop n inp \<and>
        concat (nc_rx (net_of w c)) @ later = drop n (fst (XORKeyStream k0 inp)))"

interpretation sc: byte_conn "scp_cn (ops :: 'srv SCPServer_ops) c" "scp_rel k0 inp c later"
proof
  fix w :: "'srv world" and rest out n b
  assume "scp_rel k0 inp c later w rest out"
  then obtain k where k: "streams w c k0 out inp k" "c_handshaked (w_conns w c)" "c_connErr (w_conns w c) = None" "rest = drop k inp"
    "concat (nc_rx (net_of w c)) @ later = drop k (fst (XORKeyStream k0 inp))" by (auto simp: scp_rel_def)
  obtain q e w' where q: "Conn_Read ops c n w = (Ok (q, e), w')" "q = take (length q) (drop k inp)" "length q \<le> n"
    "streams w' c k0 out inp (k + length q)" "concat (nc_rx (net_of w' c)) @ later = drop (k + length q) (fst (XORKeyStream k0 inp))"
    "same_shell c w w'" using Conn_Read_streams [OF k(1-3,5)] by metis
  have "rest = q @ drop (k + length q) inp" using q(2) k(4) by (metis append_take_drop_id drop_drop add.commute)
  moreover have "scp_rel k0 inp c later w' (drop (k + length q) inp) out"
    using q k by (auto simp: scp_rel_def same_shell_def)
  ultimately show "\<exists>q e t rest'. cn_Read (scp_cn ops c) n w = (Ok (q, e), t) \<and> rest = q @ rest' \<and> length q \<le> n \<and> scp_rel k0 inp c later t rest' out"
    using q(1,3) by (auto simp: scp_cn_def)
  obtain e w' where "Conn_Write ops c b w = (Ok (length b, e), w')" "streams w' c k0 (out @ b) inp k" "same_shell c w w'"
    "nc_rx (net_of w' c) = nc_rx (net_of w c)" using Conn_Write_streams [OF k(1-3)] by metis
  then show "\<exists>j e t. cn_Write (scp_cn ops c) b w = (Ok (j, e), t) \<and> scp_rel k0 inp c later t rest (out @ b)"
    using k by (auto simp: scp_cn_def scp_rel_def same_shell_def)
qed

text \<open>On a connection that works, with a piece of the stream at hand, both calls succeed.\<close>

lemma Conn_Write_good:
  assumes "streams w c k0 out inp n" "c_handshaked (w_conns w c)" "c_connErr (w_conns w c) = None" "nc_good (net_of w c)"
  obtains w' where "Conn_Write ops c b w = (Ok (length b, None), w')" "streams w' c k0 (out @ b) inp n" "same_shell c w w'"
    "nc_rx (net_of w' c) = nc_rx (net_of w c)" "nc_good (net_of w' c)"
    "nc_tx (net_of w' c) = nc_tx (net_of w c) @ fst (XORKeyStream (out_cipher w c) b)"
proof -
  obtain d where h: "Handshake ops c w = (Ok None, upd_net (c_conn (w_conns w c)) (\<lambda>y. y\<lparr>nc_deadline := d\<rparr>) w)"
    (is "_ = (_, ?w)") using Handshake_done [OF assms(2)] assms(3) by metis
  have g: "nc_good (net_of ?w c)" using assms(4) by (simp add: net_of_def nc_good_def)
  have st: "streams ?w c k0 out inp n" using assms(1) by simp
  obtain rb v where v: "c_reuseBuffer (w_conns ?w c) = Some rb" "c_out (w_conns ?w c) = Some v" "cw_wr v = Some (rb, c_conn (w_conns ?w c))"
    using st by (auto simp: streams_def sends_def)
  let ?w' = "written c b rb v ?w" and ?space = "fst (XORKeyStream (out_cipher ?w c) b)"
  have n: "net_of ?w' c = snd (nc_Write ?space (net_of ?w c))" using v by (simp add: net_of_def written_def Let_def out_cipher_def)
  have wr: "nc_Write ?space (net_of ?w c) = ((length b, None), (net_of ?w c)\<lparr>nc_tx := nc_tx (net_of ?w c) @ ?space\<rparr>)"
    using g by (simp add: nc_good_def nc_Write_def)
  have "out_Write c b ?w = (Ok (length b, None), ?w')"
    using v(2,3) wr by (simp add: out_Write_def multi_Write_def xor_key_stream_def monad_simps Let_def written_def
        upd_net_def out_cipher_def net_of_def)
  then have "Conn_Write ops c b w = (Ok (length b, None), ?w')" by (simp add: Conn_Write_def monad_simps h)
  moreover have "same_shell c w ?w'" by (rule same_shell_trans [OF same_shell_upd_net]) (simp add: same_shell_def written_def Let_def)
  moreover have "net_of ?w c = (net_of w c)\<lparr>nc_deadline := d\<rparr>" "out_cipher ?w c = out_cipher w c" by (simp_all add: net_of_def out_cipher_def)
  ultimately show thesis
    using that written_streams [OF st v(1,2)] n wr g by (simp add: nc_good_def)
qed

lemma Conn_Read_after:
  assumes h: "Handshake ops c w = (Ok None, w1)" and s: "streams w1 c k0 out inp n"
    and rx: "nc_rx (net_of w1 c) = x # xs" "\<not> nc_closed (net_of w1 c)" "0 < m"
    and wire: "concat (nc_rx (net_of w1 c)) @ later = drop n (fst (XORKeyStream k0 inp))"
  obtains w' where "Conn_Read ops c m w = (Ok (take (min m (length x)) (drop n inp), None), w')"
    "streams w' c k0 out inp (n + min m (length x))" "same_shell c w1 w'"
    "nc_rx (net_of w' c) = (if m < length x then drop m x # xs else xs)" "\<not> nc_closed (net_of w' c)"
    "concat (nc_rx (net_of w' c)) @ later = drop (n + min m (length x)) (fst (XORKeyStream k0 inp))"
proof -
  obtain q w' where q: "in_Read c m w1 = (Ok q, w')" "length q = min m (length x)" "streams w' c k0 out inp (n + length q)"
    "q = take (length q) (drop n inp)"
    "concat (nc_rx (net_of w' c)) @ later = drop (n + length q) (fst (XORKeyStream k0 inp))" "same_shell c w1 w'"
    using in_Read_streams [OF s rx(1,2) wire] by metis
  obtain r where r: "c_in (w_conns w1 c) = Some r" "cr_rd r = Some (c_conn (w_conns w1 c))"
    using s by (auto simp: streams_def receives_def)
  have "net_of w' c = snd (nc_Read m (net_of w1 c))"
    using q(1) r rx by (auto simp: in_Read_def monad_simps xor_key_stream_def net_of_def nc_Read_def split: res.splits)
  then have n: "nc_rx (net_of w' c) = (if m < length x then drop m x # xs else xs)" "\<not> nc_closed (net_of w' c)"
    using rx by (auto simp: nc_Read_def)
  have "Conn_Read ops c m w = (Ok (q, None), w')" using q(1) rx(3) by (simp add: Conn_Read_def monad_simps h)
  then show thesis using that q n by metis
qed

lemma Conn_Read_arrived:
  assumes s: "streams w c k0 out inp n" "c_handshaked (w_conns w c)" "c_connErr (w_conns w c) = None"
    and rx: "nc_rx (net_of w c) = x # xs" "\<not> nc_closed (net_of w c)" "0 < m"
    and wire: "concat (nc_rx (net_of w c)) @ later = drop n (fst (XORKeyStream k0 inp))"
  obtains w' where "Conn_Read ops c m w = (Ok (take (min m (length x)) (drop n inp), None), w')"
    "streams w' c k0 out inp (n + min m (length x))" "same_shell c w w'"
proof -
  obtain d where h: "Handshake ops c w = (Ok None, upd_net (c_conn (w_conns w c)) (\<lambda>y. y\<lparr>nc_deadline := d\<rparr>) w)"
    (is "_ = (_, ?w)") using Handshake_done [OF s(2)] s(3) by metis
  have "streams ?w c k0 out inp n" "nc_rx (net_of ?w c) = x # xs" "\<not> nc_closed (net_of ?w c)"
    "concat (nc_rx (net_of ?w c)) @ later = drop n (fst (XORKeyStream k0 inp))" using s(1) rx wire by (simp_all add: net_of_def)
  from Conn_Read_after [OF h this(1-3) rx(3) this(4)] show thesis
    using that same_shell_trans [OF same_shell_upd_net] by metis
qed

text \<open>A run given by the order in which the goroutines move.\<close>

datatype mover = Wr | Rd | Mn

definition move :: "client_opts \<Rightarrow> 's net_Conn \<Rightarrow> nat \<Rightarrow> (nat \<Rightarrow> byte) \<Rightarrow> mover \<Rightarrow> 's echo_sys \<Rightarrow> 's echo_sys option" where
  "move opts cn packets fill m s = (if es_crashed s then None else case m of
     Wr \<Rightarrow> writer_step opts cn packets fill s | Rd \<Rightarrow> reader_step opts cn s | Mn \<Rightarrow> main_step s)"

fun moves :: "client_opts \<Rightarrow> 's net_Conn \<Rightarrow> nat \<Rightarrow> (nat \<Rightarrow> byte) \<Rightarrow> mover list \<Rightarrow> 's echo_sys \<Rightarrow> 's echo_sys option" where
  "moves opts cn packets fill [] s = Some s"
| "moves opts cn packets fill (m # ms) s = Option.bind (move opts cn packets fill m s) (moves opts cn packets fill ms)"

lemma moves_reach: "moves opts cn packets fill ms s = Some s' \<Longrightarrow> (estep opts cn packets)\<^sup>*\<^sup>* s s'"
proof (induction ms arbitrary: s)
  case (Cons m ms)
  then obtain s1 where "move opts cn packets fill m s = Some s1" "(estep opts cn packets)\<^sup>*\<^sup>* s1 s'"
    by (auto simp: bind_eq_Some_conv)
  moreover from this(1) have "estep opts cn packets s s1"
    by (cases m) (auto simp: move_def intro: estep.intros split: if_splits)
  ultimately show ?case by simp
qed simp

section \<open>Properties\<close>

text \<open>C33. The test is sound: \<open>testN\<close> reports success only when everything came back. However the two goroutines and \<open>testN\<close>
  interleave, if \<open>testN\<close> returns nil then both goroutines are done, all packets were written without an error, and
  what the peer sends next, by the state of the session, is exactly those packets in the order they were
  written; the stream of the session has moved on by them in both directions.\<close>

theorem testN_sound:
  assumes "(estep opts (scp_cn ops c) packets)\<^sup>*\<^sup>* (echo_start w r) s" "es_main s = MRet None"
    and "streams w c k0 out inp n" "c_handshaked (w_conns w c)" "c_connErr (w_conns w c) = None"
    and "concat (nc_rx (net_of w c)) @ later = drop n (fst (XORKeyStream k0 inp))"
  shows "es_wr s = WEnd \<and> es_rd s = REnd \<and> length (es_sent s) = packets \<and> es_wrote s = es_sent s \<and>
    (\<exists>rest. drop n inp = concat (es_sent s) @ rest) \<and>
    streams (es_s s) c k0 (out @ concat (es_sent s)) inp (n + length (concat (es_sent s)))"
proof -
  have "scp_rel k0 inp c later w (drop n inp) out" using assms(3-6) by (auto simp: scp_rel_def)
  from sc.sound [OF assms(1) this assms(2)] obtain rest where
    s: "es_wr s = WEnd" "es_rd s = REnd" "length (es_sent s) = packets" "es_wrote s = es_sent s"
      "drop n inp = concat (es_sent s) @ rest" "scp_rel k0 inp c later (es_s s) rest (out @ concat (es_sent s))" by blast
  then obtain m where m: "streams (es_s s) c k0 (out @ concat (es_sent s)) inp m" "rest = drop m inp" by (auto simp: scp_rel_def)
  have "n \<le> length inp" "m \<le> length inp" using assms(3) m(1) by (auto simp: streams_def)
  moreover have "length inp - n = length (concat (es_sent s)) + (length inp - m)"
    using arg_cong [OF s(5), of length] m(2) by (simp del: length_concat)
  ultimately have "m = n + length (concat (es_sent s))" by linarith
  then show ?thesis using s m by blast
qed

text \<open>C34. The test does not get stuck: with sensible options (a positive rate, packet sizes in order), in any state reachable while \<open>testN\<close>
  waits, no goroutine has crashed and some goroutine can go on: no send blocks for ever on a channel that nobody
  will read, and the slice of the read buffer is never out of range.\<close>

theorem testN_never_stuck:
  assumes "(estep opts (scp_cn ops c) packets)\<^sup>*\<^sup>* (echo_start w r) s" "es_main s = MWait i" "opts_ok opts"
    and "streams w c k0 out inp n" "c_handshaked (w_conns w c)" "c_connErr (w_conns w c) = None"
    and "concat (nc_rx (net_of w c)) @ later = drop n (fst (XORKeyStream k0 inp))"
  shows "\<not> es_crashed s \<and> (\<exists>s'. estep opts (scp_cn ops c) packets s s')"
proof -
  have rel: "scp_rel k0 inp c later w (drop n inp) out" using assms(4-7) by (auto simp: scp_rel_def)
  have "\<not> es_crashed s" using sc.no_crash [OF assms(1) rel assms(3)] by (simp add: sizes_ok_def)
  with sc.progress [OF assms(1) rel assms(2)] show ?thesis by blast
qed

text \<open>One packet of one byte, to a peer that sends that byte next.\<close>

definition ex_opts :: client_opts where
  "ex_opts = \<lparr>optPacketsPerSecond = 100, optMinPacket = 1, optMaxPacket = 1, optPackets = 1, optReuses = 1\<rparr>"

definition ex_echo :: "unit world" where
  "ex_echo = ex_world (rc4_NewCipher [9]) [1] [7, 8] 1 0 [drop 1 (fst (XORKeyStream (rc4_NewCipher [9]) [7, 8]))]"

lemma ex_echo_simps:
  "streams ex_echo 0 (rc4_NewCipher [9]) [1] [7, 8] 1" "c_handshaked (w_conns ex_echo 0)" "c_connErr (w_conns ex_echo 0) = None"
  "nc_good (net_of ex_echo 0)" "nc_rx (net_of ex_echo 0) = [drop 1 (fst (XORKeyStream (rc4_NewCipher [9]) [7, 8]))]"
  unfolding ex_echo_def by (simp_all del: XORKeyStream_Cons)

lemma ex_echo_calls:
  obtains w1 w2 where "cn_Write (scp_cn ex_ops 0) [8] ex_echo = (Ok (1, None), w1)" "cn_Read (scp_cn ex_ops 0) 1 w1 = (Ok ([8], None), w2)"
proof -
  let ?k = "rc4_NewCipher [9]" and ?ct = "drop 1 (fst (XORKeyStream (rc4_NewCipher [9]) [7, 8]))"
  note e = ex_echo_simps
  obtain w1 where w1: "Conn_Write ex_ops 0 [8] ex_echo = (Ok (length [8 :: byte], None), w1)" "streams w1 0 ?k ([1] @ [8]) [7, 8] 1"
    "same_shell 0 ex_echo w1" "nc_rx (net_of w1 0) = nc_rx (net_of ex_echo 0)" "nc_good (net_of w1 0)"
    using Conn_Write_good [OF e(1-4)] by metis
  have l: "length ?ct = 1" by simp
  have "c_handshaked (w_conns w1 0)" "c_connErr (w_conns w1 0) = None" "nc_rx (net_of w1 0) = [?ct]" "\<not> nc_closed (net_of w1 0)"
    using w1(3-5) e by (auto simp: same_shell_def nc_good_def)
  from Conn_Read_arrived [OF w1(2) this zero_less_one, of "[]" ex_ops] this(3) obtain w2 where
    "Conn_Read ex_ops 0 1 w1 = (Ok (take (min 1 (length ?ct)) (drop 1 [7, 8]), None), w2)"
    by (metis append_Nil2 concat.simps)
  then show thesis using that [of w1 w2] w1(1) unfolding l by (simp add: scp_cn_def)
qed

lemma ex_echo_run:
  obtains s where "(estep ex_opts (scp_cn ex_ops 0) 1)\<^sup>*\<^sup>* (echo_start ex_echo r) s" "es_main s = MRet None" "es_sent s = [[8]]"
proof -
  obtain w1 w2 where w: "cn_Write (scp_cn ex_ops 0) [8] ex_echo = (Ok (1, None), w1)" "cn_Read (scp_cn ex_ops 0) 1 w1 = (Ok ([8], None), w2)"
    by (rule ex_echo_calls)
  have "\<exists>s. moves ex_opts (scp_cn ex_ops 0) 1 (\<lambda>_. 8) [Wr, Wr, Wr, Wr, Wr, Wr, Wr, Rd, Rd, Rd, Rd, Rd, Rd, Rd, Mn, Mn, Mn] (echo_start ex_echo r) = Some s \<and>
      es_main s = MRet None \<and> es_sent s = [[8]]"
    using w by (simp add: move_def echo_start_def writer_step_def reader_step_def main_step_def sendDone_def crash_def packetSize_def
        ex_opts_def monad_simps Let_def go_copy_def)
  then show thesis using that moves_reach by blast
qed

theorem testN_sound_witness:
  "\<exists>(s :: unit world echo_sys) rest. es_main s = MRet None \<and> es_sent s = [[8]] \<and> drop 1 [7, 8] = concat (es_sent s) @ rest"
proof -
  obtain s where s: "(estep ex_opts (scp_cn ex_ops 0) 1)\<^sup>*\<^sup>* (echo_start ex_echo \<lparr>rng_seq = (\<lambda>_. 0), rng_pos = 0\<rparr>) s" "es_main s = MRet None" "es_sent s = [[8]]"
    by (rule ex_echo_run)
  have "concat (nc_rx (net_of ex_echo 0)) @ [] = drop 1 (fst (XORKeyStream (rc4_NewCipher [9]) [7, 8]))"
    unfolding ex_echo_simps by (simp del: XORKeyStream_Cons)
  from testN_sound [OF s(1,2) ex_echo_simps(1-3) this] s show ?thesis by blast
qed

theorem testN_never_stuck_witness:
  "\<exists>s'. estep ex_opts (scp_cn ex_ops 0) 1 (echo_start ex_echo \<lparr>rng_seq = (\<lambda>_. 0), rng_pos = 0\<rparr>) s'"
proof -
  have "concat (nc_rx (net_of ex_echo 0)) @ [] = drop 1 (fst (XORKeyStream (rc4_NewCipher [9]) [7, 8]))"
    unfolding ex_echo_simps by (simp del: XORKeyStream_Cons)
  from testN_never_stuck [OF rtranclp.rtrancl_refl _ _ ex_echo_simps(1-3) this, where i = 0 and opts = ex_opts] show ?thesis
    by (simp add: echo_start_def opts_ok_def ex_opts_def)
qed

end
