(* ===== verification/Example_Client.thy ===== *)
theory Example_Client
  imports Echo_Test Upstream
begin

text \<open>
  The rest of the example client (\<open>examples/client/main.go\<close>): the resume check \<open>testSCP\<close>, a test case \<open>Start\<close>, the echo server with
  the announcement it reads first, and \<open>main\<close>.

  \<open>testSCP\<close> writes half of a packet and the other half on a connection, takes the session over on a new network
  connection, and reads the packet back there. \<open>io.ReadFull\<close> on a connection is a loop that need not end (\<open>None\<close>: it does not
  return). What a new network connection will do is an argument. The decoder of \<open>sproto\<close> messages is a parameter (the record
  \<open>sproto_dec\<close>).
\<close>

section \<open>Reading a packet\<close>

partial_function (option) read_full :: "'srv SCPServer_ops \<Rightarrow> nat \<Rightarrow> nat \<Rightarrow> byte list \<Rightarrow> 'srv world \<Rightarrow> (byte list res \<times> 'srv world) option" where
  "read_full ops c n got w =
     (if n \<le> length got then Some (Ok got, w)
      else case Conn_Read ops c (n - length got) w of
        (Ok qe, w') \<Rightarrow>
          (case snd qe of
             None \<Rightarrow> read_full ops c n (got @ fst qe) w'
           | Some err \<Rightarrow> Some (if n \<le> length (got @ fst qe) then Ok (got @ fst qe)
               else Fail (if got @ fst qe \<noteq> [] \<and> err = ErrEOF then ErrUnexpectedEOF else err), w'))
      | (Fail e, w') \<Rightarrow> Some (Fail e, w')
      | (Panic m, w') \<Rightarrow> Some (Panic m, w')
      | (Hang, w') \<Rightarrow> None)"

definition ReadFull :: "'srv SCPServer_ops \<Rightarrow> nat \<Rightarrow> nat \<Rightarrow> ('srv world, byte list) M" where
  "ReadFull ops c n = (\<lambda>w. case read_full ops c n [] w of None \<Rightarrow> (Hang, w) | Some r \<Rightarrow> r)"

section \<open>Resuming (testSCP)\<close>

definition testSCP_with :: "'srv SCPServer_ops \<Rightarrow> nat \<Rightarrow> nat \<Rightarrow> byte list \<Rightarrow> ('srv world, nat option \<times> goerr option) M" where
  "testSCP_with ops originConn conn wbuf =
     (let sz = length wbuf in
      bindM (Conn_Write ops originConn (take (sz div 2) wbuf)) (\<lambda>_.
      bindM (Conn_Write ops originConn (drop (sz div 2) wbuf)) (\<lambda>_.
      bindM (tryM (Client conn (Some (defaultConfig\<lparr>cf_ConnForReused := Some originConn\<rparr>)))) (\<lambda>r. case r of
        Inl err \<Rightarrow> retM (None, Some err)
      | Inr scon \<Rightarrow>
          bindM (Conn_Close originConn) (\<lambda>_.
          bindM (tryM (ReadFull ops scon sz)) (\<lambda>r. case r of
            Inl err \<Rightarrow> retM (None, Some err)
          | Inr rbuf \<Rightarrow> retM (if wbuf \<noteq> rbuf then (None, Some (FmtErr ''testSCP'')) else (Some scon, None))))))))"

definition testSCP :: "client_opts \<Rightarrow> 'srv SCPServer_ops \<Rightarrow> (nat \<Rightarrow> byte) \<Rightarrow> nat \<Rightarrow> nat \<Rightarrow> ('srv world \<times> rng, nat option \<times> goerr option) M" where
  "testSCP opts ops fill originConn conn = (\<lambda>(w, r).
     case packetSize opts r of
       (Ok sz, r') \<Rightarrow>
         if sz < 0 then (Panic ''makeslice: len out of range'', w, r')
         else (case testSCP_with ops originConn conn (map fill [0..<nat sz]) w of (x, w') \<Rightarrow> (x, w', r'))
     | (Fail e, r') \<Rightarrow> (Fail e, w, r') | (Panic m, r') \<Rightarrow> (Panic m, w, r') | (Hang, r') \<Rightarrow> (Hang, w, r'))"

section \<open>A test case (Start)\<close>

text \<open>Division of Go's integers, for the two options.\<close>

definition packets_per_round :: "client_opts \<Rightarrow> int res" where
  "packets_per_round opts =
     (if optReuses opts = 0 then Panic ''integer divide by zero''
      else let n = sgn (optPackets opts) * sgn (optReuses opts) * (\<bar>optPackets opts\<bar> div \<bar>optReuses opts\<bar>)
           in Ok (if n \<le> 0 then 1 else n))"

text \<open>What \<open>testN\<close> may return: its result, the world and the random numbers at that moment.\<close>

definition testN_returns :: "client_opts \<Rightarrow> 'srv SCPServer_ops \<Rightarrow> nat \<Rightarrow> nat \<Rightarrow> 'srv world \<times> rng \<Rightarrow> goerr option \<Rightarrow> 'srv world \<times> rng \<Rightarrow> bool" where
  "testN_returns opts ops conn packets = (\<lambda>(w, r) err (w', r'). \<exists>s. (estep opts (scp_cn ops conn) packets)\<^sup>*\<^sup>* (echo_start w r) s \<and>
     es_main s = MRet err \<and> es_s s = w' \<and> es_rng s = r')"

definition on_fst :: "('s, 'a) M \<Rightarrow> ('s \<times> 'r, 'a) M" where
  "on_fst f = (\<lambda>(s, r). case f s of (x, s') \<Rightarrow> (x, s', r))"

text \<open>The options of a case beside those of the packets, and what dialling gives, by the number of the attempt.\<close>

record client_cfg =
  cc_opts :: client_opts
  cc_network :: string
  cc_connect :: string
  cc_fecData :: int
  cc_fecParity :: int

record client_io =
  ci_Dial :: "nat \<Rightarrow> string \<Rightarrow> string \<Rightarrow> goerr + netconn"
  ci_DialWithOptions :: "nat \<Rightarrow> string \<Rightarrow> int \<Rightarrow> int \<Rightarrow> goerr + netconn"

definition Dial :: "client_cfg \<Rightarrow> client_io \<Rightarrow> nat \<Rightarrow> goerr + netconn" where
  "Dial cc io i =
     (if cc_network cc = ''tcp'' then ci_Dial io i (cc_network cc) (cc_connect cc)
      else ci_DialWithOptions io i (cc_connect cc) (cc_fecData cc) (cc_fecParity cc))"

text \<open>The loop, in its round \<open>i\<close> with \<open>n\<close> packets each.\<close>

inductive start_loop :: "client_cfg \<Rightarrow> client_io \<Rightarrow> 'srv SCPServer_ops \<Rightarrow> nat \<Rightarrow> nat \<Rightarrow> nat \<Rightarrow>
    'srv world \<times> rng \<Rightarrow> goerr option \<Rightarrow> 'srv world \<times> rng \<Rightarrow> bool" for cc io ops n where
  Finish: "optReuses (cc_opts cc) \<le> int i \<Longrightarrow> on_fst (Conn_Close preConn) t = (Ok (), t') \<Longrightarrow> start_loop cc io ops n i preConn t None t'"
| TestFails: "int i < optReuses (cc_opts cc) \<Longrightarrow> testN_returns (cc_opts cc) ops preConn n t (Some err) t' \<Longrightarrow>
    start_loop cc io ops n i preConn t (Some err) t'"
| DialFails: "int i < optReuses (cc_opts cc) \<Longrightarrow> testN_returns (cc_opts cc) ops preConn n t None t' \<Longrightarrow> Dial cc io (Suc i) = Inl err \<Longrightarrow>
    start_loop cc io ops n i preConn t (Some err) t'"
| ResumeFails: "int i < optReuses (cc_opts cc) \<Longrightarrow> testN_returns (cc_opts cc) ops preConn n t None t1 \<Longrightarrow> Dial cc io (Suc i) = Inr x \<Longrightarrow>
    on_fst (alloc_net x) t1 = (Ok new, t2) \<Longrightarrow> testSCP (cc_opts cc) ops fill preConn new t2 = (Ok (c, Some err), t') \<Longrightarrow>
    start_loop cc io ops n i preConn t (Some err) t'"
| Round: "int i < optReuses (cc_opts cc) \<Longrightarrow> testN_returns (cc_opts cc) ops preConn n t None t1 \<Longrightarrow> Dial cc io (Suc i) = Inr x \<Longrightarrow>
    on_fst (alloc_net x) t1 = (Ok new, t2) \<Longrightarrow> testSCP (cc_opts cc) ops fill preConn new t2 = (Ok (Some nextConn, None), t3) \<Longrightarrow>
    start_loop cc io ops n (Suc i) nextConn t3 r t' \<Longrightarrow> start_loop cc io ops n i preConn t r t'"

inductive Start_returns :: "client_cfg \<Rightarrow> client_io \<Rightarrow> 'srv SCPServer_ops \<Rightarrow> 'srv world \<times> rng \<Rightarrow> goerr option \<Rightarrow> 'srv world \<times> rng \<Rightarrow> bool"
  for cc io ops where
  FirstDialFails: "packets_per_round (cc_opts cc) = Ok n \<Longrightarrow> Dial cc io 0 = Inl err \<Longrightarrow> Start_returns cc io ops t (Some err) t"
| Started: "packets_per_round (cc_opts cc) = Ok n \<Longrightarrow> Dial cc io 0 = Inr x \<Longrightarrow> on_fst (alloc_net x) t = (Ok raw, t1) \<Longrightarrow>
    on_fst (Client raw None) t1 = (Ok preConn, t2) \<Longrightarrow> start_loop cc io ops (nat n) 0 preConn t2 r t' \<Longrightarrow>
    Start_returns cc io ops t r t'"

section \<open>The echo server\<close>

record sproto_dec =
  sproto_Unpack :: "byte list \<Rightarrow> byte list res"
  sproto_DecodePackage :: "byte list \<Rightarrow> nat res"
  sproto_DecodeAddr :: "byte list \<Rightarrow> (string \<times> string) res"

text \<open>The addresses are logged: they are the result.\<close>

definition readRemoteAddressPacket :: "sproto_dec \<Rightarrow> (netconn, string \<times> string) M" where
  "readRemoteAddressPacket dec =
     bindM (nc_ReadFull 2) (\<lambda>h.
     bindM (nc_ReadFull (unat (be_get16 h))) (\<lambda>addressBuf.
     bindM (liftM (sproto_Unpack dec addressBuf)) (\<lambda>unpacked.
     bindM (liftM (sproto_DecodePackage dec unpacked)) (\<lambda>used.
     if length unpacked < used then panicM ''slice bounds out of range''
     else liftM (sproto_DecodeAddr dec (drop used unpacked))))))"

text \<open>\<open>io.Copy(c, c)\<close>, until a read or a write fails; the second component is the part that was copied without an error (with
  \<open>-verbose\<close> it is also printed).\<close>

lemma nc_Write_rx: "nc_rx (snd (nc_Write p c)) = nc_rx c"
  by (simp add: nc_Write_def split: option.split)

lemma io_Copy_less:
  assumes "(Ok q, c1) = nc_Read 32768 c" "((k, e), c2) = nc_Write q c1"
  shows "length (nc_rx c2) + length (concat (nc_rx c2)) < length (nc_rx c) + length (concat (nc_rx c))"
proof -
  have "nc_rx c2 = nc_rx c1" using nc_Write_rx [of q c1] assms(2) by (metis snd_conv)
  then show ?thesis using assms(1) by (auto simp: nc_Read_def split: if_splits list.splits)
qed

function io_Copy :: "netconn \<Rightarrow> netconn \<times> byte list" where
  "io_Copy c = (case nc_Read 32768 c of
     (Ok q, c1) \<Rightarrow>
       (case nc_Write q c1 of ((k, e), c2) \<Rightarrow>
          if e \<noteq> None \<or> k \<noteq> length q then (c2, [])
          else (case io_Copy c2 of (c3, rest) \<Rightarrow> (c3, q @ rest)))
   | (_, c1) \<Rightarrow> (c1, []))"
  by pat_completeness auto
termination
  by (relation "measure (\<lambda>c. length (nc_rx c) + length (concat (nc_rx c)))") (simp, auto intro!: io_Copy_less)

declare io_Copy.simps [simp del]

text \<open>The goroutine of an accepted connection: the bytes it prints, and the connection after the deferred \<open>Close\<close>.\<close>

definition echo_handler :: "sproto_dec \<Rightarrow> bool \<Rightarrow> bool \<Rightarrow> (netconn, byte list) M" where
  "echo_handler dec optSproto optVerbose = (\<lambda>c.
     case (if optSproto then bindM (readRemoteAddressPacket dec) (\<lambda>_. retM ()) else retM ()) c of
       (Ok _, c1) \<Rightarrow> (case io_Copy c1 of (c2, out) \<Rightarrow> (Ok (if optVerbose then out else []), snd (nc_Close c2)))
     | (Fail e, c1) \<Rightarrow> (Ok [], snd (nc_Close c1))
     | (Panic m, c1) \<Rightarrow> (Panic m, snd (nc_Close c1))
     | (Hang, c1) \<Rightarrow> (Hang, c1))"

text \<open>\<open>startEchoServer\<close>: the connections accepted before the first error, each handled.\<close>

definition startEchoServer :: "sproto_dec \<Rightarrow> bool \<Rightarrow> bool \<Rightarrow> (goerr + netconn) list \<Rightarrow> (byte list res \<times> netconn) list" where
  "startEchoServer dec optSproto optVerbose accepts =
     map (\<lambda>a. echo_handler dec optSproto optVerbose (projr a)) (takeWhile (\<lambda>a. \<not> isl a) accepts)"

section \<open>main\<close>

text \<open>The errors \<open>testN\<close> logs, of the results of the concurrent cases in the order they come in.\<close>

definition testN_log :: "goerr option list \<Rightarrow> (nat \<times> goerr) list" where
  "testN_log rs = concat (map (\<lambda>(i, r). case r of None \<Rightarrow> [] | Some e \<Rightarrow> [(i, e)]) (zip [0..<length rs] rs))"

record client_flags =
  xf_cfg :: client_cfg
  xf_echoServer :: string
  xf_echoClient :: bool
  xf_targetServer :: string
  xf_rounds :: nat
  xf_args :: "string list"

text \<open>What \<open>main\<close> goes on to do: run as an echo server, copy between the terminal and one connection, or run the tests a number of
  rounds.\<close>

datatype client_action =
    RunEchoServer string
  | RunEchoClient client_cfg string
  | RunTests client_cfg nat
  | RunNothing

definition client_main :: "client_flags \<Rightarrow> client_action" where
  "client_main fl =
     (let cc = xf_cfg fl; opts = cc_opts cc;
          opts = (if optMinPacket opts > optMaxPacket opts
                  then opts\<lparr>optMinPacket := optMaxPacket opts, optMaxPacket := optMinPacket opts\<rparr> else opts);
          args = xf_args fl;
          cc = cc\<lparr>cc_opts := opts, cc_network := (if 0 < length args \<and> args ! 0 = ''kcp'' then ''kcp'' else ''tcp'')\<rparr>
      in if xf_echoServer fl \<noteq> [] then RunEchoServer (xf_echoServer fl)
         else if xf_echoClient fl then RunEchoClient cc (xf_targetServer fl)
         else if cc_connect cc \<noteq> [] then RunTests cc (xf_rounds fl)
         else RunNothing)"

text \<open>The sizes of packets are in order when the tests run.\<close>

lemma client_main_sizes: "client_main fl = RunTests cc k \<Longrightarrow> optMinPacket (cc_opts cc) \<le> optMaxPacket (cc_opts cc)"
  by (auto simp: client_main_def Let_def split: if_splits)

lemma packets_per_round_total: "(\<exists>n. packets_per_round opts = Ok n \<and> 1 \<le> n) \<longleftrightarrow> optReuses opts \<noteq> 0"
  by (auto simp: packets_per_round_def Let_def)

section \<open>The echo server echoes\<close>

lemma io_Copy_good:
  assumes "nc_good c"
  shows "nc_tx (fst (io_Copy c)) = nc_tx c @ concat (nc_rx c) \<and> snd (io_Copy c) = concat (nc_rx c) \<and> nc_rx (fst (io_Copy c)) = []"
  using assms
proof (induction c rule: io_Copy.induct)
  case (1 c)
  show ?case
  proof (cases "nc_rx c")
    case Nil
    then show ?thesis using 1(2) by (simp add: io_Copy.simps [of c] nc_Read_def nc_good_def)
  next
    case (Cons x xs)
    let ?q = "take 32768 x" and ?c1 = "c\<lparr>nc_rx := (if 32768 < length x then drop 32768 x # xs else xs)\<rparr>"
    have r: "nc_Read 32768 c = (Ok ?q, ?c1)" using 1(2) Cons by (simp add: nc_Read_def nc_good_def)
    have w: "nc_Write ?q ?c1 = ((length ?q, None), ?c1\<lparr>nc_tx := nc_tx c @ ?q\<rparr>)" using 1(2) by (simp add: nc_Write_def nc_good_def)
    have "nc_good (?c1\<lparr>nc_tx := nc_tx c @ ?q\<rparr>)" using 1(2) by (simp add: nc_good_def)
    note IH = 1(1) [OF r [symmetric] refl w [symmetric] refl _ this]
    have "io_Copy c = (fst (io_Copy (?c1\<lparr>nc_tx := nc_tx c @ ?q\<rparr>)), ?q @ snd (io_Copy (?c1\<lparr>nc_tx := nc_tx c @ ?q\<rparr>)))"
      unfolding io_Copy.simps [of c] by (simp add: r w split: prod.split)
    moreover have "take 32768 x @ drop 32768 x @ r = x @ r" for r by (metis append.assoc append_take_drop_id)
    ultimately show ?thesis using IH Cons by (auto split: if_splits)
  qed
qed

section \<open>A session goes on over a new network connection\<close>

lemma Conn_Write_frame:
  assumes wf: "wf_world w" and s: "streams w c k0 out inp n" "c_handshaked (w_conns w c)" "c_connErr (w_conns w c) = None"
  obtains e w' where "Conn_Write ops c p w = (Ok (length p, e), w')" "streams w' c k0 (out @ p) inp n" "same_shell c w w'" "wf_world w'"
    "w_next w' = w_next w" "ring_cap w' c = ring_cap w c" "c_id (w_conns w' c) = c_id (w_conns w c)"
proof -
  obtain d where h: "Handshake ops c w = (Ok None, upd_net (c_conn (w_conns w c)) (\<lambda>y. y\<lparr>nc_deadline := d\<rparr>) w)"
    (is "_ = (_, ?w)") using Handshake_done [OF s(2)] s(3) by metis
  have st: "streams ?w c k0 out inp n" using s(1) by simp
  obtain rb v where v: "c_reuseBuffer (w_conns ?w c) = Some rb" "c_out (w_conns ?w c) = Some v" "cw_wr v = Some (rb, c_conn (w_conns ?w c))"
    "wf_lb (w_bufs w rb)" using st by (auto simp: streams_def sends_def)
  let ?w' = "written c p rb v ?w"
  obtain e where "out_Write c p ?w = (Ok (length p, e), ?w')" using out_Write_run [OF v(2,3)] by metis
  then have run: "Conn_Write ops c p w = (Ok (length p, e), ?w')" by (simp add: Conn_Write_def monad_simps h)
  have "same_shell c w ?w'" by (rule same_shell_trans [OF same_shell_upd_net]) (simp add: same_shell_def written_def Let_def)
  moreover have "wf_world ?w'" using wf v(1,4) by (auto simp: wf_world_def written_def Let_def lb_Write_wf)
  moreover have "w_next ?w' = w_next w" "ring_cap ?w' c = ring_cap w c" "c_id (w_conns ?w' c) = c_id (w_conns w c)"
    using v(1,4) by (simp_all add: written_def Let_def ring_cap_def)
  ultimately show thesis using that [OF run written_streams [OF st v(1,2)]] by blast
qed

lemma Client_takes_over:
  assumes wf: "wf_world w" and s: "streams w old k0 out inp k" and old: "old < w_next w" "n \<noteq> c_conn (w_conns w old)"
    and cf: "cf_ConnForReused cf = Some old" "\<not> cf_ScpServer cf"
  obtains w' where "Client n (Some cf) w = (Ok (w_next w), w')"
    "streams w' (w_next w) k0 out inp k" "net_of w' (w_next w) = w_nets w n" "c_id (w_conns w' (w_next w)) = c_id (w_conns w old)"
    "\<not> c_handshaked (w_conns w' (w_next w))" "\<not> IsServerConn (w_conns w' (w_next w))" "c_connErr (w_conns w' (w_next w)) = None"
    "ring_cap w' (w_next w) = ring_cap w old" "c_frozen (w_conns w' old)"
proof -
  let ?c = "w_next w"
  let ?w = "w\<lparr>w_conns := (w_conns w)(w_next w := zeroConn n cf), w_next := Suc (w_next w)\<rparr>"
  have ne: "?c \<noteq> old" using old(1) by simp
  obtain ob v u where v: "c_reuseBuffer (w_conns w old) = Some ob" "c_out (w_conns w old) = Some v" "c_in (w_conns w old) = Some u"
    using s by (auto simp: streams_def sends_def receives_def)
  have wf': "wf_world ?w" using wf ne by (fastforce simp: wf_world_def zeroConn_def)
  obtain w1 b e nt where sp: "spawn old ?c ?w = (Ok True, w1)"
    "w_conns w1 = (w_conns ?w)(old := (w_conns ?w old)\<lparr>c_frozen := True, c_connErr := e\<rparr>, ?c := spawned (w_conns ?w old) u v b (w_conns ?w ?c))"
    "w_nets w1 = (w_nets ?w)(c_conn (w_conns ?w old) := nt)" "w_bufs w1 b = w_bufs ?w ob" "w_ciphers w1 = w_ciphers ?w"
    by (rule spawn_run [OF wf' ne, of ob u v]) (use v ne in simp_all)
  let ?w' = "w1\<lparr>w_conns := (w_conns w1)(?c := (w_conns w1 ?c)\<lparr>c_handshakes := c_handshakes (w_conns w1 old) + 1\<rparr>)\<rparr>"
  have "Client n (Some cf) w = (Ok ?c, ?w')"
    by (simp add: Client_def alloc_conn_def bindM_app cf(1) sp(1) conn_of_eq upd_conn_eq monad_simps)
  moreover have "streams ?w' ?c k0 out inp k"
    using s v sp(4,5) ne
    by (auto simp: streams_def sends_def receives_def out_cipher_def in_cipher_def sp(2) spawned_def zeroConn_def)
  ultimately show thesis
    by (rule that) (use v ne old(2) cf(2) sp(3,4) in \<open>simp_all add: sp(2) spawned_def zeroConn_def net_of_def IsServerConn_def ring_cap_def\<close>)
qed

lemma Conn_Close_frozen:
  assumes "c_frozen (w_conns w c)"
  obtains ps where "Conn_Close c w = (Ok (), w\<lparr>w_pool := ps, w_conns := (w_conns w)(c := (w_conns w c)\<lparr>c_reuseBuffer := None\<rparr>)\<rparr>)"
proof (cases "c_reuseBuffer (w_conns w c)")
  case None
  then have "(w_conns w c)\<lparr>c_reuseBuffer := None\<rparr> = w_conns w c" by simp
  then show thesis using that [of "w_pool w"] assms None by (simp add: Conn_Close_def freeze_def monad_simps fun_upd_idem)
next
  case (Some b)
  then show thesis
    using that [of "if lb_Cap (w_bufs w b) \<noteq> w_ReuseBufferSize w then w_pool w else b # w_pool w"] assms
    by (auto simp: Conn_Close_def freeze_def monad_simps pool_put_def upd_conn_def)
qed

lemma set_deadline_upd_net: "set_deadline c d w = upd_net (c_conn (w_conns w c)) (\<lambda>y. y\<lparr>nc_deadline := d\<rparr>) w"
  by (simp add: set_deadline_def upd_net_def Let_def)

lemma Handshake_resumes:
  assumes s: "streams w c k0 out inp k" "\<not> c_handshaked (w_conns w c)" "\<not> IsServerConn (w_conns w c)" "c_connErr (w_conns w c) = None"
    and good: "nc_good (net_of w c)" and i: "c_id (w_conns w c) \<noteq> 0"
    and ks: "ks \<le> length out" "ks < 2 ^ 32" "length out - ks \<le> ring_cap w c"
    and rx: "concat (nc_rx (net_of w c)) = frame (reuseConnResp_marshal \<lparr>rp_received = word_of_nat ks, rp_code = 200\<rparr>) @ rest"
  obtains w' where "Handshake ops c w = (Ok None, w')" "streams w' c k0 out inp k" "c_handshaked (w_conns w' c)"
    "c_connErr (w_conns w' c) = None" "nc_good (net_of w' c)" "concat (nc_rx (net_of w' c)) = rest"
proof -
  have once: "\<exists>v'. handshake_once ops c v = (Ok None, v') \<and> streams v' c k0 out inp k \<and> c_handshaked (w_conns v' c) \<and>
      c_connErr (w_conns v' c) = None \<and> nc_good (net_of v' c) \<and> concat (nc_rx (net_of v' c)) = rest"
    if v: "v = upd_net (c_conn (w_conns w c)) (\<lambda>y. y\<lparr>nc_deadline := d\<rparr>) w" for v d
  proof -
    have st: "streams v c k0 out inp k" and g: "nc_good (net_of v c)" and r: "nc_rx (net_of v c) = nc_rx (net_of w c)"
      using s(1) good by (simp_all add: v net_of_def nc_good_def)
    have c: "w_conns v c = w_conns w c" "ring_cap v c = ring_cap w c" by (simp_all add: v ring_cap_def upd_net_def cong: option.case_cong)
    obtain xs d' where z: "concat xs = rest" "clientHandshake c v = (Ok (), rx_on c xs
        (sent_on c (frame (reuseConnReq_marshal (reuse_request (w_conns v c))) @ drop ks (fst (XORKeyStream k0 out))) d' v))"
        (is "_ = (_, ?v)")
      by (rule clientReuse_accepts [of v c "fst (XORKeyStream k0 out)" k ks rest]) (use st g r c i ks rx in \<open>auto simp: streams_def\<close>)
    let ?v' = "?v\<lparr>w_conns := (w_conns ?v)(c := (setConnErr None (w_conns ?v c))\<lparr>c_handshaked := True\<rparr>)\<rparr>"
    have "c_connErr (w_conns ?v c) = None" using c s(4) by (simp add: sent_on_def rx_on_def)
    moreover have "streams ?v c k0 out inp k" using st by simp
    then have "streams ?v' c k0 out inp k"
      by (auto simp: streams_def sends_def receives_def out_cipher_def in_cipher_def setConnErr_def)
    moreover have "nc_good (net_of ?v c)" "concat (nc_rx (net_of ?v c)) = rest" using g z(1) by simp_all
    ultimately show ?thesis using c s(2,3) z(2) by (simp add: handshake_once_def monad_simps setConnErr_def net_of_def)
  qed
  show thesis
  proof (cases "0 < w_HandshakeTimeout w")
    case True
    obtain v' where v': "handshake_once ops c (set_deadline c (Some (w_now w + w_HandshakeTimeout w)) w) = (Ok None, v')"
      "streams v' c k0 out inp k" "c_handshaked (w_conns v' c)" "c_connErr (w_conns v' c) = None" "nc_good (net_of v' c)"
      "concat (nc_rx (net_of v' c)) = rest" using once by (metis set_deadline_upd_net)
    then show thesis using True
      by (intro that [of "set_deadline c None v'"]) (simp_all add: Handshake_def set_deadline_upd_net net_of_def nc_good_def)
  next
    case False
    have "w = upd_net (c_conn (w_conns w c)) (\<lambda>y. y\<lparr>nc_deadline := nc_deadline (net_of w c)\<rparr>) w"
      by (simp add: upd_net_def net_of_def fun_upd_idem)
    from once [OF this] show thesis using that False by (auto simp: Handshake_def)
  qed
qed

text \<open>The packet is read in as many reads as it takes.\<close>

lemma read_full_arrived:
  assumes "Handshake ops c w = (Ok None, w1)" "streams w1 c k0 out inp k" "c_handshaked (w_conns w1 c)" "c_connErr (w_conns w1 c) = None"
    "\<not> nc_closed (net_of w1 c)" "nc_rx (net_of w1 c) = ps" "concat ps @ later = drop k (fst (XORKeyStream k0 inp))"
    "length got < m" "m - length got \<le> length (concat ps)"
  shows "\<exists>w'. read_full ops c m got w = Some (Ok (got @ take (m - length got) (drop k inp)), w') \<and>
    streams w' c k0 out inp (k + (m - length got))"
  using assms
proof (induction ps arbitrary: w w1 got k)
  case (Cons x xs)
  let ?n = "m - length got" and ?l = "min (m - length got) (length x)"
  have w: "concat (nc_rx (net_of w1 c)) @ later = drop k (fst (XORKeyStream k0 inp))" using Cons.prems(6,7) by simp
  have "0 < ?n" using Cons.prems(8) by simp
  from Conn_Read_after [OF Cons.prems(1,2,6,5) this w] obtain w2 where w2:
    "Conn_Read ops c ?n w = (Ok (take ?l (drop k inp), None), w2)"
    "streams w2 c k0 out inp (k + ?l)" "same_shell c w1 w2" "nc_rx (net_of w2 c) = (if ?n < length x then drop ?n x # xs else xs)"
    "\<not> nc_closed (net_of w2 c)" "concat (nc_rx (net_of w2 c)) @ later = drop (k + ?l) (fst (XORKeyStream k0 inp))" by blast
  let ?g = "got @ take ?l (drop k inp)"
  have "k + ?l \<le> length inp" using w2(2) by (simp add: streams_def)
  then have lg: "length ?g = length got + ?l" by simp
  have step: "read_full ops c m got w = read_full ops c m ?g w2" using Cons.prems(8) w2(1) by (simp add: read_full.simps [of ops c m got w])
  show ?case
  proof (cases "?n \<le> length x")
    case True
    then have l: "?l = ?n" by simp
    then have "m \<le> length ?g" using lg Cons.prems(8) by linarith
    then have "read_full ops c m ?g w2 = Some (Ok ?g, w2)" unfolding read_full.simps [of ops c m ?g w2] by (rule if_P)
    then show ?thesis using step w2(2) unfolding l by simp
  next
    case False
    then have l: "?l = length x" by simp
    have h: "c_handshaked (w_conns w2 c)" "c_connErr (w_conns w2 c) = None" using w2(3) Cons.prems(3,4) by (simp_all add: same_shell_def)
    then obtain d where d: "Handshake ops c w2 = (Ok None, upd_net (c_conn (w_conns w2 c)) (\<lambda>y. y\<lparr>nc_deadline := d\<rparr>) w2)"
      (is "_ = (_, ?w3)") using Handshake_done [OF h(1)] by metis
    have 3: "streams ?w3 c k0 out inp (k + ?l)" "c_handshaked (w_conns ?w3 c)" "c_connErr (w_conns ?w3 c) = None"
      "\<not> nc_closed (net_of ?w3 c)" "nc_rx (net_of ?w3 c) = xs" "concat xs @ later = drop (k + ?l) (fst (XORKeyStream k0 inp))"
      using w2 h False by (simp_all add: net_of_def)
    have n: "length ?g < m" "m - length ?g \<le> length (concat xs)" "m - length ?g = ?n - ?l"
      using Cons.prems(9) False Cons.prems(8) unfolding lg unfolding l by simp_all
    obtain w' where "read_full ops c m ?g w2 = Some (Ok (?g @ take (?n - ?l) (drop (k + ?l) inp)), w')" "streams w' c k0 out inp (k + ?l + (?n - ?l))"
      using Cons.IH [OF d 3 n(1,2)] unfolding n(3) by blast
    moreover have "take ?l (drop k inp) @ take (?n - ?l) (drop (k + ?l) inp) = take ?n (drop k inp)"
      using take_add [of "length x" "?n - length x" "drop k inp"] False unfolding l by (simp add: add.commute)
    moreover have "k + ?l + (?n - ?l) = k + ?n" by simp
    ultimately show ?thesis using step by (metis append.assoc)
  qed
qed simp

section \<open>The announcement is understood\<close>

lemma readRemoteAddressPacket_frame:
  assumes "\<not> nc_closed y" "concat (nc_rx y) = frame data @ rest" "length data < 65536"
    "sproto_Unpack dec data = Ok unpacked" "sproto_DecodePackage dec unpacked = Ok used" "used \<le> length unpacked"
    "sproto_DecodeAddr dec (drop used unpacked) = Ok addrs"
  obtains y' where "readRemoteAddressPacket dec y = (Ok addrs, y')" "concat (nc_rx y') = rest"
proof -
  have "2 \<le> length (concat (nc_rx y))" using assms(2) by (simp add: frame_def)
  then obtain y1 xs where y1: "nc_ReadFull 2 y = (Ok (take 2 (concat (nc_rx y))), y1)" "concat (nc_rx y1) = drop 2 (concat (nc_rx y))"
    "y1 = y\<lparr>nc_rx := xs\<rparr>" using nc_ReadFull_ok [OF assms(1)] by metis
  have sz: "unat (be_get16 (take 2 (concat (nc_rx y)))) = length data" unfolding assms(2) by (rule be_get16_frame [OF assms(3)])
  have d: "concat (nc_rx y1) = data @ rest" using y1(2) assms(2) by (simp add: frame_def be_put16_def)
  have "\<not> nc_closed y1" "length data \<le> length (concat (nc_rx y1))" using assms(1) y1(3) d by simp_all
  then obtain y2 where "nc_ReadFull (length data) y1 = (Ok (take (length data) (concat (nc_rx y1))), y2)"
    "concat (nc_rx y2) = drop (length data) (concat (nc_rx y1))" using nc_ReadFull_ok by metis
  then show thesis using that [of y2] y1(1) sz d assms(4-7) by (simp add: readRemoteAddressPacket_def monad_simps)
qed

text \<open>The header that is kept is the one of the type asked for.\<close>

definition header_ok :: "net_env \<Rightarrow> int \<Rightarrow> upstreams \<Rightarrow> bool" where
  "header_ok env optSproto u \<longleftrightarrow> u_packHeader u = None \<or> u_packHeader u = Some (sproto_Package env (word_of_int optSproto))"

lemma AfterConnected_sends:
  assumes "header_ok env sp u" "sp \<noteq> -1" "\<not> ForbidForwardIP (w_conns w remote)" "nc_good (w_nets w n)"
  shows "\<exists>u'. AfterConnected env ops sp True (TcpConn n) remote (w, u) = (Ok None,
      upd_net n (\<lambda>y. y\<lparr>nc_tx := nc_tx y @ frame (sproto_Pack env (sproto_Package env (word_of_int sp) @
        sproto_AnnounceAddr env (RemoteAddr env (c_conn (w_conns w remote))) (LocalAddr env (c_conn (w_conns w remote)))))\<rparr>) w, u') \<and>
      header_ok env sp u'"
  using assms
  by (auto simp: AfterConnected_def monad_simps sprotoHook_init_def header_ok_def upconn_Write_def Let_def nc_Write_def nc_good_def
      frame_def upd_net_def)

section \<open>Properties\<close>

text \<open>C32. Resuming in the middle of a test. A client writes a packet on a session, takes the session over on a new network connection,
  and reads the packet back there. When the new connection brings the server's acceptance and then, in whatever pieces, the
  stream from where the client had read to, and the server has not missed more than the ring buffer holds, \<open>testSCP\<close> returns the
  successor, which has sent and received everything including the packet, exactly when the bytes of the stream are those of the
  packet; otherwise it returns an error. It always returns.\<close>

theorem testSCP_resumes:
  fixes w :: "'srv world"
  assumes wf: "wf_world w" "oc < w_next w"
    and s: "streams w oc k0 out inp kc" "c_handshaked (w_conns w oc)" "c_connErr (w_conns w oc) = None" "c_id (w_conns w oc) \<noteq> 0"
    and new: "n \<noteq> c_conn (w_conns w oc)" "nc_good (w_nets w n)"
    and window: "ks \<le> length (out @ wbuf)" "ks < 2 ^ 32" "length (out @ wbuf) - ks \<le> ring_cap w oc"
    and rx: "concat (nc_rx (w_nets w n)) = frame (reuseConnResp_marshal \<lparr>rp_received = word_of_nat ks, rp_code = 200\<rparr>) @ cs"
    and wire: "cs @ later = drop kc (fst (XORKeyStream k0 inp))" "wbuf \<noteq> []" "length wbuf \<le> length cs"
  shows "\<exists>w'. testSCP_with ops oc n wbuf w =
      (Ok (if take (length wbuf) (drop kc inp) = wbuf then (Some (w_next w), None) else (None, Some (FmtErr ''testSCP''))), w') \<and>
    streams w' (w_next w) k0 (out @ wbuf) inp (kc + length wbuf)"
proof -
  let ?p = "take (length wbuf div 2) wbuf" and ?q = "drop (length wbuf div 2) wbuf" and ?c = "w_next w"
  let ?cf = "defaultConfig\<lparr>cf_ConnForReused := Some oc\<rparr>"
  obtain e1 w1 where w1: "Conn_Write ops oc ?p w = (Ok (length ?p, e1), w1)" "streams w1 oc k0 (out @ ?p) inp kc" "same_shell oc w w1" "wf_world w1"
    "w_next w1 = w_next w" "ring_cap w1 oc = ring_cap w oc" "c_id (w_conns w1 oc) = c_id (w_conns w oc)" by (rule Conn_Write_frame [OF wf(1) s(1-3)])
  have 1: "c_handshaked (w_conns w1 oc)" "c_connErr (w_conns w1 oc) = None" using w1(3) s by (simp_all add: same_shell_def)
  obtain e2 w2 where w2: "Conn_Write ops oc ?q w1 = (Ok (length ?q, e2), w2)" "streams w2 oc k0 ((out @ ?p) @ ?q) inp kc" "same_shell oc w1 w2" "wf_world w2"
    "w_next w2 = w_next w1" "ring_cap w2 oc = ring_cap w1 oc" "c_id (w_conns w2 oc) = c_id (w_conns w1 oc)"
    by (rule Conn_Write_frame [OF w1(4,2) 1])
  have st: "streams w2 oc k0 (out @ wbuf) inp kc" using w2(2) by simp
  have sh: "same_shell oc w w2" using same_shell_trans [OF w1(3) w2(3)] .
  then have n: "n \<noteq> c_conn (w_conns w2 oc)" "w_nets w2 n = w_nets w n" using new(1) by (simp_all add: same_shell_def)
  have nx: "w_next w2 = ?c" using w1(5) w2(5) by simp
  obtain w3 where "Client n (Some ?cf) w2 = (Ok (w_next w2), w3)" "streams w3 (w_next w2) k0 (out @ wbuf) inp kc"
    "net_of w3 (w_next w2) = w_nets w2 n" "c_id (w_conns w3 (w_next w2)) = c_id (w_conns w2 oc)"
    "\<not> c_handshaked (w_conns w3 (w_next w2))" "\<not> IsServerConn (w_conns w3 (w_next w2))" "c_connErr (w_conns w3 (w_next w2)) = None"
    "ring_cap w3 (w_next w2) = ring_cap w2 oc" "c_frozen (w_conns w3 oc)"
    by (rule Client_takes_over [OF w2(4) st _ n(1), of ?cf]) (use wf(2) nx in \<open>simp_all add: defaultConfig_def\<close>)
  note w3 = this [unfolded nx]
  obtain ps where cl: "Conn_Close oc w3 = (Ok (), w3\<lparr>w_pool := ps, w_conns := (w_conns w3)(oc := (w_conns w3 oc)\<lparr>c_reuseBuffer := None\<rparr>)\<rparr>)"
    (is "_ = (_, ?w4)") by (rule Conn_Close_frozen [OF w3(9)])
  have ne: "?c \<noteq> oc" using wf(2) by simp
  have cc: "w_conns ?w4 ?c = w_conns w3 ?c" using ne by simp
  have 4: "streams ?w4 ?c k0 (out @ wbuf) inp kc" "net_of ?w4 ?c = w_nets w n" "ring_cap ?w4 ?c = ring_cap w oc"
    using w3(2,3,8) n(2) w1(6) w2(6) ne
    by (simp_all add: streams_def sends_def receives_def out_cipher_def in_cipher_def net_of_def ring_cap_def cong: option.case_cong)
  obtain w5 where w5: "Handshake ops ?c ?w4 = (Ok None, w5)" "streams w5 ?c k0 (out @ wbuf) inp kc" "c_handshaked (w_conns w5 ?c)"
    "c_connErr (w_conns w5 ?c) = None" "nc_good (net_of w5 ?c)" "concat (nc_rx (net_of w5 ?c)) = cs"
    by (rule Handshake_resumes [OF 4(1), of ks cs ops]) (use 4 cc w3(4-7) s(4) w1(7) w2(7) new(2) window rx in simp_all)
  have "\<not> nc_closed (net_of w5 ?c)" using w5(5) by (simp add: nc_good_def)
  from read_full_arrived [OF w5(1-4) this refl, of later "[]" "length wbuf"] obtain w6 where
    "read_full ops ?c (length wbuf) [] ?w4 = Some (Ok (take (length wbuf) (drop kc inp)), w6)" "streams w6 ?c k0 (out @ wbuf) inp (kc + length wbuf)"
    using w5(6) wire by auto
  then show ?thesis
    using w1(1) w2(1) w3(1) cl by (auto simp: testSCP_with_def ReadFull_def Let_def monad_simps)
qed


text \<open>A message with the two lengths before the addresses, padded to a whole number of words.\<close>

definition ex_addr_env :: net_env where
  "ex_addr_env = ex_env\<lparr>sproto_Package := \<lambda>t. [ucast t], sproto_Pack := \<lambda>x. x @ replicate (8 - length x mod 8) 0,
     sproto_AnnounceAddr := \<lambda>r l. [word_of_nat (length r), word_of_nat (length l)] @ str_bytes (r @ l)\<rparr>"

definition ex_addr_dec :: sproto_dec where
  "ex_addr_dec = \<lparr>sproto_Unpack = Ok, sproto_DecodePackage = (\<lambda>_. Ok 1),
     sproto_DecodeAddr = (\<lambda>b. let n = unat (b ! 0); m = unat (b ! 1) in
       Ok (bytes_str (take n (drop 2 b)), bytes_str (take m (drop (n + 2) b))))\<rparr>"

lemma ex_addr_decodes: "sproto_DecodeAddr ex_addr_dec (sproto_AnnounceAddr ex_addr_env ''r'' ''l'' @ x) = Ok (''r'', ''l'')"
  by (simp add: ex_addr_dec_def ex_addr_env_def str_bytes_def bytes_str_def char_of_def bit_0)


text \<open>The client has sent one byte and read one of the two the peer has sent; the packet is one byte.\<close>

definition ex_resume :: "byte \<Rightarrow> unit world" where
  "ex_resume b = ex_world (rc4_NewCipher [9]) [1] [7, b] 1 0 [frame (reuseConnResp_marshal \<lparr>rp_received = 1, rp_code = 200\<rparr>),
     drop 1 (fst (XORKeyStream (rc4_NewCipher [9]) [7, b]))]"

theorem testSCP_resumes_witness:
  "\<exists>w'. testSCP_with ex_ops 0 1 [8] (ex_resume 8) = (Ok (Some 9, None), w') \<and> streams w' 9 (rc4_NewCipher [9]) [1, 8] [7, 8] 2"
proof -
  let ?cs = "drop 1 (fst (XORKeyStream (rc4_NewCipher [9]) [7, 8]))"
  have w: "wf_world (ex_resume 8)" "0 < w_next (ex_resume 8)" "streams (ex_resume 8) 0 (rc4_NewCipher [9]) [1] [7, 8] 1"
    "c_handshaked (w_conns (ex_resume 8) 0)" "c_connErr (w_conns (ex_resume 8) 0) = None" "c_id (w_conns (ex_resume 8) 0) \<noteq> 0"
    "1 \<noteq> c_conn (w_conns (ex_resume 8) 0)" "ring_cap (ex_resume 8) 0 = 1" "w_next (ex_resume 8) = 9"
    unfolding ex_resume_def by (simp_all del: XORKeyStream_Cons) (simp_all add: ex_world_def)
  have n: "w_nets (ex_resume 8) 1 = ex_net [frame (reuseConnResp_marshal \<lparr>rp_received = 1, rp_code = 200\<rparr>), ?cs]"
    by (simp add: ex_world_def ex_resume_def del: XORKeyStream_Cons)
  have g: "nc_good (w_nets (ex_resume 8) 1)" unfolding n by (simp add: ex_net_def nc_good_def)
  have rx: "concat (nc_rx (w_nets (ex_resume 8) 1)) = frame (reuseConnResp_marshal \<lparr>rp_received = word_of_nat 1, rp_code = 200\<rparr>) @ ?cs"
    unfolding n by (simp add: ex_net_def del: XORKeyStream_Cons)
  have "\<exists>w'. testSCP_with ex_ops 0 1 [8] (ex_resume 8) =
      (Ok (if take (length [8 :: byte]) (drop 1 [7, 8 :: byte]) = [8] then (Some (w_next (ex_resume 8)), None) else (None, Some (FmtErr ''testSCP''))), w') \<and>
    streams w' (w_next (ex_resume 8)) (rc4_NewCipher [9]) ([1] @ [8]) [7, 8] (1 + length [8 :: byte])"
    by (rule testSCP_resumes [where ks = 1 and later = "[]" and cs = ?cs, OF w(1-7) g _ _ _ rx]) (simp_all add: w(8) del: XORKeyStream_Cons)
  then show ?thesis by (simp add: w(9) numeral_2_eq_2)
qed

end
