(* ===== verification/Example_Terminal.thy ===== *)
theory Example_Terminal
  imports Example_Client
begin

text \<open>
  The terminal mode of the example client (\<open>-startEchoClient\<close> of \<open>examples/client/main.go\<close>): a goroutine copies what the connection receives to
  the standard output while \<open>main\<close> copies the standard input to the connection. \<open>copy_step\<close> is one call of \<open>Read\<close> or \<open>Write\<close> in the
  loop of \<open>io.Copy\<close>; \<open>term_step\<close> interleaves the two copies. The program ends when \<open>main\<close> returns, whatever the goroutine is doing then.
  The terminal (\<open>tty\<close>) gives its input in pieces and then an error, and may accept only so many bytes.
\<close>

section \<open>The program\<close>

record tty =
  tty_in :: "byte list list"
  tty_in_err :: goerr
  tty_out :: "byte list"
  tty_room :: "nat option"
  tty_out_err :: goerr

definition Stdin_Read :: "nat \<Rightarrow> (tty, byte list \<times> goerr option) M" where
  "Stdin_Read n t = (case tty_in t of
     [] \<Rightarrow> (Ok ([], Some (tty_in_err t)), t)
   | x # xs \<Rightarrow> (Ok (take n x, None), t\<lparr>tty_in := (if n < length x then drop n x # xs else xs)\<rparr>))"

definition Stdout_Write :: "byte list \<Rightarrow> (tty, nat \<times> goerr option) M" where
  "Stdout_Write p t = (case tty_room t of
     None \<Rightarrow> (Ok (length p, None), t\<lparr>tty_out := tty_out t @ p\<rparr>)
   | Some k \<Rightarrow>
       if length p \<le> k then (Ok (length p, None), t\<lparr>tty_out := tty_out t @ p, tty_room := Some (k - length p)\<rparr>)
       else (Ok (k, Some (tty_out_err t)), t\<lparr>tty_out := tty_out t @ take k p, tty_room := Some 0\<rparr>))"

text \<open>Where \<open>io.Copy\<close> is; its result is nil when the source ends with \<open>io.EOF\<close>.\<close>

datatype cpc = CRead | CWrite "byte list" "goerr option" | CEnd "goerr option"

definition copy_next :: "goerr option \<Rightarrow> cpc" where
  "copy_next er = (case er of None \<Rightarrow> CRead | Some e \<Rightarrow> CEnd (if e = ErrEOF then None else Some e))"

definition copy_step :: "(nat \<Rightarrow> ('s, byte list \<times> goerr option) M) \<Rightarrow> (byte list \<Rightarrow> ('s, nat \<times> goerr option) M) \<Rightarrow> cpc \<Rightarrow> ('s, cpc) M" where
  "copy_step rd wr p = (case p of
     CRead \<Rightarrow> bindM (rd 32768) (\<lambda>(q, er). retM (if 0 < length q then CWrite q er else copy_next er))
   | CWrite q er \<Rightarrow> bindM (wr q) (\<lambda>(nw, ew). retM (if ew \<noteq> None then CEnd ew else if length q \<noteq> nw then CEnd (Some ErrShortWrite) else copy_next er))
   | CEnd e \<Rightarrow> retM p)"

definition on_snd :: "('t, 'a) M \<Rightarrow> ('s \<times> 't, 'a) M" where
  "on_snd f = (\<lambda>(s, t). case f t of (r, t') \<Rightarrow> (r, s, t'))"

record 's term_sys =
  tr_s :: "'s \<times> tty"
  tr_out :: cpc
  tr_main :: cpc

definition copy_out :: "'s net_Conn \<Rightarrow> cpc \<Rightarrow> ('s \<times> tty, cpc) M" where
  "copy_out cn = copy_step (\<lambda>n. on_fst (cn_Read cn n)) (\<lambda>p. on_snd (Stdout_Write p))"

definition copy_in :: "'s net_Conn \<Rightarrow> cpc \<Rightarrow> ('s \<times> tty, cpc) M" where
  "copy_in cn = copy_step (\<lambda>n. on_snd (Stdin_Read n)) (\<lambda>p. on_fst (cn_Write cn p))"

definition term_start :: "'s \<Rightarrow> tty \<Rightarrow> 's term_sys" where
  "term_start s t = \<lparr>tr_s = (s, t), tr_out = CRead, tr_main = CRead\<rparr>"

inductive term_step :: "'s net_Conn \<Rightarrow> 's term_sys \<Rightarrow> 's term_sys \<Rightarrow> bool" for cn where
  Out: "(\<And>e. tr_main x \<noteq> CEnd e) \<Longrightarrow> copy_out cn (tr_out x) (tr_s x) = (Ok p', s') \<Longrightarrow> term_step cn x (x\<lparr>tr_s := s', tr_out := p'\<rparr>)"
| Main: "(\<And>e. tr_main x \<noteq> CEnd e) \<Longrightarrow> copy_in cn (tr_main x) (tr_s x) = (Ok p', s') \<Longrightarrow> term_step cn x (x\<lparr>tr_s := s', tr_main := p'\<rparr>)"

inductive_cases term_stepE: "term_step cn x x'"

text \<open>What \<open>main\<close> does before it copies: the connection, or the error it logs.\<close>

definition run_echo_client :: "client_cfg \<Rightarrow> client_io \<Rightarrow> string \<Rightarrow> ('srv world, goerr + nat) M" where
  "run_echo_client cc io targetServer = (case Dial cc io 0 of
     Inl err \<Rightarrow> retM (Inl err)
   | Inr x \<Rightarrow> bindM (alloc_net x) (\<lambda>conn. bindM (Client conn (Some (defaultConfig\<lparr>cf_TargetServer := targetServer\<rparr>))) (\<lambda>scon. retM (Inr scon))))"

text \<open>The connection it copies on is a new one on the socket dialled, which asks for the target and has not shaken hands yet.\<close>

lemma run_echo_client_dials:
  assumes "Dial cc io 0 = Inr x"
  shows "\<exists>c w'. run_echo_client cc io target w = (Ok (Inr c), w') \<and> net_of w' c = x \<and> \<not> c_handshaked (w_conns w' c) \<and>
    cf_TargetServer (c_config (w_conns w' c)) = target"
  using assms by (simp add: run_echo_client_def alloc_net_def Client_def alloc_conn_def zeroConn_def defaultConfig_def net_of_def Let_def monad_simps)

section \<open>What has been copied\<close>

text \<open>One copy: \<open>i0\<close> was to be read, \<open>out\<close> has been written and \<open>i\<close> is still to be read. What is in between is the piece in the hands of
  the loop, or what the write that failed did not take; none of it is left when the loop returns nil.\<close>

definition copied :: "cpc \<Rightarrow> byte list \<Rightarrow> byte list \<Rightarrow> byte list \<Rightarrow> bool" where
  "copied p i0 out i \<longleftrightarrow> (\<exists>mid. i0 = out @ mid @ i \<and> length mid \<le> 32768 \<and>
     (case p of CRead \<Rightarrow> mid = [] | CWrite q er \<Rightarrow> mid = q | CEnd e \<Rightarrow> e = None \<longrightarrow> mid = []))"

lemma copiedE:
  assumes "copied p i0 out i"
  obtains mid where "i0 = out @ mid @ i" "length mid \<le> 32768" "p = CEnd None \<Longrightarrow> mid = []"
proof -
  obtain mid where m: "i0 = out @ mid @ i" "length mid \<le> 32768"
    "case p of CRead \<Rightarrow> mid = [] | CWrite q er \<Rightarrow> mid = q | CEnd e \<Rightarrow> e = None \<longrightarrow> mid = []" using assms unfolding copied_def by blast
  show thesis by (rule that [OF m(1,2)]) (use m(3) in simp)
qed

text \<open>A step of a loop, given what its two calls do: \<open>R s i out\<close> relates the state to what is to be read and what was written.\<close>

lemma copy_step_copied:
  assumes st: "copy_step rd wr p s = (Ok p', s')" and ok: "copied p i0 out i" "R s i out"
    and rd: "\<And>q e s'. rd 32768 s = (Ok (q, e), s') \<Longrightarrow> \<exists>i'. i = q @ i' \<and> length q \<le> 32768 \<and> R s' i' out"
    and wr: "\<And>b k e s'. wr b s = (Ok (k, e), s') \<Longrightarrow> \<exists>j. j \<le> length b \<and> (e = None \<longrightarrow> k = length b \<longrightarrow> j = length b) \<and> R s' i (out @ take j b)"
  shows "\<exists>i' out'. copied p' i0 out' i' \<and> R s' i' out'"
proof (cases p)
  case CRead
  then obtain q e where q: "rd 32768 s = (Ok (q, e), s')" "p' = (if 0 < length q then CWrite q e else copy_next e)"
    using st by (auto simp: copy_step_def bindM_eq_Ok prim_simps)
  from rd [OF q(1)] obtain i' where i': "i = q @ i'" "length q \<le> 32768" "R s' i' out" by blast
  have "copied p' i0 out i'" using ok(1) i'(1,2) CRead q(2) by (auto simp: copied_def copy_next_def split: option.split)
  with i'(3) show ?thesis by blast
next
  case (CWrite q er)
  then obtain k e where k: "wr q s = (Ok (k, e), s')"
    "p' = (if e \<noteq> None then CEnd e else if length q \<noteq> k then CEnd (Some ErrShortWrite) else copy_next er)"
    using st by (auto simp: copy_step_def bindM_eq_Ok prim_simps)
  from wr [OF k(1)] obtain j where j: "j \<le> length q" "e = None \<longrightarrow> k = length q \<longrightarrow> j = length q" "R s' i (out @ take j q)" by blast
  have "i0 = (out @ take j q) @ drop j q @ i" "length q \<le> 32768" using ok(1) CWrite by (auto simp: copied_def)
  then have "copied p' i0 (out @ take j q) i"
    unfolding copied_def using k(2) j(1,2) by (intro exI [of _ "drop j q"]) (auto simp: copy_next_def split: option.split)
  with j(3) show ?thesis by blast
next
  case (CEnd e)
  then show ?thesis using st ok by (auto simp: copy_step_def prim_simps)
qed

lemma Stdin_Read_takes:
  "Stdin_Read n t = (Ok (q, e), t') \<Longrightarrow> concat (tty_in t) = q @ concat (tty_in t') \<and> length q \<le> n \<and> tty_out t' = tty_out t \<and> (e \<noteq> None \<longrightarrow> tty_in t' = [] \<and> q = [])"
  by (auto simp: Stdin_Read_def split: list.splits if_splits)

lemma Stdout_Write_puts:
  "Stdout_Write p t = (Ok (k, e), t') \<Longrightarrow> k \<le> length p \<and> tty_out t' = tty_out t @ take k p \<and> tty_in t' = tty_in t \<and> (e = None \<longrightarrow> k = length p)"
  by (auto simp: Stdout_Write_def split: option.splits if_splits)

lemma on_fst_Ok: "on_fst f x = (Ok r, x') \<longleftrightarrow> f (fst x) = (Ok r, fst x') \<and> snd x' = snd x"
  by (cases x; cases x') (auto simp: on_fst_def split: prod.splits)

lemma on_snd_Ok: "on_snd f x = (Ok r, x') \<longleftrightarrow> f (snd x) = (Ok r, snd x') \<and> fst x' = fst x"
  by (cases x; cases x') (auto simp: on_snd_def split: prod.splits)

text \<open>The copy of the input returns nil only at the end of the input.\<close>

definition at_eof :: "cpc \<Rightarrow> tty \<Rightarrow> bool" where
  "at_eof p t \<longleftrightarrow> (case p of CRead \<Rightarrow> True | CWrite q er \<Rightarrow> er = None | CEnd e \<Rightarrow> e = None \<longrightarrow> tty_in t = [])"

lemma at_eof_tty: "tty_in t' = tty_in t \<Longrightarrow> at_eof p t' = at_eof p t"
  by (simp add: at_eof_def split: cpc.split)

lemma copy_in_eof:
  assumes "copy_in cn p s = (Ok p', s')" "at_eof p (snd s)"
  shows "at_eof p' (snd s')"
proof (cases p)
  case CRead
  then obtain q e where "Stdin_Read 32768 (snd s) = (Ok (q, e), snd s')" "p' = (if 0 < length q then CWrite q e else copy_next e)"
    using assms(1) by (auto simp: copy_in_def copy_step_def bindM_eq_Ok prim_simps on_snd_Ok)
  then show ?thesis using Stdin_Read_takes by (fastforce simp: at_eof_def copy_next_def split: option.split)
next
  case (CWrite q er)
  then have "er = None" using assms(2) by (simp add: at_eof_def)
  then show ?thesis using assms(1) CWrite by (auto simp: copy_in_def copy_step_def bindM_eq_Ok prim_simps at_eof_def copy_next_def)
qed (use assms in \<open>auto simp: copy_in_def copy_step_def prim_simps\<close>)

lemma copy_out_tty:
  assumes "copy_out cn p s = (Ok p', s')"
  shows "tty_in (snd s') = tty_in (snd s)"
  using assms by (cases p) (auto simp: copy_out_def copy_step_def bindM_eq_Ok prim_simps on_fst_Ok on_snd_Ok dest!: Stdout_Write_puts)

definition both_copied :: "('s \<Rightarrow> byte list \<Rightarrow> byte list \<Rightarrow> bool) \<Rightarrow> byte list \<Rightarrow> byte list \<Rightarrow> tty \<Rightarrow> 's term_sys \<Rightarrow> bool" where
  "both_copied R inp out t x \<longleftrightarrow> at_eof (tr_main x) (snd (tr_s x)) \<and> (\<exists>rest printed sent. R (fst (tr_s x)) rest (out @ sent) \<and>
     tty_out (snd (tr_s x)) = tty_out t @ printed \<and> copied (tr_out x) inp printed rest \<and>
     copied (tr_main x) (concat (tty_in t)) sent (concat (tty_in (snd (tr_s x)))))"

context byte_conn
begin

lemma out_copies:
  assumes "both_copied rel inp out t x" "copy_out cn (tr_out x) (tr_s x) = (Ok p', s')"
  shows "both_copied rel inp out t (x\<lparr>tr_s := s', tr_out := p'\<rparr>)"
proof -
  obtain rest printed sent where ok: "rel (fst (tr_s x)) rest (out @ sent)" "tty_out (snd (tr_s x)) = tty_out t @ printed"
    "copied (tr_out x) inp printed rest" "copied (tr_main x) (concat (tty_in t)) sent (concat (tty_in (snd (tr_s x))))"
    using assms(1) by (auto simp: both_copied_def)
  let ?R = "\<lambda>s i o'. rel (fst s) i (out @ sent) \<and> tty_out (snd s) = tty_out t @ o'"
  have "\<exists>i' o'. copied p' inp o' i' \<and> ?R s' i' o'"
  proof (rule copy_step_copied [OF assms(2) [unfolded copy_out_def] ok(3)])
    fix q e s' assume "on_fst (cn_Read cn 32768) (tr_s x) = (Ok (q, e), s')"
    then show "\<exists>i'. rest = q @ i' \<and> length q \<le> 32768 \<and> ?R s' i' printed"
      using Read [OF ok(1), of 32768] ok(2) by (auto simp: on_fst_Ok)
  next
    fix b k e s' assume "on_snd (Stdout_Write b) (tr_s x) = (Ok (k, e), s')"
    then have "Stdout_Write b (snd (tr_s x)) = (Ok (k, e), snd s')" "fst s' = fst (tr_s x)" by (simp_all add: on_snd_Ok)
    then show "\<exists>j. j \<le> length b \<and> (e = None \<longrightarrow> k = length b \<longrightarrow> j = length b) \<and> ?R s' rest (printed @ take j b)"
      using Stdout_Write_puts ok(1,2) by (intro exI [of _ k]) fastforce
  qed (use ok(1,2) in simp)
  moreover have e: "tty_in (snd s') = tty_in (snd (tr_s x))" by (rule copy_out_tty [OF assms(2)])
  moreover have "at_eof (tr_main x) (snd s')" using assms(1) at_eof_tty [OF e] by (simp add: both_copied_def)
  ultimately show ?thesis using ok(4) unfolding both_copied_def by auto
qed

lemma main_copies:
  assumes "both_copied rel inp out t x" "copy_in cn (tr_main x) (tr_s x) = (Ok p', s')"
  shows "both_copied rel inp out t (x\<lparr>tr_s := s', tr_main := p'\<rparr>)"
proof -
  obtain rest printed sent where ok: "rel (fst (tr_s x)) rest (out @ sent)" "tty_out (snd (tr_s x)) = tty_out t @ printed"
    "copied (tr_out x) inp printed rest" "copied (tr_main x) (concat (tty_in t)) sent (concat (tty_in (snd (tr_s x))))"
    using assms(1) by (auto simp: both_copied_def)
  let ?R = "\<lambda>s i o'. rel (fst s) rest (out @ o') \<and> tty_out (snd s) = tty_out t @ printed \<and> concat (tty_in (snd s)) = i"
  have "\<exists>i' o'. copied p' (concat (tty_in t)) o' i' \<and> ?R s' i' o'"
  proof (rule copy_step_copied [OF assms(2) [unfolded copy_in_def] ok(4)])
    fix q e s' assume "on_snd (Stdin_Read 32768) (tr_s x) = (Ok (q, e), s')"
    then show "\<exists>i'. concat (tty_in (snd (tr_s x))) = q @ i' \<and> length q \<le> 32768 \<and> ?R s' i' sent"
      using ok(1,2) by (auto simp: on_snd_Ok dest!: Stdin_Read_takes)
  next
    fix b k e s' assume "on_fst (cn_Write cn b) (tr_s x) = (Ok (k, e), s')"
    then show "\<exists>j. j \<le> length b \<and> (e = None \<longrightarrow> k = length b \<longrightarrow> j = length b) \<and> ?R s' (concat (tty_in (snd (tr_s x)))) (sent @ take j b)"
      using Write [OF ok(1), of b] ok(2) by (intro exI [of _ "length b"]) (auto simp: on_fst_Ok)
  qed (use ok(1,2) in simp)
  then show ?thesis using copy_in_eof [OF assms(2)] assms(1) ok(3) unfolding both_copied_def by auto
qed

lemma terminal_run:
  assumes "(term_step cn)\<^sup>*\<^sup>* (term_start s t) x" "rel s inp out"
  shows "both_copied rel inp out t x"
  using assms(1)
proof (induction rule: rtranclp_induct)
  case base
  show ?case using assms(2) unfolding both_copied_def term_start_def at_eof_def copied_def
    by (auto intro!: exI [of _ inp] exI [of _ "[]"])
next
  case (step x x')
  show ?case by (rule term_stepE [OF step(2)]) (use out_copies [OF step(3)] main_copies [OF step(3)] in simp_all)
qed

end

section \<open>Properties\<close>



end
