(* ===== verification/Example_Bench.thy ===== *)
theory Example_Bench
  imports Upstream "HOL-Library.Signed_Division"
begin

text \<open>
  The load generator (\<open>examples/bench/main.go\<close>): a number of goroutines send requests at intervals and count how long the replies
  take; after every hundredth round a goroutine sends its \<open>Stat\<close> to \<open>main\<close>, which prints it.

  \<open>goroutine_step\<close> and \<open>printer_step\<close> go from one control point to the next; \<open>None\<close> means blocked. \<open>bstep\<close> interleaves them; what the
  network and the clock do in a round is the record \<open>tick\<close>. A \<open>Stat\<close> is copied when it is sent, but its field \<open>percent\<close> is a slice: the
  copies share one array, here \<open>bs_percent\<close> at the address \<open>st_percent\<close>. Go's \<open>float32\<close> rate of slow rounds is left out of the printed line.
\<close>

section \<open>Dialling\<close>

record kcp_opts =
  kcpSndWnd :: int
  kcpRcvWnd :: int
  kcpNodelay :: int
  kcpInterval :: int
  kcpResend :: int
  kcpNc :: int
  kcpFecData :: int
  kcpFecParity :: int

datatype kcp_call = SetNoDelay int int int int | SetWindowSize int int

text \<open>What the network answers; a connection over KCP with the calls made on it.\<close>

record bench_io =
  bi_Dial :: "string \<Rightarrow> string \<Rightarrow> goerr + netconn"
  bi_DialWithOptions :: "string \<Rightarrow> int \<Rightarrow> int \<Rightarrow> goerr + netconn"

definition dialWithOptions :: "kcp_opts \<Rightarrow> bench_io \<Rightarrow> string \<Rightarrow> string \<Rightarrow> goerr + netconn \<times> kcp_call list" where
  "dialWithOptions ko io network connect =
     (if network = ''tcp'' then map_sum id (\<lambda>c. (c, [])) (bi_Dial io network connect)
      else case bi_DialWithOptions io connect (kcpFecData ko) (kcpFecParity ko) of
        Inl err \<Rightarrow> Inl err
      | Inr conn \<Rightarrow> Inr (conn, [SetNoDelay (kcpNodelay ko) (kcpInterval ko) (kcpResend ko) (kcpNc ko),
          SetWindowSize (kcpSndWnd ko) (kcpRcvWnd ko)]))"

definition dialScon :: "kcp_opts \<Rightarrow> bench_io \<Rightarrow> string \<Rightarrow> string \<Rightarrow> string \<Rightarrow> ('srv world, nat) M" where
  "dialScon ko io network connect targetServer =
     (case dialWithOptions ko io network connect of
        Inl err \<Rightarrow> failM err
      | Inr (conn, _) \<Rightarrow> bindM (alloc_net conn) (\<lambda>n. Client n (Some (defaultConfig\<lparr>cf_TargetServer := targetServer\<rparr>))))"

section \<open>A round\<close>

record Stat =
  st_conn :: nat
  st_slow :: int
  st_round :: int
  st_percent :: nat

record bench_opts =
  statGap :: int
  statLevel :: int
  benchPayload :: int

text \<open>Durations are 64-bit numbers of nanoseconds.\<close>

definition Duration :: "int \<Rightarrow> int" where
  "Duration n = (n + 2 ^ 63) mod 2 ^ 64 - 2 ^ 63"

definition time_Millisecond :: int where
  "time_Millisecond = 1000000"

definition bench_count :: "bench_opts \<Rightarrow> int \<Rightarrow> Stat \<times> int list \<Rightarrow> (Stat \<times> int list) res" where
  "bench_count bo elapsed = (\<lambda>(stat, percent).
     let stat = stat\<lparr>st_round := st_round stat + 1\<rparr>;
         stat = (if elapsed > 10 * time_Millisecond then stat\<lparr>st_slow := st_slow stat + 1\<rparr> else stat);
         gap = Duration (statGap bo * time_Millisecond)
     in if gap = 0 then Panic ''integer divide by zero''
        else let idx = elapsed sdiv gap;
                 j = (if idx < statLevel bo then idx else statLevel bo)
             in if 0 \<le> j \<and> j < int (length percent) then Ok (stat, percent[nat j := percent ! nat j + 1])
                else Panic ''index out of range'')"

record tick =
  tk_write :: "goerr option"
  tk_resp :: "goerr + int"
  tk_elapsed :: int

datatype bench_pc = PDial | PTick | PSend | PDone

datatype print_pc = Ranging | Printing Stat nat

datatype bench_line =
    Result nat
  | Rounds int int
  | Distribution
  | Bound int int int
  | BoundInf int int

datatype bench_end = Running | Fatal goerr | Crashed string

record bench_sys =
  bs_pc :: "nat \<Rightarrow> bench_pc"
  bs_stat :: "nat \<Rightarrow> Stat"
  bs_percent :: "nat \<Rightarrow> int list"
  bs_ch :: "Stat list"
  bs_main :: print_pc
  bs_lines :: "bench_line list"
  bs_end :: bench_end

text \<open>One goroutine, number \<open>i\<close> (from 0; it counts as connection \<open>i + 1\<close>): \<open>dial\<close> and \<open>req\<close> are the errors of \<open>dialScon\<close> and \<open>http.NewRequest\<close>.\<close>

definition goroutine_step :: "bench_opts \<Rightarrow> nat \<Rightarrow> goerr option \<Rightarrow> goerr option \<Rightarrow> tick \<Rightarrow> nat \<Rightarrow> bench_sys \<Rightarrow> bench_sys option" where
  "goroutine_step bo connections dial req tk i s = (case bs_pc s i of
     PDial \<Rightarrow>
       (case dial of Some err \<Rightarrow> Some (s\<lparr>bs_end := Fatal err\<rparr>) | None \<Rightarrow>
        if benchPayload bo < 0 then Some (s\<lparr>bs_end := Crashed ''strings: negative Repeat count''\<rparr>) else
        case req of Some err \<Rightarrow> Some (s\<lparr>bs_end := Crashed ''http.NewRequest''\<rparr>) | None \<Rightarrow>
        if statLevel bo + 1 < 0 then Some (s\<lparr>bs_end := Crashed ''makeslice: len out of range''\<rparr>)
        else Some (s\<lparr>bs_stat := (bs_stat s)(i := \<lparr>st_conn = i + 1, st_slow = 0, st_round = 0, st_percent = i\<rparr>),
               bs_percent := (bs_percent s)(i := replicate (nat (statLevel bo + 1)) 0), bs_pc := (bs_pc s)(i := PTick)\<rparr>))
   | PTick \<Rightarrow>
       if tk_write tk \<noteq> None then Some (s\<lparr>bs_pc := (bs_pc s)(i := PDone)\<rparr>)
       else (case tk_resp tk of
          Inl err \<Rightarrow> Some (s\<lparr>bs_pc := (bs_pc s)(i := PDone)\<rparr>)
        | Inr code \<Rightarrow>
            if code \<noteq> 200 then Some (s\<lparr>bs_pc := (bs_pc s)(i := PDone)\<rparr>)
            else (case bench_count bo (tk_elapsed tk) (bs_stat s i, bs_percent s (st_percent (bs_stat s i))) of
               Ok (stat, percent) \<Rightarrow> Some (s\<lparr>bs_stat := (bs_stat s)(i := stat), bs_percent := (bs_percent s)(st_percent stat := percent),
                 bs_pc := (bs_pc s)(i := if st_round stat mod 100 = 0 then PSend else PTick)\<rparr>)
             | _ \<Rightarrow> Some (s\<lparr>bs_end := Crashed ''bench''\<rparr>)))
   | PSend \<Rightarrow>
       if length (bs_ch s) < 4 * connections
       then Some (s\<lparr>bs_ch := bs_ch s @ [bs_stat s i], bs_pc := (bs_pc s)(i := PTick)\<rparr>) else None
   | PDone \<Rightarrow> None)"

text \<open>The loop of \<open>main\<close> over the channel, a line at a time.\<close>

definition printer_step :: "bench_opts \<Rightarrow> bench_sys \<Rightarrow> bench_sys option" where
  "printer_step bo s = (case bs_main s of
     Ranging \<Rightarrow>
       (case bs_ch s of
          [] \<Rightarrow> None
        | stat # ch \<Rightarrow> Some (s\<lparr>bs_ch := ch, bs_main := Printing stat 0,
            bs_lines := bs_lines s @ [Result (st_conn stat), Rounds (st_slow stat) (st_round stat), Distribution]\<rparr>))
   | Printing stat i \<Rightarrow>
       let percent = bs_percent s (st_percent stat) in
       if int i < statLevel bo then
         if i < length percent
         then Some (s\<lparr>bs_main := Printing stat (Suc i),
           bs_lines := bs_lines s @ [Bound (int i * statGap bo) ((int i + 1) * statGap bo) (percent ! i)]\<rparr>)
         else Some (s\<lparr>bs_end := Crashed ''index out of range''\<rparr>)
       else if 0 \<le> statLevel bo \<and> statLevel bo < int (length percent)
         then Some (s\<lparr>bs_main := Ranging, bs_lines := bs_lines s @ [BoundInf (statLevel bo * statGap bo) (percent ! nat (statLevel bo))]\<rparr>)
         else Some (s\<lparr>bs_end := Crashed ''index out of range''\<rparr>))"

text \<open>\<open>time.Now().Sub(start)\<close> reads the monotonic clock: it is not negative.\<close>

inductive bstep :: "bench_opts \<Rightarrow> nat \<Rightarrow> goerr option \<Rightarrow> bench_sys \<Rightarrow> bench_sys \<Rightarrow> bool" for bo connections req where
  Goroutine: "bs_end s = Running \<Longrightarrow> i < connections \<Longrightarrow> 0 \<le> tk_elapsed tk \<Longrightarrow>
    goroutine_step bo connections dial req tk i s = Some s' \<Longrightarrow> bstep bo connections req s s'"
| Printer: "bs_end s = Running \<Longrightarrow> printer_step bo s = Some s' \<Longrightarrow> bstep bo connections req s s'"

definition bench_start :: bench_sys where
  "bench_start = \<lparr>bs_pc = (\<lambda>_. PDial), bs_stat = (\<lambda>i. \<lparr>st_conn = 0, st_slow = 0, st_round = 0, st_percent = i\<rparr>), bs_percent = (\<lambda>_. []),
     bs_ch = [], bs_main = Ranging, bs_lines = [], bs_end = Running\<rparr>"

section \<open>main\<close>

record bench_flags =
  bf_connections :: int
  bf_statGap :: int
  bf_statLevel :: int
  bf_payload :: int
  bf_args :: "string list"

text \<open>The network, the options and the number of goroutines.\<close>

definition bench_main :: "bench_flags \<Rightarrow> (string \<times> bench_opts \<times> nat) res" where
  "bench_main fl =
     (let network = (if 0 < length (bf_args fl) \<and> bf_args fl ! 0 = ''kcp'' then ''kcp'' else ''tcp'');
          level = (if bf_statLevel fl < 1 then 1 else bf_statLevel fl);
          gap = (if bf_statGap fl < 1 then 1 else bf_statGap fl)
      in if 4 * bf_connections fl < 0 then Panic ''makechan: size out of range''
         else Ok (network, \<lparr>statGap = gap, statLevel = level, benchPayload = bf_payload fl\<rparr>, nat (bf_connections fl)))"

section \<open>The counts\<close>

text \<open>The rounds of a goroutine are those in its array, and the slow ones are among them.\<close>

definition counts_ok :: "bench_opts \<Rightarrow> Stat \<Rightarrow> int list \<Rightarrow> bool" where
  "counts_ok bo st percent \<longleftrightarrow> int (length percent) = statLevel bo + 1 \<and> (\<forall>x \<in> set percent. 0 \<le> x) \<and> sum_list percent = st_round st \<and>
     0 \<le> st_slow st \<and> st_slow st \<le> st_round st"

text \<open>What a copy of a \<open>Stat\<close> still says of the one it was made from.\<close>

definition report_ok :: "(nat \<Rightarrow> bench_pc) \<Rightarrow> (nat \<Rightarrow> Stat) \<Rightarrow> Stat \<Rightarrow> bool" where
  "report_ok pc stats st \<longleftrightarrow> pc (st_percent st) \<noteq> PDial \<and> st_conn st = st_percent st + 1 \<and> 100 dvd st_round st \<and> 0 < st_round st \<and>
     0 \<le> st_slow st \<and> st_slow st \<le> st_round st \<and> st_round st \<le> st_round (stats (st_percent st)) \<and> st_slow st \<le> st_slow (stats (st_percent st))"

definition reports :: "bench_sys \<Rightarrow> Stat set" where
  "reports s = set (bs_ch s) \<union> (case bs_main s of Ranging \<Rightarrow> {} | Printing st i \<Rightarrow> {st})"

definition bench_ok :: "bench_opts \<Rightarrow> nat \<Rightarrow> bench_sys \<Rightarrow> bool" where
  "bench_ok bo connections s \<longleftrightarrow>
     (\<forall>i. bs_pc s i \<noteq> PDial \<longrightarrow> counts_ok bo (bs_stat s i) (bs_percent s i) \<and> st_percent (bs_stat s i) = i \<and> st_conn (bs_stat s i) = i + 1) \<and>
     (\<forall>i. bs_pc s i = PSend \<longrightarrow> 100 dvd st_round (bs_stat s i) \<and> 0 < st_round (bs_stat s i)) \<and>
     (\<forall>st \<in> reports s. report_ok (bs_pc s) (bs_stat s) st) \<and> length (bs_ch s) \<le> 4 * connections \<and> (\<forall>m. bs_end s \<noteq> Crashed m)"

definition bench_opts_ok :: "bench_opts \<Rightarrow> bool" where
  "bench_opts_ok bo \<longleftrightarrow> 1 \<le> statLevel bo \<and> 1 \<le> statGap bo \<and> statGap bo * time_Millisecond < 2 ^ 63 \<and> 0 \<le> benchPayload bo"

lemma sum_list_incr: "k < length xs \<Longrightarrow> sum_list (xs[k := xs ! k + 1]) = sum_list xs + (1 :: int)"
  by (induction xs arbitrary: k) (auto split: nat.split)

lemma bench_count_ok:
  assumes bo: "bench_opts_ok bo" "0 \<le> elapsed" and c: "counts_ok bo st p"
  obtains st' p' where "bench_count bo elapsed (st, p) = Ok (st', p')" "counts_ok bo st' p'" "st_round st' = st_round st + 1"
    "st_slow st \<le> st_slow st'" "st_percent st' = st_percent st" "st_conn st' = st_conn st"
proof -
  let ?g = "statGap bo * time_Millisecond"
  have g: "Duration ?g = ?g" "0 < ?g" using bo(1) by (simp_all add: bench_opts_ok_def Duration_def time_Millisecond_def)
  let ?i = "elapsed sdiv ?g"
  have i: "0 \<le> ?i" using bo(2) g(2) by (simp add: signed_divide_int_def sgn_if pos_imp_zdiv_nonneg_iff)
  let ?j = "if ?i < statLevel bo then ?i else statLevel bo"
  have j: "0 \<le> ?j" "?j < int (length p)" using i bo(1) c by (auto simp: bench_opts_ok_def counts_ok_def)
  let ?st = "st\<lparr>st_round := st_round st + 1\<rparr>"
  let ?st' = "if elapsed > 10 * time_Millisecond then ?st\<lparr>st_slow := st_slow st + 1\<rparr> else ?st"
  let ?p = "p[nat ?j := p ! nat ?j + 1]"
  have run: "bench_count bo elapsed (st, p) = Ok (?st', ?p)"
    unfolding bench_count_def Let_def g(1) using g(2) j by (simp del: mult_eq_0_iff)
  have k: "nat ?j < length p" using j by linarith
  have "sum_list ?p = sum_list p + 1" by (rule sum_list_incr [OF k])
  moreover have "0 \<le> p ! nat ?j" using c k by (simp add: counts_ok_def)
  then have "\<forall>x \<in> set ?p. 0 \<le> x" using c set_update_subset_insert [of p "nat ?j" "p ! nat ?j + 1"] by (auto simp: counts_ok_def)
  ultimately have "counts_ok bo ?st' ?p" using c by (simp add: counts_ok_def)
  then show thesis by (rule that [OF run]) simp_all
qed

lemma reports_simps [simp]:
  "reports (s\<lparr>bs_pc := a\<rparr>) = reports s" "reports (s\<lparr>bs_stat := b\<rparr>) = reports s" "reports (s\<lparr>bs_percent := c\<rparr>) = reports s"
  "reports (s\<lparr>bs_end := d\<rparr>) = reports s" "reports (s\<lparr>bs_lines := e\<rparr>) = reports s" "reports (s\<lparr>bs_ch := bs_ch s @ [st]\<rparr>) = insert st (reports s)"
  by (auto simp: reports_def)

lemma report_ok_later:
  assumes "report_ok pc stats st" "pc (st_percent st) \<noteq> PDial \<Longrightarrow> pc' (st_percent st) \<noteq> PDial \<and>
    st_round (stats (st_percent st)) \<le> st_round (stats' (st_percent st)) \<and> st_slow (stats (st_percent st)) \<le> st_slow (stats' (st_percent st))"
  shows "report_ok pc' stats' st"
  using assms by (fastforce simp: report_ok_def)

lemma bench_ok_start: "bench_ok bo n bench_start"
  by (simp add: bench_ok_def bench_start_def reports_def)

lemma goroutine_step_ok:
  assumes ok: "bench_ok bo n s" "bench_opts_ok bo" and tk: "0 \<le> tk_elapsed tk"
    and st: "goroutine_step bo n dial None tk i s = Some s'"
  shows "bench_ok bo n s'"
proof (cases "bs_pc s i")
  case PDial
  have "counts_ok bo \<lparr>st_conn = i + 1, st_slow = 0, st_round = 0, st_percent = i\<rparr> (replicate (nat (statLevel bo + 1)) 0)"
    using ok(2) by (simp add: counts_ok_def bench_opts_ok_def sum_list_replicate)
  moreover have "report_ok ((bs_pc s)(i := PTick)) ((bs_stat s)(i := st')) st" if "st \<in> reports s" for st st'
    by (rule report_ok_later [of "bs_pc s" "bs_stat s"]) (use that ok(1) PDial in \<open>auto simp: bench_ok_def\<close>)
  ultimately show ?thesis using PDial st ok
    by (auto simp: goroutine_step_def bench_ok_def bench_opts_ok_def split: option.splits)
next
  case PTick
  then have i: "counts_ok bo (bs_stat s i) (bs_percent s i)" "st_percent (bs_stat s i) = i" "st_conn (bs_stat s i) = i + 1"
    using ok(1) by (simp_all add: bench_ok_def)
  obtain stat p where c: "bench_count bo (tk_elapsed tk) (bs_stat s i, bs_percent s i) = Ok (stat, p)" "counts_ok bo stat p"
    "st_round stat = st_round (bs_stat s i) + 1" "st_slow (bs_stat s i) \<le> st_slow stat" "st_percent stat = i" "st_conn stat = i + 1"
    using bench_count_ok [OF ok(2) tk i(1)] i by metis
  have "0 \<le> st_round (bs_stat s i)" using i(1) by (simp add: counts_ok_def)
  moreover have "report_ok ((bs_pc s)(i := q)) ((bs_stat s)(i := stat)) st" "report_ok ((bs_pc s)(i := q)) (bs_stat s) st"
    if "st \<in> reports s" "q \<noteq> PDial" for st q
    by (rule report_ok_later [of "bs_pc s" "bs_stat s"]; use that ok(1) c in \<open>auto simp: bench_ok_def\<close>)+
  ultimately show ?thesis
    using PTick st ok(1) i(2) c by (auto simp: goroutine_step_def bench_ok_def split: if_splits sum.splits)
next
  case PSend
  then have "counts_ok bo (bs_stat s i) (bs_percent s i)" "st_percent (bs_stat s i) = i" "st_conn (bs_stat s i) = i + 1"
    "100 dvd st_round (bs_stat s i)" "0 < st_round (bs_stat s i)" using ok(1) by (simp_all add: bench_ok_def)
  moreover from this have "report_ok ((bs_pc s)(i := PTick)) (bs_stat s) (bs_stat s i)" by (simp add: report_ok_def counts_ok_def)
  moreover have "report_ok ((bs_pc s)(i := PTick)) (bs_stat s) st" if "st \<in> reports s" for st
    by (rule report_ok_later [of "bs_pc s" "bs_stat s"]) (use that ok(1) in \<open>auto simp: bench_ok_def\<close>)
  ultimately show ?thesis
    using PSend st ok(1) by (auto simp: goroutine_step_def bench_ok_def split: if_splits)
next
  case PDone
  then show ?thesis using st by (simp add: goroutine_step_def)
qed

lemma printer_step_ok:
  assumes ok: "bench_ok bo n s" "bench_opts_ok bo" and st: "printer_step bo s = Some s'"
  shows "bench_ok bo n s'"
proof (cases "bs_main s")
  case Ranging
  then show ?thesis using ok st by (auto simp: printer_step_def bench_ok_def reports_def split: list.splits)
next
  case (Printing stat k)
  then have "report_ok (bs_pc s) (bs_stat s) stat" using ok(1) by (simp add: bench_ok_def reports_def)
  then have "int (length (bs_percent s (st_percent stat))) = statLevel bo + 1"
    using ok(1) by (simp add: bench_ok_def report_ok_def counts_ok_def)
  then show ?thesis using Printing ok st
    by (auto simp: printer_step_def bench_ok_def reports_def bench_opts_ok_def Let_def split: if_splits)
qed

lemma bench_reach_ok: "(bstep bo n None)\<^sup>*\<^sup>* bench_start s \<Longrightarrow> bench_opts_ok bo \<Longrightarrow> bench_ok bo n s"
proof (induction rule: rtranclp_induct)
  case base
  show ?case by (rule bench_ok_start)
next
  case (step s s')
  from step(2) step(3) [OF step(4)] step(4) show ?case
    by cases (auto intro: goroutine_step_ok printer_step_ok)
qed

section \<open>Properties\<close>

text \<open>C37. The statistics are consistent. However the goroutines and the printing interleave, and whatever the connections do, with the
  options as \<open>main\<close> leaves them (an interval below 292 years and a payload that is not negative) no index of the distribution is out of range and no division is by zero; the
  counts of a running connection sum to its number of rounds, of which the slow ones are a part; every report sent carries a number of
  rounds that is a positive multiple of 100 and not beyond that of its connection; and the channel never holds more than its capacity.\<close>

theorem bench_counts:
  assumes "bench_main fl = Ok (network, bo, n)" "statGap bo * time_Millisecond < 2 ^ 63" "0 \<le> benchPayload bo" "(bstep bo n None)\<^sup>*\<^sup>* bench_start s"
  shows "(\<forall>m. bs_end s \<noteq> Crashed m) \<and> length (bs_ch s) \<le> 4 * n \<and>
    (\<forall>i. bs_pc s i \<noteq> PDial \<longrightarrow> sum_list (bs_percent s i) = st_round (bs_stat s i) \<and>
       0 \<le> st_slow (bs_stat s i) \<and> st_slow (bs_stat s i) \<le> st_round (bs_stat s i)) \<and>
    (\<forall>st \<in> reports s. 100 dvd st_round st \<and> 0 < st_round st \<and> st_slow st \<le> st_round st \<and>
       st_round st \<le> sum_list (bs_percent s (st_percent st)))"
proof -
  have "bench_opts_ok bo" using assms(1-3) by (auto simp: bench_main_def bench_opts_ok_def Let_def split: if_splits)
  then have ok: "bench_ok bo n s" by (rule bench_reach_ok [OF assms(4)])
  then have c: "counts_ok bo (bs_stat s i) (bs_percent s i)" if "bs_pc s i \<noteq> PDial" for i using that by (simp add: bench_ok_def)
  have "st_round st \<le> sum_list (bs_percent s (st_percent st))" "100 dvd st_round st" "0 < st_round st" "st_slow st \<le> st_round st"
    if "st \<in> reports s" for st
  proof -
    have r: "report_ok (bs_pc s) (bs_stat s) st" using ok that by (simp add: bench_ok_def)
    then show "st_round st \<le> sum_list (bs_percent s (st_percent st))" using c [of "st_percent st"] by (simp add: report_ok_def counts_ok_def)
    show "100 dvd st_round st" "0 < st_round st" "st_slow st \<le> st_round st" using r by (simp_all add: report_ok_def)
  qed
  then show ?thesis using ok c by (auto simp: bench_ok_def counts_ok_def)
qed

section \<open>A report and its distribution\<close>

text \<open>Rounds of no time at all, from a round count that meets no multiple of 100 on the way.\<close>

definition at_round :: "int \<Rightarrow> bench_sys \<Rightarrow> bool" where
  "at_round k s \<longleftrightarrow> bs_end s = Running \<and> bs_stat s 0 = \<lparr>st_conn = 1, st_slow = 0, st_round = k, st_percent = 0\<rparr> \<and> bs_percent s 0 = [k, 0]"

definition ex_bench :: bench_opts where
  "ex_bench = \<lparr>statGap = 1, statLevel = 1, benchPayload = 0\<rparr>"

lemma round_step:
  assumes "at_round k s" "bs_pc s 0 = PTick"
  obtains s' where "bstep ex_bench 1 None s s'" "at_round (k + 1) s'" "bs_pc s' 0 = (if (k + 1) mod 100 = 0 then PSend else PTick)" "bs_ch s' = bs_ch s"
proof -
  let ?s = "s\<lparr>bs_stat := (bs_stat s)(0 := \<lparr>st_conn = 1, st_slow = 0, st_round = k + 1, st_percent = 0\<rparr>), bs_percent := (bs_percent s)(0 := [k + 1, 0]),
      bs_pc := (bs_pc s)(0 := if (k + 1) mod 100 = 0 then PSend else PTick)\<rparr>"
  have g: "goroutine_step ex_bench 1 None None \<lparr>tk_write = None, tk_resp = Inr 200, tk_elapsed = 0\<rparr> 0 s = Some ?s"
    using assms by (simp add: at_round_def goroutine_step_def bench_count_def ex_bench_def Duration_def time_Millisecond_def)
  have "bstep ex_bench 1 None s ?s" by (rule Goroutine [OF _ _ _ g]) (use assms(1) in \<open>simp_all add: at_round_def\<close>)
  then show thesis by (rule that) (use assms(1) in \<open>simp_all add: at_round_def\<close>)
qed

lemma rounds_run:
  assumes "at_round 0 s" "bs_pc s 0 = PTick" "m < 100"
  obtains s' where "(bstep ex_bench 1 None)\<^sup>*\<^sup>* s s'" "at_round (int m) s'" "bs_pc s' 0 = PTick" "bs_ch s' = bs_ch s"
  using assms(3)
proof (induction m arbitrary: thesis)
  case 0
  show ?case by (rule 0(1) [of s]) (use assms in simp_all)
next
  case (Suc m)
  obtain s1 where s1: "(bstep ex_bench 1 None)\<^sup>*\<^sup>* s s1" "at_round (int m) s1" "bs_pc s1 0 = PTick" "bs_ch s1 = bs_ch s"
    by (rule Suc.IH) (use Suc.prems(2) in simp_all)
  have m: "(int m + 1) mod 100 \<noteq> 0" using Suc.prems(2) by simp
  obtain s2 where "bstep ex_bench 1 None s1 s2" "at_round (int m + 1) s2" "bs_pc s2 0 = PTick" "bs_ch s2 = bs_ch s1"
    using round_step [OF s1(2,3)] m by metis
  with s1 show ?case by (intro Suc.prems(1) [of s2]) (auto simp: add.commute)
qed

text \<open>The report of the first hundred rounds, seen after one more round: the rounds it carries are 100, but the distribution printed with
  it has 101.\<close>

lemma report_distribution_lags:
  "\<exists>s. (bstep ex_bench 1 None)\<^sup>*\<^sup>* bench_start s \<and> (\<exists>st. bs_ch s = [st] \<and> st_round st = 100 \<and> sum_list (bs_percent s (st_percent st)) = 101)"
proof -
  let ?s = "bench_start\<lparr>bs_stat := (bs_stat bench_start)(0 := \<lparr>st_conn = 1, st_slow = 0, st_round = 0, st_percent = 0\<rparr>),
    bs_percent := (bs_percent bench_start)(0 := [0, 0]), bs_pc := (bs_pc bench_start)(0 := PTick)\<rparr>"
  have d: "bstep ex_bench 1 None bench_start ?s"
    by (rule Goroutine [of _ 0 _ "\<lparr>tk_write = None, tk_resp = Inr 200, tk_elapsed = 0\<rparr>" _ None])
      (simp_all add: bench_start_def goroutine_step_def ex_bench_def numeral_2_eq_2)
  have "at_round 0 ?s" "bs_pc ?s 0 = PTick" by (simp_all add: at_round_def bench_start_def)
  then obtain s1 where s1: "(bstep ex_bench 1 None)\<^sup>*\<^sup>* ?s s1" "at_round 99 s1" "bs_pc s1 0 = PTick" "bs_ch s1 = []"
    using rounds_run [of ?s 99] by (auto simp: bench_start_def)
  obtain s2 where s2: "bstep ex_bench 1 None s1 s2" "at_round 100 s2" "bs_pc s2 0 = PSend" "bs_ch s2 = []"
    using round_step [OF s1(2,3)] s1(4) by auto
  let ?s3 = "s2\<lparr>bs_ch := [bs_stat s2 0], bs_pc := (bs_pc s2)(0 := PTick)\<rparr>"
  have s3: "bstep ex_bench 1 None s2 ?s3"
    by (rule Goroutine [of _ 0 _ "\<lparr>tk_write = None, tk_resp = Inr 200, tk_elapsed = 0\<rparr>"]) (use s2 in \<open>auto simp: goroutine_step_def at_round_def\<close>)
  have a3: "at_round 100 ?s3" "bs_pc ?s3 0 = PTick" using s2(2) by (simp_all add: at_round_def)
  obtain s4 where "bstep ex_bench 1 None ?s3 s4" "at_round 101 s4" "bs_ch s4 = bs_ch ?s3"
    using round_step [OF a3] by auto
  moreover have "(bstep ex_bench 1 None)\<^sup>*\<^sup>* bench_start ?s3" using d s1(1) s2(1) s3 by (meson converse_rtranclp_into_rtranclp rtranclp.rtrancl_into_rtrancl)
  ultimately show ?thesis using s2(2) by (intro exI [of _ s4]) (auto simp: at_round_def)
qed

theorem bench_counts_witness:
  "\<exists>(s :: bench_sys) st. bs_ch s = [st] \<and> st_round st = 100 \<and> length (bs_ch s) \<le> 4 \<and> 100 \<le> sum_list (bs_percent s (st_percent st))"
proof -
  obtain s st where s: "(bstep ex_bench 1 None)\<^sup>*\<^sup>* bench_start s" "bs_ch s = [st]" "st_round st = 100" using report_distribution_lags by blast
  have "bench_main \<lparr>bf_connections = 1, bf_statGap = 0, bf_statLevel = 1, bf_payload = 0, bf_args = []\<rparr> = Ok (''tcp'', ex_bench, 1)"
    by (simp add: bench_main_def ex_bench_def)
  moreover have "statGap ex_bench * time_Millisecond < 2 ^ 63" "0 \<le> benchPayload ex_bench" by (simp_all add: ex_bench_def time_Millisecond_def)
  ultimately have "st_round st \<le> sum_list (bs_percent s (st_percent st))" "length (bs_ch s) \<le> 4 * 1"
    using bench_counts [OF _ _ _ s(1)] s(2) by (auto simp: reports_def)
  then show ?thesis using s(2,3) by (intro exI [of _ s] exI [of _ st]) simp
qed

end
